(* ===== verification/Prelude.thy ===== *)
theory Prelude
  imports Main "HOL-Library.List_Lexorder" "HOL-Library.Char_ord"
begin

text \<open>
  What every component of the development shares.

  \<^item> \<open>error\<close>, \<open>exn\<close> and \<open>throws\<close>: the three ways iRODS code reports a failure. An
    \<^verbatim>\<open>irods::error\<close> is returned as a value (status and code), an exception leaves the function
    (\<open>Inl\<close>), and C-style functions return a negative \<^typ>\<open>int\<close>.
  \<^item> \<open>sbind\<close>: sequencing of operations that change a state and may throw; the state
    reached before the exception is kept, as it is in the program.
  \<^item> \<open>run\<close> and \<open>reach\<close>: executions of a component as sequences of calls, with the contracts \<open>component\<close>
    (every step keeps the invariant) and \<open>shared_component\<close> (a grant survives the calls of others).
\<close>

section \<open>Automation\<close>

named_theorems std_string \<open>rewrite rules for the std::string operations\<close>
named_theorems res_simps \<open>rewrite rules for results, exceptions and their sequencing\<close>

section \<open>Error codes (lib/core/include/irods/rodsErrorTable.h)\<close>

abbreviation SYS_RESC_IS_DOWN :: int where "SYS_RESC_IS_DOWN \<equiv> - 105000"
abbreviation SYS_INVALID_INPUT_PARAM :: int where "SYS_INVALID_INPUT_PARAM \<equiv> - 130000"
abbreviation SYS_INTERNAL_ERR :: int where "SYS_INTERNAL_ERR \<equiv> - 154000"
abbreviation SYS_BAD_INPUT :: int where "SYS_BAD_INPUT \<equiv> - 158000"
abbreviation SYS_UNKNOWN_ERROR :: int where "SYS_UNKNOWN_ERROR \<equiv> - 165000"
abbreviation SYS_LIBRARY_ERROR :: int where "SYS_LIBRARY_ERROR \<equiv> - 167000"
abbreviation SYS_NOT_ALLOWED :: int where "SYS_NOT_ALLOWED \<equiv> - 169000"
abbreviation USER_FILE_TOO_LARGE :: int where "USER_FILE_TOO_LARGE \<equiv> - 311000"
abbreviation INTERMEDIATE_REPLICA_ACCESS :: int where "INTERMEDIATE_REPLICA_ACCESS \<equiv> - 405000"
abbreviation LOCKED_DATA_OBJECT_ACCESS :: int where "LOCKED_DATA_OBJECT_ACCESS \<equiv> - 406000"
abbreviation KEY_NOT_FOUND :: int where "KEY_NOT_FOUND \<equiv> - 1800000"
abbreviation CHILD_EXISTS :: int where "CHILD_EXISTS \<equiv> - 1802000"
abbreviation CHILD_NOT_FOUND :: int where "CHILD_NOT_FOUND \<equiv> - 1804000"
abbreviation NO_NEXT_RESC_FOUND :: int where "NO_NEXT_RESC_FOUND \<equiv> - 1805000"
abbreviation CLIENT_NEGOTIATION_ERROR :: int where "CLIENT_NEGOTIATION_ERROR \<equiv> - 1824000"

section \<open>Errors as values, exceptions as sums\<close>

text \<open>An \<^verbatim>\<open>irods::error\<close>: its status and its code (the message is not part of the model).\<close>

record error =
  status :: bool
  code :: int

definition SUCCESS :: error where
  "SUCCESS = \<lparr>status = True, code = 0\<rparr>"

definition ERROR :: "int \<Rightarrow> error" where
  "ERROR c = \<lparr>status = False, code = c\<rparr>"

definition ok :: "error \<Rightarrow> bool" where
  "ok e = status e"

text \<open>What ends a function early: an \<^verbatim>\<open>irods::exception\<close> with its code, an exception of the JSON
  library, another \<^verbatim>\<open>std::exception\<close>, or an integer division by zero, which nothing catches and which
  ends the process.\<close>

datatype exn = irods_exception int | json_exception | std_exception | division_by_zero

type_synonym 'a throws = "exn + 'a"

definition tbind :: "'a throws \<Rightarrow> ('a \<Rightarrow> 'b throws) \<Rightarrow> 'b throws" where
  "tbind m f = (case m of Inl e \<Rightarrow> Inl e | Inr x \<Rightarrow> f x)"

definition from_option :: "exn \<Rightarrow> 'a option \<Rightarrow> 'a throws" where
  "from_option e m = (case m of None \<Rightarrow> Inl e | Some x \<Rightarrow> Inr x)"

text \<open>A stateful operation that may throw. The state is returned in both cases.\<close>

type_synonym ('s, 'a) stm = "'s \<Rightarrow> 'a throws \<times> 's"

definition sreturn :: "'a \<Rightarrow> ('s, 'a) stm" where
  "sreturn x s = (Inr x, s)"

definition sthrow :: "exn \<Rightarrow> ('s, 'a) stm" where
  "sthrow e s = (Inl e, s)"

definition sbind :: "('s, 'a) stm \<Rightarrow> ('a \<Rightarrow> ('s, 'b) stm) \<Rightarrow> ('s, 'b) stm" where
  "sbind m f s = (case m s of (Inl e, s') \<Rightarrow> (Inl e, s') | (Inr x, s') \<Rightarrow> f x s')"

definition sget :: "('s \<Rightarrow> 'a throws) \<Rightarrow> ('s, 'a) stm" where
  "sget g s = (g s, s)"

text \<open>A \<^verbatim>\<open>for\<close> loop over a list; an exception ends it.\<close>

fun sfor :: "'x list \<Rightarrow> ('x \<Rightarrow> ('s, unit) stm) \<Rightarrow> ('s, unit) stm" where
  "sfor [] f = sreturn ()"
| "sfor (x # xs) f = sbind (f x) (\<lambda>_. sfor xs f)"

lemma ok_simps [simp, res_simps]:
  "ok SUCCESS" "\<not> ok (ERROR c)" "code (ERROR c) = c" "code SUCCESS = 0"
  "SUCCESS \<noteq> ERROR c" "ERROR c \<noteq> SUCCESS" "(ERROR c = ERROR d) = (c = d)"
  by (simp_all add: ok_def SUCCESS_def ERROR_def)

lemma tbind_simps [simp, res_simps]:
  "tbind (Inl e) f = Inl e" "tbind (Inr x) f = f x"
  by (simp_all add: tbind_def)

lemma tbind_eq_Inr: "tbind m f = Inr y \<longleftrightarrow> (\<exists>x. m = Inr x \<and> f x = Inr y)"
  by (cases m) auto

lemma from_option_simps [simp, res_simps]:
  "from_option e None = Inl e" "from_option e (Some x) = Inr x"
  by (simp_all add: from_option_def)

lemma sbind_Inr [res_simps]: "m s = (Inr x, s') \<Longrightarrow> sbind m f s = f x s'"
  by (simp add: sbind_def)

lemma sbind_Inl [res_simps]: "m s = (Inl e, s') \<Longrightarrow> sbind m f s = (Inl e, s')"
  by (simp add: sbind_def)

lemma sprim_simps [simp, res_simps]:
  "sreturn x s = (Inr x, s)" "sthrow e s = (Inl e, s)" "sget g s = (g s, s)"
  by (simp_all add: sreturn_def sthrow_def sget_def)

text \<open>Invariant rule of the loop: what the body keeps, the loop keeps, exceptions included.\<close>

lemma sfor_invariant:
  assumes "P s" and "\<And>x s r s'. x \<in> set xs \<Longrightarrow> P s \<Longrightarrow> f x s = (r, s') \<Longrightarrow> P s'"
  shows "P (snd (sfor xs f s))"
  using assms
proof (induction xs arbitrary: s)
  case Nil
  then show ?case by simp
next
  case (Cons x xs)
  obtain r s' where fx: "f x s = (r, s')" by force
  with Cons.prems have s': "P s'" by (meson list.set_intros(1))
  have "P (snd (sfor xs f s'))"
    using s' Cons.prems(2) by (intro Cons.IH) auto
  with s' fx show ?case
    by (cases r) (auto simp: sbind_def)
qed

section \<open>Executions of a component\<close>

text \<open>A component is a step relation labelled with the calls made on it. \<open>run\<close> is a sequence of calls,
  \<open>reach\<close> the states met from a start state by the calls that \<open>allowed\<close> admits.\<close>

inductive run :: "('s \<Rightarrow> 'a \<Rightarrow> 's \<Rightarrow> bool) \<Rightarrow> 's \<Rightarrow> 'a list \<Rightarrow> 's \<Rightarrow> bool" for step where
  run_Nil: "run step s [] s"
| run_Cons: "step s a s' \<Longrightarrow> run step s' as s'' \<Longrightarrow> run step s (a # as) s''"

inductive reach :: "('s \<Rightarrow> 'a \<Rightarrow> 's \<Rightarrow> bool) \<Rightarrow> ('a \<Rightarrow> bool) \<Rightarrow> 's \<Rightarrow> 's \<Rightarrow> bool" for step allowed s0 where
  reach_start: "reach step allowed s0 s0"
| reach_step: "reach step allowed s0 s \<Longrightarrow> allowed a \<Longrightarrow> step s a s' \<Longrightarrow> reach step allowed s0 s'"

text \<open>What a component promises about its steps: they keep its invariant.\<close>

locale component =
  fixes step :: "'s \<Rightarrow> 'a \<Rightarrow> 's \<Rightarrow> bool" and allowed :: "'a \<Rightarrow> bool" and inv :: "'s \<Rightarrow> bool"
  assumes step_keeps: "step s a s' \<Longrightarrow> allowed a \<Longrightarrow> inv s \<Longrightarrow> inv s'"
begin

lemma reach_keeps: "reach step allowed s0 s \<Longrightarrow> inv s0 \<Longrightarrow> inv s"
  by (induction rule: reach.induct) (auto intro: step_keeps)

lemma run_keeps: "run step s as s' \<Longrightarrow> list_all allowed as \<Longrightarrow> inv s \<Longrightarrow> inv s'"
  by (induction rule: run.induct) (auto intro: step_keeps)

end

text \<open>A component whose clients hold things: a grant that holds in a state survives the calls of
  every other client.\<close>

locale shared_component = component +
  fixes client :: "'a \<Rightarrow> 'c" and grant :: "'c \<Rightarrow> 's \<Rightarrow> bool"
  assumes others_keep: "step s a s' \<Longrightarrow> allowed a \<Longrightarrow> inv s \<Longrightarrow> client a \<noteq> c \<Longrightarrow> grant c s \<Longrightarrow> grant c s'"
begin

lemma run_grant:
  "run step s as s' \<Longrightarrow> list_all allowed as \<Longrightarrow> list_all (\<lambda>a. client a \<noteq> c) as \<Longrightarrow> inv s \<Longrightarrow> grant c s
     \<Longrightarrow> grant c s'"
  by (induction rule: run.induct) (auto intro: step_keeps others_keep)

end

end
