(* ===== verification/Std_String.thy ===== *)
theory Std_String
  imports Prelude
begin

text \<open>
  The part of \<^verbatim>\<open>std::string\<close> the components use. A position is a \<^typ>\<open>nat\<close>; the result
  \<open>None\<close> of a search, and \<open>None\<close> as a count, stand for \<^verbatim>\<open>std::string::npos\<close>. The second half
  gives the reference notions of splitting at a separator and joining with one.
\<close>

section \<open>Searching and cutting\<close>

definition find_pos :: "(char \<Rightarrow> bool) \<Rightarrow> string \<Rightarrow> nat \<Rightarrow> nat option" where
  "find_pos P s i = List.find (\<lambda>j. P (s ! j)) [i..<length s]"

definition find_first_of :: "string \<Rightarrow> string \<Rightarrow> nat option \<Rightarrow> nat option" where
  "find_first_of s d p = (case p of None \<Rightarrow> None | Some i \<Rightarrow> find_pos (\<lambda>c. c \<in> set d) s i)"

definition find_first_not_of :: "string \<Rightarrow> string \<Rightarrow> nat option \<Rightarrow> nat option" where
  "find_first_not_of s d p = (case p of None \<Rightarrow> None | Some i \<Rightarrow> find_pos (\<lambda>c. c \<notin> set d) s i)"

text \<open>\<^verbatim>\<open>s.substr(i, n)\<close>; it throws \<^verbatim>\<open>std::out_of_range\<close> when \<open>i\<close> is past the end.\<close>

definition substr :: "string \<Rightarrow> nat \<Rightarrow> nat option \<Rightarrow> string throws" where
  "substr s i n = (if i \<le> length s
     then Inr (case n of None \<Rightarrow> drop i s | Some k \<Rightarrow> take k (drop i s))
     else Inl std_exception)"

definition starts_with :: "string \<Rightarrow> string \<Rightarrow> bool" where
  "starts_with s p = (take (length p) s = p)"

text \<open>\<^verbatim>\<open>s.find(p)\<close> used as a test for \<^verbatim>\<open>npos\<close>.\<close>

definition contains_str :: "string \<Rightarrow> string \<Rightarrow> bool" where
  "contains_str s p = (\<exists>i\<in>set [0..<Suc (length s)]. starts_with (drop i s) p)"

lemma find_pos_NoneD: "find_pos P s i = None \<Longrightarrow> i \<le> j \<Longrightarrow> j < length s \<Longrightarrow> \<not> P (s ! j)"
  by (auto simp: find_pos_def find_None_iff)

lemma find_upt_Some_iff:
  "List.find Q [i..<n] = Some j \<longleftrightarrow> i \<le> j \<and> j < n \<and> Q j \<and> (\<forall>k. i \<le> k \<longrightarrow> k < j \<longrightarrow> \<not> Q k)"
proof
  assume "List.find Q [i..<n] = Some j"
  then obtain k where k: "k < length [i..<n]" "Q ([i..<n] ! k)" "j = [i..<n] ! k"
    "\<forall>l<k. \<not> Q ([i..<n] ! l)"
    by (auto simp: find_Some_iff)
  have "\<not> Q l" if "i \<le> l" "l < j" for l
  proof -
    have "l - i < k" using k that by auto
    with k(4) have "\<not> Q ([i..<n] ! (l - i))" by blast
    moreover have "[i..<n] ! (l - i) = l" using k that by auto
    ultimately show ?thesis by simp
  qed
  with k show "i \<le> j \<and> j < n \<and> Q j \<and> (\<forall>k. i \<le> k \<longrightarrow> k < j \<longrightarrow> \<not> Q k)" by auto
next
  assume "i \<le> j \<and> j < n \<and> Q j \<and> (\<forall>k. i \<le> k \<longrightarrow> k < j \<longrightarrow> \<not> Q k)"
  then show "List.find Q [i..<n] = Some j"
    by (auto simp: find_Some_iff intro!: exI [of _ "j - i"])
qed

lemma find_pos_Some_iff:
  "find_pos P s i = Some j \<longleftrightarrow>
     i \<le> j \<and> j < length s \<and> P (s ! j) \<and> (\<forall>k. i \<le> k \<longrightarrow> k < j \<longrightarrow> \<not> P (s ! k))"
  by (simp add: find_pos_def find_upt_Some_iff)

lemma find_pos_SomeD:
  "find_pos P s i = Some j \<Longrightarrow> i \<le> j \<and> j < length s \<and> P (s ! j)"
  by (simp add: find_pos_Some_iff)

lemma find_pos_char_append [std_string]:
  "c \<notin> set x \<Longrightarrow> find_pos (\<lambda>d. d = c) (x @ c # r) 0 = Some (length x)"
  by (auto simp: find_pos_Some_iff nth_append)

lemma find_pos_char_None [std_string]: "c \<notin> set x \<Longrightarrow> find_pos (\<lambda>d. d = c) x 0 = None"
  by (auto simp: find_pos_def find_None_iff)

lemma length_takeWhile_less_iff:
  "length (takeWhile P xs) < length xs \<longleftrightarrow> (\<exists>x\<in>set xs. \<not> P x)"
  by (induction xs) auto

text \<open>A search is a \<open>takeWhile\<close> over the rest of the string.\<close>

lemma find_pos_takeWhile:
  assumes "i \<le> length s"
  shows "find_pos P s i =
    (if \<exists>c\<in>set (drop i s). P c then Some (i + length (takeWhile (\<lambda>c. \<not> P c) (drop i s))) else None)"
proof (cases "\<exists>c\<in>set (drop i s). P c")
  case True
  let ?w = "takeWhile (\<lambda>c. \<not> P c) (drop i s)"
  have len: "length ?w < length (drop i s)"
    using True by (simp add: length_takeWhile_less_iff del: length_drop)
  have "P (drop i s ! length ?w)"
    using nth_length_takeWhile [OF len] by simp
  moreover have "\<not> P (s ! k)" if "i \<le> k" "k < i + length ?w" for k
  proof -
    have "k - i < length ?w" using that by linarith
    then have "?w ! (k - i) \<in> set ?w" by simp
    moreover have "?w ! (k - i) = s ! k"
      using that assms by (simp add: takeWhile_nth)
    ultimately show ?thesis by (metis set_takeWhileD)
  qed
  ultimately show ?thesis
    using True len assms by (auto simp: find_pos_Some_iff)
next
  case False
  have "\<not> P (s ! j)" if "i \<le> j" "j < length s" for j
  proof -
    have "drop i s ! (j - i) \<in> set (drop i s)" using that by (intro nth_mem) simp
    then show ?thesis using False that by auto
  qed
  then show ?thesis using False
    by (auto simp: find_pos_def find_None_iff)
qed

lemma starts_with_iff [std_string]: "starts_with s p \<longleftrightarrow> (\<exists>r. s = p @ r)"
proof
  assume "starts_with s p"
  then have "s = p @ drop (length p) s" by (metis starts_with_def append_take_drop_id)
  then show "\<exists>r. s = p @ r" by blast
qed (auto simp: starts_with_def)

lemma starts_with_append [simp]: "starts_with (p @ r) p"
  by (simp add: starts_with_def)

lemma starts_with_single [simp]: "starts_with s [c] \<longleftrightarrow> (\<exists>r. s = c # r)"
  by (simp add: starts_with_iff)

lemma contains_str_single [simp]: "contains_str s [c] \<longleftrightarrow> c \<in> set s"
proof
  assume "contains_str s [c]"
  then obtain i r where "drop i s = c # r" by (auto simp: contains_str_def)
  then show "c \<in> set s" by (metis in_set_dropD list.set_intros(1))
next
  assume "c \<in> set s"
  then obtain xs ys where "s = xs @ c # ys" by (meson split_list)
  then show "contains_str s [c]"
    by (auto simp: contains_str_def intro!: bexI [of _ "length xs"])
qed

section \<open>Splitting at a separator, joining with a separator\<close>

text \<open>\<open>pieces P s\<close>: the maximal non-empty runs of characters that do not satisfy \<open>P\<close>.\<close>

function pieces :: "(char \<Rightarrow> bool) \<Rightarrow> string \<Rightarrow> string list" where
  "pieces P [] = []"
| "pieces P (c # s) = (if P c then pieces P s
     else (c # takeWhile (\<lambda>x. \<not> P x) s) # pieces P (dropWhile (\<lambda>x. \<not> P x) s))"
  by pat_completeness auto
termination
  by (relation "measure (\<lambda>(P, s). length s)") (auto simp: less_Suc_eq_le length_dropWhile_le)

text \<open>\<open>joins d xs\<close>: the pieces with the separator between them.\<close>

fun joins :: "string \<Rightarrow> string list \<Rightarrow> string" where
  "joins d [] = []"
| "joins d [x] = x"
| "joins d (x # y # ys) = x @ d @ joins d (y # ys)"

text \<open>\<open>splits c s\<close>: the pieces between the occurrences of \<open>c\<close>, empty ones included.\<close>

fun splits :: "char \<Rightarrow> string \<Rightarrow> string list" where
  "splits c [] = [[]]"
| "splits c (x # xs) = (if x = c then [] # splits c xs
     else (case splits c xs of [] \<Rightarrow> [[x]] | p # ps \<Rightarrow> (x # p) # ps))"

lemma splits_not_Nil [simp]: "splits c s \<noteq> []"
  by (induction s) (auto split: list.splits)

lemma splits_no_sep: "p \<in> set (splits c s) \<Longrightarrow> c \<notin> set p"
  by (induction s arbitrary: p) (auto split: list.splits if_splits)

lemma joins_Cons: "xs \<noteq> [] \<Longrightarrow> joins d (x # xs) = x @ d @ joins d xs"
  by (cases xs) auto

lemma joins_concat: "joins [c] (x # xs) = x @ concat (map (\<lambda>y. c # y) xs)"
  by (induction xs arbitrary: x) auto

lemma joins_splits [simp]: "joins [c] (splits c s) = s"
proof (induction s)
  case Nil
  then show ?case by simp
next
  case (Cons x s)
  obtain p ps where ps: "splits c s = p # ps"
    by (metis list.exhaust splits_not_Nil)
  with Cons show ?case
    by (cases ps) auto
qed

lemma splits_append_sep:
  "c \<notin> set x \<Longrightarrow> splits c (x @ c # r) = x # splits c r"
  by (induction x) auto

lemma splits_no_occ: "c \<notin> set x \<Longrightarrow> splits c x = [x]"
  by (induction x) auto

lemma splits_joins:
  "xs \<noteq> [] \<Longrightarrow> (\<forall>x\<in>set xs. c \<notin> set x) \<Longrightarrow> splits c (joins [c] xs) = xs"
  by (induction "[c]" xs rule: joins.induct) (auto simp: splits_append_sep splits_no_occ)

lemma set_joins: "set (joins d xs) \<subseteq> set d \<union> (\<Union>x\<in>set xs. set x)"
  by (induction d xs rule: joins.induct) auto

lemma pieces_append_sep:
  "x \<noteq> [] \<Longrightarrow> (\<forall>c\<in>set x. \<not> P c) \<Longrightarrow> P c \<Longrightarrow> pieces P (x @ c # r) = x # pieces P r"
  by (cases x) auto

lemma pieces_no_sep: "x \<noteq> [] \<Longrightarrow> (\<forall>c\<in>set x. \<not> P c) \<Longrightarrow> pieces P x = [x]"
proof (cases x)
  case (Cons a list)
  assume "\<forall>c\<in>set x. \<not> P c"
  with Cons have w: "takeWhile (\<lambda>x. \<not> P x) list = list" and d: "dropWhile (\<lambda>x. \<not> P x) list = []"
    and a: "\<not> P a"
    by auto
  from Cons a show ?thesis by (simp only: pieces.simps w d if_False)
qed simp

lemma pieces_joins:
  "(\<forall>x\<in>set xs. x \<noteq> [] \<and> (\<forall>c\<in>set x. \<not> P c)) \<Longrightarrow> P c \<Longrightarrow> pieces P (joins [c] xs) = xs"
  by (induction "[c]" xs rule: joins.induct) (auto simp: pieces_append_sep pieces_no_sep)

lemma takeWhile_all [simp]: "list_all Q (takeWhile Q s)"
  by (induction s) auto

lemma pieces_nonempty: "list_all (\<lambda>x. x \<noteq> [] \<and> list_all (\<lambda>c. \<not> P c) x) (pieces P s)"
  by (induction P s rule: pieces.induct) auto

lemma pieces_Nil_iff: "pieces P s = [] \<longleftrightarrow> list_all P s"
  by (induction P s rule: pieces.induct) auto

lemma pieces_dropWhile [simp]: "pieces P (dropWhile P s) = pieces P s"
  by (induction s) auto

end
