(* ===== verification/Hierarchy_Parser.thy ===== *)
theory Hierarchy_Parser
  imports Std_String
begin

text \<open>
  Resource hierarchies: \<^verbatim>\<open>lib/core/src/irods_string_tokenize.cpp\<close> and
  \<^verbatim>\<open>lib/core/src/irods_hierarchy_parser.cpp\<close>. A \<^verbatim>\<open>hierarchy_parser\<close> holds the vector
  \<^verbatim>\<open>resc_list_\<close>; its operations are modelled on that list. The tokenizer is modelled with the
  positions of the source and proved equal to the pieces of the text between the delimiters.
\<close>

section \<open>string_tokenize\<close>

text \<open>A leading blank of a token is dropped.\<close>

definition strip_blank :: "string \<Rightarrow> string" where
  "strip_blank tt = (case tt of c # r \<Rightarrow> if c = CHR '' '' then r else tt | [] \<Rightarrow> tt)"

lemma find_first_step:
  assumes "find_first_not_of s d (find_first_of s d (Some i)) = Some k"
  shows "i < k \<and> k < length s"
proof -
  obtain j where j: "find_pos (\<lambda>c. c \<in> set d) s i = Some j"
    and k: "find_pos (\<lambda>c. c \<notin> set d) s j = Some k"
    using assms by (auto simp: find_first_of_def find_first_not_of_def split: option.splits)
  then have "i \<le> j" "s ! j \<in> set d" "j \<le> k" "k < length s" "s ! k \<notin> set d"
    by (auto dest: find_pos_SomeD)
  moreover from this have "j \<noteq> k" by metis
  ultimately show ?thesis by linarith
qed

text \<open>
  The loop of \<^verbatim>\<open>string_tokenize\<close>. At its head \<^verbatim>\<open>pos\<close> is always
  \<^verbatim>\<open>_str.find_first_of(_delim, last_pos)\<close>, so it is computed from \<^verbatim>\<open>last_pos\<close>.
\<close>

function tokenize_loop :: "string \<Rightarrow> string \<Rightarrow> nat option \<Rightarrow> string list \<Rightarrow> string list throws" where
  "tokenize_loop s d last_pos tok =
     (let pos = find_first_of s d last_pos in
      if pos \<noteq> None \<or> last_pos \<noteq> None then
        (case last_pos of
           None \<Rightarrow> Inl std_exception
         | Some i \<Rightarrow>
             (case substr s i (map_option (\<lambda>p. p - i) pos) of
                Inl e \<Rightarrow> Inl e
              | Inr tt \<Rightarrow> tokenize_loop s d (find_first_not_of s d pos) (tok @ [strip_blank tt])))
      else Inr tok)"
  by pat_completeness auto

termination
proof (relation "measure (\<lambda>(s, d, last_pos, tok). case last_pos of None \<Rightarrow> 0 | Some i \<Rightarrow> Suc (length s - i))")
  fix s d :: string and last_pos :: "nat option" and tok pos i tt
  assume pos: "pos = find_first_of s d last_pos" and i: "last_pos = Some i"
  show "((s, d, find_first_not_of s d pos, tok @ [strip_blank tt]), s, d, last_pos, tok) \<in>
    measure (\<lambda>(s, d, last_pos, tok). case last_pos of None \<Rightarrow> 0 | Some i \<Rightarrow> Suc (length s - i))"
    using find_first_step [of s d i] pos i
    by (cases "find_first_not_of s d pos") (auto intro: diff_less_mono2)
qed simp

declare tokenize_loop.simps [simp del]

definition string_tokenize :: "string \<Rightarrow> string \<Rightarrow> string list \<Rightarrow> string list throws" where
  "string_tokenize s d tok = tokenize_loop s d (find_first_not_of s d (Some 0)) tok"

section \<open>hierarchy_parser\<close>

type_synonym resc_list = "string list"

definition DELIM :: string where
  "DELIM = '';''"

definition hierarchy_parser :: "string \<Rightarrow> resc_list throws" where
  "hierarchy_parser hier = tbind (string_tokenize hier DELIM [])
     (\<lambda>l. if l = [] then Inl (irods_exception SYS_INVALID_INPUT_PARAM) else Inr l)"

definition hp_set_string :: "string \<Rightarrow> (error \<times> resc_list) throws" where
  "hp_set_string hier = tbind (string_tokenize hier DELIM [])
     (\<lambda>l. Inr (if l = [] then ERROR SYS_INVALID_INPUT_PARAM else SUCCESS, l))"

text \<open>The loop of \<^verbatim>\<open>str(std::string&, const std::string&)\<close>, with its flags.\<close>

fun hp_str_loop :: "string \<Rightarrow> resc_list \<Rightarrow> bool \<Rightarrow> bool \<Rightarrow> string \<Rightarrow> string" where
  "hp_str_loop term [] first fin ret = ret"
| "hp_str_loop term (r # rs) first fin ret =
     (if fin then ret
      else hp_str_loop term rs False (r = term) ((if first then ret else ret @ DELIM) @ r))"

definition hp_str_out :: "resc_list \<Rightarrow> string \<Rightarrow> error \<times> string" where
  "hp_str_out l term = (SUCCESS, hp_str_loop term l True False [])"

text \<open>The loop of \<^verbatim>\<open>str(const std::string&)\<close>, which leaves by \<^verbatim>\<open>break\<close>.\<close>

fun hp_str_break :: "string \<Rightarrow> resc_list \<Rightarrow> bool \<Rightarrow> string \<Rightarrow> string" where
  "hp_str_break term [] first ret = ret"
| "hp_str_break term (r # rs) first ret =
     (let ret' = (if first then ret else ret @ DELIM) @ r in
      if r = term then ret' else hp_str_break term rs False ret')"

definition hp_str :: "resc_list \<Rightarrow> string \<Rightarrow> string" where
  "hp_str l term = hp_str_break term l True []"

definition hp_add_child :: "resc_list \<Rightarrow> string \<Rightarrow> error \<times> resc_list" where
  "hp_add_child l r = (if r = DELIM then (ERROR SYS_INVALID_INPUT_PARAM, l) else (SUCCESS, l @ [r]))"

text \<open>The copy constructor adds the resources one by one.\<close>

fun hp_copy :: "resc_list \<Rightarrow> resc_list \<Rightarrow> resc_list" where
  "hp_copy acc [] = acc"
| "hp_copy acc (r # rs) = hp_copy (snd (hp_add_child acc r)) rs"

definition hp_num_levels :: "resc_list \<Rightarrow> nat" where
  "hp_num_levels l = length l"

definition hp_remove_resource :: "resc_list \<Rightarrow> string \<Rightarrow> resc_list throws" where
  "hp_remove_resource l r =
     (if r = [] \<or> r = DELIM then Inl (irods_exception SYS_INVALID_INPUT_PARAM)
      else if hp_num_levels l < 2 then Inl (irods_exception SYS_NOT_ALLOWED)
      else if r \<notin> set l then Inl (irods_exception CHILD_NOT_FOUND)
      else Inr (remove1 r l))"

text \<open>\<^verbatim>\<open>resc_list_.insert(it, _parent)\<close> with \<^verbatim>\<open>it\<close> the first occurrence of the child.\<close>

fun insert_before :: "'a \<Rightarrow> 'a \<Rightarrow> 'a list \<Rightarrow> 'a list" where
  "insert_before p c [] = [p]"
| "insert_before p c (x # xs) = (if x = c then p # x # xs else x # insert_before p c xs)"

definition hp_add_parent :: "resc_list \<Rightarrow> string \<Rightarrow> string \<Rightarrow> resc_list throws" where
  "hp_add_parent l parent child =
     (if parent = DELIM then Inl (irods_exception SYS_INVALID_INPUT_PARAM)
      else if child = [] then Inr (parent # l)
      else if child \<notin> set l then Inl (irods_exception CHILD_NOT_FOUND)
      else Inr (insert_before parent child l))"

definition hp_first_resc :: "resc_list \<Rightarrow> string" where
  "hp_first_resc l = (if length l \<noteq> 0 then hd l else [])"

definition hp_last_resc :: "resc_list \<Rightarrow> string" where
  "hp_last_resc l = (if length l \<noteq> 0 then last l else [])"

text \<open>\<^verbatim>\<open>next(current, ret)\<close>: the result string is cleared first.\<close>

fun hp_next_loop :: "resc_list \<Rightarrow> string \<Rightarrow> bool \<Rightarrow> error \<times> string \<Rightarrow> bool \<times> error \<times> string" where
  "hp_next_loop [] cur found res = (found, res)"
| "hp_next_loop (r # rs) cur found res =
     (if found then (found, res)
      else if r = cur then
        hp_next_loop rs cur True
          (case rs of n # _ \<Rightarrow> (fst res, n) | [] \<Rightarrow> (ERROR NO_NEXT_RESC_FOUND, snd res))
      else hp_next_loop rs cur False res)"

definition hp_next_out :: "resc_list \<Rightarrow> string \<Rightarrow> error \<times> string" where
  "hp_next_out l cur = (case hp_next_loop l cur False (SUCCESS, []) of
      (found, e, r) \<Rightarrow> (if \<not> found then (ERROR CHILD_NOT_FOUND, r) else (e, r)))"

fun hp_next :: "resc_list \<Rightarrow> string \<Rightarrow> string throws" where
  "hp_next [] cur = Inl (irods_exception CHILD_NOT_FOUND)"
| "hp_next (r # rs) cur =
     (if r = cur then (case rs of n # _ \<Rightarrow> Inr n | [] \<Rightarrow> Inl (irods_exception NO_NEXT_RESC_FOUND))
      else hp_next rs cur)"

definition hp_contains :: "resc_list \<Rightarrow> string \<Rightarrow> bool" where
  "hp_contains l r = list_ex (\<lambda>x. x = r) l"

section \<open>The tokenizer returns the pieces of the text\<close>

lemma find_first_of_takeWhile:
  assumes "i \<le> length s"
  shows "find_first_of s d (Some i) = (if list_all (\<lambda>c. c \<notin> set d) (drop i s) then None
      else Some (i + length (takeWhile (\<lambda>c. c \<notin> set d) (drop i s))))"
    and "find_first_not_of s d (Some i) = (if list_all (\<lambda>c. c \<in> set d) (drop i s) then None
      else Some (i + length (takeWhile (\<lambda>c. c \<in> set d) (drop i s))))"
  using assms by (auto simp: find_first_of_def find_first_not_of_def find_pos_takeWhile list_all_iff)

lemma tokenize_loop_None: "tokenize_loop s d None tok = Inr tok"
  by (subst tokenize_loop.simps) (simp add: find_first_of_def)

lemma tokenize_loop_Some:
  "i \<le> length s \<Longrightarrow> tokenize_loop s d (Some i) tok =
     tokenize_loop s d (find_first_not_of s d (find_first_of s d (Some i)))
       (tok @ [strip_blank (case find_first_of s d (Some i) of None \<Rightarrow> drop i s
          | Some p \<Rightarrow> take (p - i) (drop i s))])"
  by (subst tokenize_loop.simps) (auto simp: substr_def Let_def split: option.splits)

lemma drop_length_takeWhile: "drop (i + length (takeWhile P (drop i s))) s = dropWhile P (drop i s)"
  by (metis add.commute drop_drop dropWhile_eq_drop)

lemma take_length_takeWhile: "take (length (takeWhile P xs)) xs = takeWhile P xs"
  by (metis takeWhile_eq_take)

lemma pieces_unfold:
  "xs \<noteq> [] \<Longrightarrow> \<not> P (hd xs) \<Longrightarrow>
     pieces P xs = takeWhile (\<lambda>c. \<not> P c) xs # pieces P (dropWhile (\<lambda>c. \<not> P c) xs)"
  by (cases xs) auto

lemma tokenize_loop_pieces:
  assumes "i < length s" and "s ! i \<notin> set d"
  shows "tokenize_loop s d (Some i) tok = Inr (tok @ map strip_blank (pieces (\<lambda>c. c \<in> set d) (drop i s)))"
  using assms
proof (induction "length s - i" arbitrary: i tok rule: less_induct)
  case less
  let ?P = "\<lambda>c. c \<in> set d"
  let ?w = "takeWhile (\<lambda>c. c \<notin> set d) (drop i s)"
  have hd: "drop i s \<noteq> []" "hd (drop i s) \<notin> set d"
    using less.prems by (simp_all add: hd_drop_conv_nth)
  note unf = pieces_unfold [of "drop i s" ?P, OF hd]
  show ?case
  proof (cases "list_all (\<lambda>c. c \<notin> set d) (drop i s)")
    case True
    then have w: "?w = drop i s" by (simp add: list_all_iff)
    have dw: "dropWhile (\<lambda>c. c \<notin> set d) (drop i s) = []"
      using True by (simp add: list_all_iff)
    have "pieces ?P (drop i s) = [drop i s]" using unf by (simp only: w dw pieces.simps)
    moreover have "find_first_of s d (Some i) = None"
      using less.prems True by (simp add: find_first_of_takeWhile(1))
    ultimately show ?thesis
      using less.prems by (simp add: tokenize_loop_Some find_first_not_of_def tokenize_loop_None)
  next
    case False
    let ?j = "i + length ?w"
    have "length ?w < length (drop i s)"
      using False by (simp add: length_takeWhile_less_iff list_all_iff del: length_drop)
    then have j: "?j < length s" by simp
    have dj: "drop ?j s = dropWhile (\<lambda>c. c \<notin> set d) (drop i s)" by (rule drop_length_takeWhile)
    have "tokenize_loop s d (Some i) tok =
        tokenize_loop s d (find_first_not_of s d (Some ?j)) (tok @ [strip_blank ?w])"
    proof -
      have "find_first_of s d (Some i) = Some ?j"
        using less.prems False by (simp add: find_first_of_takeWhile(1))
      moreover have "take (?j - i) (drop i s) = ?w"
        by (simp only: add_diff_cancel_left' take_length_takeWhile)
      ultimately show ?thesis
        using less.prems by (simp only: tokenize_loop_Some less_imp_le option.case)
    qed
    also have "\<dots> = Inr ((tok @ [strip_blank ?w]) @ map strip_blank (pieces ?P (drop ?j s)))"
    proof (cases "list_all ?P (drop ?j s)")
      case True
      then have "pieces ?P (drop ?j s) = []" by (simp add: pieces_Nil_iff)
      with True j show ?thesis
        by (simp add: find_first_of_takeWhile(2) tokenize_loop_None)
    next
      case ne: False
      let ?v = "takeWhile ?P (drop ?j s)"
      let ?k = "?j + length ?v"
      have len: "length ?v < length (drop ?j s)"
        using ne by (simp add: length_takeWhile_less_iff list_all_iff del: length_drop)
      have k: "?k < length s" using len by simp
      have sk: "s ! ?k \<notin> set d"
        using nth_length_takeWhile [OF len] j by (simp add: add.assoc)
      have "0 < length ?w" using hd by (cases "drop i s") auto
      then have "length s - ?k < length s - i" using k by linarith
      from less.hyps [OF this k sk]
      have "tokenize_loop s d (Some ?k) (tok @ [strip_blank ?w]) =
          Inr ((tok @ [strip_blank ?w]) @ map strip_blank (pieces ?P (drop ?k s)))" .
      moreover have "pieces ?P (drop ?k s) = pieces ?P (drop ?j s)"
        by (subst drop_length_takeWhile) (rule pieces_dropWhile)
      ultimately show ?thesis
        using ne j by (simp add: find_first_of_takeWhile(2))
    qed
    finally show ?thesis using unf dj by simp
  qed
qed

lemma string_tokenize_pieces:
  "string_tokenize s d tok = Inr (tok @ map strip_blank (pieces (\<lambda>c. c \<in> set d) s))"
proof (cases "list_all (\<lambda>c. c \<in> set d) s")
  case True
  then have "pieces (\<lambda>c. c \<in> set d) s = []" by (simp add: pieces_Nil_iff)
  with True show ?thesis
    using find_first_of_takeWhile(2) [of 0 s d]
    by (simp add: string_tokenize_def tokenize_loop_None)
next
  case False
  let ?v = "takeWhile (\<lambda>c. c \<in> set d) s"
  have len: "length ?v < length s"
    using False by (simp add: length_takeWhile_less_iff list_all_iff)
  have "drop (length ?v) s = dropWhile (\<lambda>c. c \<in> set d) s" by (metis dropWhile_eq_drop)
  then show ?thesis
    using False tokenize_loop_pieces [OF len nth_length_takeWhile [OF len], of tok]
      find_first_of_takeWhile(2) [of 0 s d]
    by (simp add: string_tokenize_def)
qed

section \<open>Printing and parsing\<close>

text \<open>A resource name the tokenizer keeps as it is.\<close>

definition valid_name :: "string \<Rightarrow> bool" where
  "valid_name r = (r \<noteq> [] \<and> CHR '';'' \<notin> set r \<and> hd r \<noteq> CHR '' '')"

text \<open>The hierarchy up to and including the first occurrence of a resource.\<close>

fun take_through :: "'a \<Rightarrow> 'a list \<Rightarrow> 'a list" where
  "take_through t [] = []"
| "take_through t (x # xs) = (if x = t then [x] else x # take_through t xs)"

lemma take_through_notin [simp]: "t \<notin> set l \<Longrightarrow> take_through t l = l"
  by (induction l) auto

lemma take_through_Nil_iff [simp]: "take_through t l = [] \<longleftrightarrow> l = []"
  by (cases l) auto

lemma hp_str_break_joins:
  "hp_str_break term l False ret = ret @ (if l = [] then [] else DELIM @ joins DELIM (take_through term l))"
  by (induction l arbitrary: ret) (auto simp: Let_def joins_Cons)

lemma hp_str_joins: "hp_str l term = joins DELIM (take_through term l)"
  by (cases l) (auto simp: hp_str_def Let_def hp_str_break_joins joins_Cons)

lemma hp_str_loop_fin [simp]: "hp_str_loop term l first True ret = ret"
  by (cases l) auto

lemma hp_str_loop_break: "hp_str_loop term l first False ret = hp_str_break term l first ret"
  by (induction l arbitrary: first ret) (auto simp: Let_def)

lemma hp_str_out_eq: "hp_str_out l term = (SUCCESS, hp_str l term)"
  by (simp add: hp_str_out_def hp_str_def hp_str_loop_break)

lemma strip_blank_valid: "valid_name r \<Longrightarrow> strip_blank r = r"
  by (auto simp: valid_name_def strip_blank_def split: list.splits)

lemma hierarchy_parser_pieces:
  "hierarchy_parser h = (if pieces (\<lambda>c. c = CHR '';'') h = []
     then Inl (irods_exception SYS_INVALID_INPUT_PARAM)
     else Inr (map strip_blank (pieces (\<lambda>c. c = CHR '';'') h)))"
  by (simp add: hierarchy_parser_def string_tokenize_pieces DELIM_def)

lemma hierarchy_parser_hp_str:
  assumes "l \<noteq> []" and "list_all valid_name l"
  shows "hierarchy_parser (hp_str l []) = Inr l"
proof -
  have "[] \<notin> set l" using assms(2) by (auto simp: list_all_iff valid_name_def)
  then have str: "hp_str l [] = joins [CHR '';''] l"
    by (simp add: hp_str_joins DELIM_def)
  have "pieces (\<lambda>c. c = CHR '';'') (joins [CHR '';''] l) = l"
    using assms(2) by (intro pieces_joins) (auto simp: list_all_iff valid_name_def)
  moreover have "map strip_blank l = l"
    using assms(2) by (intro map_idI) (auto simp: list_all_iff strip_blank_valid)
  ultimately show ?thesis
    using assms(1) by (simp add: hierarchy_parser_pieces str)
qed

section \<open>Navigating and editing a hierarchy\<close>

lemma hp_next_split: "cur \<notin> set xs \<Longrightarrow> hp_next (xs @ cur # ys) cur =
    (case ys of n # _ \<Rightarrow> Inr n | [] \<Rightarrow> Inl (irods_exception NO_NEXT_RESC_FOUND))"
  by (induction xs) (auto split: list.splits)

lemma hp_next_notin: "cur \<notin> set l \<Longrightarrow> hp_next l cur = Inl (irods_exception CHILD_NOT_FOUND)"
  by (induction l) auto

lemma hp_next_loop_found [simp]: "hp_next_loop l cur True res = (True, res)"
  by (cases l) auto

lemma hp_next_loop_eq:
  "hp_next_loop l cur False (SUCCESS, []) =
     (case hp_next l cur of
        Inr n \<Rightarrow> (True, SUCCESS, n)
      | Inl e \<Rightarrow> if e = irods_exception NO_NEXT_RESC_FOUND then (True, ERROR NO_NEXT_RESC_FOUND, [])
          else (False, SUCCESS, []))"
  by (induction l) (auto split: list.splits)

lemma insert_before_split:
  "c \<notin> set xs \<Longrightarrow> insert_before p c (xs @ c # ys) = xs @ p # c # ys"
  by (induction xs) auto

lemma remove1_insert_before: "p \<notin> set l \<Longrightarrow> c \<in> set l \<Longrightarrow> remove1 p (insert_before p c l) = l"
  by (induction l) auto

lemma hp_copy_all: "DELIM \<notin> set l \<Longrightarrow> hp_copy acc l = acc @ l"
  by (induction l arbitrary: acc) (auto simp: hp_add_child_def)

text \<open>C17 (equivalence). The position-based loop of \<^verbatim>\<open>string_tokenize\<close> never throws and appends to the
  output vector exactly the maximal runs of non-delimiter characters, in order, each without one
  leading blank.\<close>

theorem string_tokenize_correct:
  "string_tokenize s d tok = Inr (tok @ map strip_blank (pieces (\<lambda>c. c \<in> set d) s))"
  by (rule string_tokenize_pieces)

text \<open>C18 (roundtrip). Printing a non-empty hierarchy of well-formed names and parsing it again gives
  the hierarchy back.\<close>

theorem hierarchy_roundtrip:
  "l \<noteq> [] \<Longrightarrow> list_all valid_name l \<Longrightarrow> hierarchy_parser (hp_str l []) = Inr l"
  by (rule hierarchy_parser_hp_str)

theorem hierarchy_roundtrip_witness:
  "hierarchy_parser (hp_str [''pt'', ''repl'', ''ufs0''] []) = Inr [''pt'', ''repl'', ''ufs0'']"
  by (rule hierarchy_roundtrip) (simp_all add: valid_name_def)

text \<open>Both overloads of \<^verbatim>\<open>hierarchy_parser::str\<close> print the hierarchy up to and
  including the first occurrence of the terminal resource, and all of it when it does not occur.\<close>

lemma hierarchy_str_overloads:
  "hp_str_out l term = (SUCCESS, hp_str l term) \<and> hp_str l term = joins DELIM (take_through term l)"
  by (simp add: hp_str_out_eq hp_str_joins)

text \<open>\<^verbatim>\<open>hierarchy_parser::next\<close> returns a name exactly when the first occurrence of
  the current resource has a successor, which it returns; a leaf and an absent resource give
  different errors; the overload with an output argument reports the same.\<close>

lemma hierarchy_next_correct:
  "((hp_next l cur = Inr n) = (\<exists>xs ys. l = xs @ cur # n # ys \<and> cur \<notin> set xs)) \<and>
   ((hp_next l cur = Inl (irods_exception CHILD_NOT_FOUND)) = (cur \<notin> set l)) \<and>
   hp_next_out l cur = (case hp_next l cur of Inr n \<Rightarrow> (SUCCESS, n)
     | Inl e \<Rightarrow> (ERROR (if cur \<in> set l then NO_NEXT_RESC_FOUND else CHILD_NOT_FOUND), []))"
proof (cases "cur \<in> set l")
  case True
  then obtain xs ys where l: "l = xs @ cur # ys" "cur \<notin> set xs"
    by (meson split_list_first)
  have "(\<exists>xs' ys'. xs @ cur # ys = xs' @ cur # n # ys' \<and> cur \<notin> set xs') = (\<exists>ys'. ys = n # ys')"
  proof
    assume "\<exists>xs' ys'. xs @ cur # ys = xs' @ cur # n # ys' \<and> cur \<notin> set xs'"
    then show "\<exists>ys'. ys = n # ys'"
      using l(2) by (auto simp: append_eq_append_conv2 Cons_eq_append_conv append_eq_Cons_conv)
  qed (use l(2) in blast)
  with l show ?thesis
    by (cases ys) (auto simp add: hp_next_out_def hp_next_loop_eq hp_next_split)
next
  case False
  then show ?thesis
    by (auto simp: hp_next_out_def hp_next_loop_eq hp_next_notin)
qed

text \<open>After \<^verbatim>\<open>add_parent\<close> the new resource stands directly above the child it was
  given, and removing it restores the hierarchy.\<close>

lemma hierarchy_add_parent_remove:
  assumes "hp_add_parent l p c = Inr l'" and "p \<notin> set l" and "p \<noteq> []" and "l \<noteq> []"
  shows "hp_remove_resource l' p = Inr l \<and> hp_next l' p = Inr (if c = [] then hd l else c)"
proof -
  have p: "p \<noteq> DELIM" using assms(1) by (auto simp: hp_add_parent_def split: if_splits)
  show ?thesis
  proof (cases "c = []")
    case True
    with assms p show ?thesis
      by (cases l) (auto simp: hp_add_parent_def hp_remove_resource_def hp_num_levels_def)
  next
    case False
    then obtain xs ys where l: "l = xs @ c # ys" "c \<notin> set xs"
      using assms(1) by (auto simp: hp_add_parent_def split: if_splits dest: split_list_first)
    then have l': "l' = xs @ p # c # ys"
      using assms(1) False by (auto simp: hp_add_parent_def insert_before_split split: if_splits)
    with l assms p False show ?thesis
      by (auto simp: hp_remove_resource_def hp_num_levels_def hp_next_split remove1_append)
  qed
qed

end
