(* ===== verification/Std_Map.thy ===== *)
theory Std_Map
  imports Prelude
begin

text \<open>
  \<^verbatim>\<open>std::map\<close>: an association list in increasing order of its keys, which is the order in which
  the program iterates over it. \<open>map_find\<close>, \<open>map_set\<close> (\<^verbatim>\<open>m[k] = v\<close>) and \<open>map_erase\<close> are the
  operations; \<open>map_inv\<close> is the order. The locale \<open>dictionary\<close> is the contract the users of a table
  rely on, hashed or ordered, and \<open>ordered_map\<close> adds what an ordered map has: two maps with the same
  lookups are equal, so inserting the entries of a map one after the other rebuilds it. It is
  interpreted here on the association list.
\<close>

type_synonym ('k, 'v) std_map = "('k \<times> 'v) list"

fun map_set :: "'k::linorder \<Rightarrow> 'v \<Rightarrow> ('k, 'v) std_map \<Rightarrow> ('k, 'v) std_map" where
  "map_set k v [] = [(k, v)]"
| "map_set k v ((k', v') # m) =
     (if k < k' then (k, v) # (k', v') # m
      else if k = k' then (k, v) # m
      else (k', v') # map_set k v m)"

definition map_erase :: "'k \<Rightarrow> ('k, 'v) std_map \<Rightarrow> ('k, 'v) std_map" where
  "map_erase k m = filter (\<lambda>e. fst e \<noteq> k) m"

abbreviation map_find :: "('k, 'v) std_map \<Rightarrow> 'k \<Rightarrow> 'v option" where
  "map_find \<equiv> map_of"

definition map_inv :: "('k::linorder, 'v) std_map \<Rightarrow> bool" where
  "map_inv m = sorted_wrt (<) (map fst m)"

text \<open>What the users of a map rely on, and what an ordered map adds: it is determined by what it contains.\<close>

locale dictionary =
  fixes empty :: "'m"
    and find :: "'m \<Rightarrow> 'k \<Rightarrow> 'v option"
    and set_at :: "'k \<Rightarrow> 'v \<Rightarrow> 'm \<Rightarrow> 'm"
    and erase :: "'k \<Rightarrow> 'm \<Rightarrow> 'm"
    and entries :: "'m \<Rightarrow> ('k \<times> 'v) list"
    and inv :: "'m \<Rightarrow> bool"
  assumes inv_empty: "inv empty"
    and inv_set: "inv m \<Longrightarrow> inv (set_at k v m)"
    and inv_erase: "inv m \<Longrightarrow> inv (erase k m)"
    and find_empty: "find empty = Map.empty"
    and find_set: "inv m \<Longrightarrow> find (set_at k v m) = (find m)(k \<mapsto> v)"
    and find_erase: "inv m \<Longrightarrow> find (erase k m) = (find m)(k := None)"
    and find_entries: "inv m \<Longrightarrow> find m = map_of (entries m)"
    and distinct_entries: "inv m \<Longrightarrow> distinct (map fst (entries m))"
begin

lemma inv_foldl: "inv m \<Longrightarrow> inv (foldl (\<lambda>m e. set_at (fst e) (snd e) m) m es)"
  by (induction es arbitrary: m) (auto intro: inv_set)

lemma find_foldl:
  "inv m \<Longrightarrow> find (foldl (\<lambda>m e. set_at (fst e) (snd e) m) m es) = find m ++ map_of (rev es)"
proof (induction es arbitrary: m)
  case (Cons e es)
  then have "find (foldl (\<lambda>m e. set_at (fst e) (snd e) m) (set_at (fst e) (snd e) m) es) =
      (find m)(fst e \<mapsto> snd e) ++ map_of (rev es)"
    by (simp only: Cons.IH [OF inv_set [OF Cons.prems]] find_set [OF Cons.prems])
  then show ?case by (simp add: fun_eq_iff map_add_def split: option.splits)
qed simp

lemma in_entries: "inv m \<Longrightarrow> e \<in> set (entries m) \<longleftrightarrow> find m (fst e) = Some (snd e)"
  by (simp add: find_entries distinct_entries)

end

locale ordered_map = dictionary +
  assumes inv_eqI: "inv m \<Longrightarrow> inv m' \<Longrightarrow> find m = find m' \<Longrightarrow> m = m'"
begin

lemma map_of_rev_distinct: "distinct (map fst es) \<Longrightarrow> map_of (rev es) = map_of es"
  by (simp add: map_of_inject_set rev_map [symmetric])

text \<open>Inserting the entries of a map in order rebuilds it.\<close>

lemma rebuild:
  assumes "inv m"
  shows "foldl (\<lambda>m e. set_at (fst e) (snd e) m) empty (entries m) = m"
proof (rule inv_eqI)
  show "inv (foldl (\<lambda>m e. set_at (fst e) (snd e) m) empty (entries m))"
    by (intro inv_foldl inv_empty)
  show "inv m" by fact
  show "find (foldl (\<lambda>m e. set_at (fst e) (snd e) m) empty (entries m)) = find m"
    using assms
    by (simp add: find_foldl inv_empty find_empty map_of_rev_distinct distinct_entries find_entries)
qed

lemma set_twice: "inv m \<Longrightarrow> set_at k v (set_at k w m) = set_at k v m"
  by (rule inv_eqI) (simp_all add: inv_set find_set)

lemma set_commute: "inv m \<Longrightarrow> k \<noteq> l \<Longrightarrow> set_at k v (set_at l w m) = set_at l w (set_at k v m)"
  by (rule inv_eqI) (auto simp: inv_set find_set fun_eq_iff)

lemma erase_set_new: "inv m \<Longrightarrow> find m k = None \<Longrightarrow> erase k (set_at k v m) = m"
  by (rule inv_eqI) (auto simp: inv_set inv_erase find_set find_erase fun_eq_iff)

lemma set_erase_same: "inv m \<Longrightarrow> find m k = Some v \<Longrightarrow> set_at k v (erase k m) = m"
  by (rule inv_eqI) (auto simp: inv_set inv_erase find_set find_erase fun_eq_iff)

end

section \<open>The association list satisfies the contract\<close>

lemma map_of_map_set: "map_find (map_set k v m) = (map_find m)(k \<mapsto> v)"
  by (induction m) (auto simp: fun_eq_iff)

lemma map_of_map_erase: "map_find (map_erase k m) = (map_find m)(k := None)"
  by (induction m) (auto simp: map_erase_def fun_eq_iff)

lemma fst_map_set: "fst ` set (map_set k v m) = insert k (fst ` set m)"
  by (induction k v m rule: map_set.induct) auto

lemma map_inv_map_set: "map_inv m \<Longrightarrow> map_inv (map_set k v m)"
  unfolding map_inv_def
proof (induction m)
  case (Cons e m)
  then show ?case
    by (cases e) (auto simp: fst_map_set)
qed simp

lemma map_inv_map_erase: "map_inv m \<Longrightarrow> map_inv (map_erase k m)"
  unfolding map_inv_def map_erase_def by (induction m) auto

lemma map_inv_distinct: "map_inv m \<Longrightarrow> distinct (map fst m)"
  unfolding map_inv_def by (simp add: strict_sorted_iff)

lemma map_inv_Cons: "map_inv (e # m) \<longleftrightarrow> map_inv m \<and> (\<forall>e'\<in>set m. fst e < fst e')"
  by (auto simp: map_inv_def)

lemma map_inv_eqI: "map_inv m \<Longrightarrow> map_inv m' \<Longrightarrow> map_find m = map_find m' \<Longrightarrow> m = m'"
proof -
  assume inv: "map_inv m" "map_inv m'" and eq: "map_find m = map_find m'"
  have d: "distinct (map fst m)" "distinct (map fst m')"
    using inv by (simp_all add: map_inv_distinct)
  have "set m = set m'"
    using eq d by (metis map_of_inject_set)
  moreover have "sorted (map fst m)" "sorted (map fst m')"
    using inv by (simp_all add: map_inv_def strict_sorted_imp_sorted)
  ultimately show "m = m'"
    using d by (metis map_sorted_distinct_set_unique distinct_map inj_on_Un_image_eq_iff sup.idem)
qed

interpretation sm: ordered_map "[]" map_find map_set map_erase "\<lambda>m. m" map_inv
  by unfold_locales
    (simp_all add: map_inv_map_set map_inv_map_erase map_of_map_set map_of_map_erase
      map_inv_distinct map_inv_eqI map_inv_def [of "[]"])

lemmas std_map_simps = map_of_map_set map_of_map_erase

end
