(* ===== verification/Children_Parser.thy ===== *)
theory Children_Parser
  imports Std_String Std_Map
begin

text \<open>
  The children of a coordinating resource, \<^verbatim>\<open>lib/core/src/irods_children_parser.cpp\<close>: a
  \<^verbatim>\<open>std::map\<close> from child names to context strings, printed as
  \<^verbatim>\<open>child1{context1};child2{context2}\<close> and parsed back. The parser's loop is modelled on the text
  from \<^verbatim>\<open>current_pos\<close> on.
\<close>

type_synonym children_map = "(string, string) std_map"

fun cp_str_loop :: "children_map \<Rightarrow> bool \<Rightarrow> string \<Rightarrow> string" where
  "cp_str_loop [] first stream = stream"
| "cp_str_loop (e # es) first stream =
     cp_str_loop es False ((if first then stream else stream @ '';'') @ fst e @ ''{'' @ snd e @ ''}'')"

definition cp_str :: "children_map \<Rightarrow> error \<times> string" where
  "cp_str m = (SUCCESS, cp_str_loop m True [])"

definition cp_add_child :: "children_map \<Rightarrow> string \<Rightarrow> string \<Rightarrow> error \<times> children_map" where
  "cp_add_child m child context = (case map_find m child of
      Some _ \<Rightarrow> (ERROR CHILD_EXISTS, m)
    | None \<Rightarrow> (SUCCESS, map_set child context m))"

definition cp_remove_child :: "children_map \<Rightarrow> string \<Rightarrow> error \<times> children_map" where
  "cp_remove_child m child = (case map_find m child of
      None \<Rightarrow> (ERROR CHILD_NOT_FOUND, m)
    | Some _ \<Rightarrow> (SUCCESS, map_erase child m))"

definition cp_first_child :: "children_map \<Rightarrow> error \<times> string" where
  "cp_first_child m = (case m of e # _ \<Rightarrow> (SUCCESS, fst e) | [] \<Rightarrow> (ERROR CHILD_NOT_FOUND, []))"

definition cp_last_child :: "children_map \<Rightarrow> error \<times> string" where
  "cp_last_child m = (if m \<noteq> [] then (SUCCESS, fst (last m)) else (ERROR CHILD_NOT_FOUND, []))"

text \<open>One \<^verbatim>\<open>complete_child\<close>: the name before the first brace and the context between the braces;
  \<open>None\<close> when the closing brace is missing.\<close>

definition cp_parse_child :: "string \<Rightarrow> (string \<times> string) option" where
  "cp_parse_child complete = (case find_pos (\<lambda>c. c = CHR ''{'') complete 0 of
      None \<Rightarrow> Some (complete, [])
    | Some context_start \<Rightarrow>
        (let rest = drop (Suc context_start) complete in
         case find_pos (\<lambda>c. c = CHR ''}'') rest 0 of
           None \<Rightarrow> None
         | Some n \<Rightarrow> Some (take context_start complete, take n rest)))"

function cp_set_loop :: "string \<Rightarrow> children_map \<Rightarrow> error \<times> children_map" where
  "cp_set_loop str m =
     (let end_pos = find_pos (\<lambda>c. c = CHR '';'') str 0;
          complete = (case end_pos of None \<Rightarrow> str | Some n \<Rightarrow> take n str)
      in case cp_parse_child complete of
           None \<Rightarrow> (ERROR CHILD_NOT_FOUND, m)
         | Some (child, context) \<Rightarrow>
             (let m' = map_set child context m in
              case end_pos of
                None \<Rightarrow> (SUCCESS, m')
              | Some n \<Rightarrow> (let rest = drop (Suc n) str in
                  if rest = [] then (SUCCESS, m') else cp_set_loop rest m')))"
  by pat_completeness auto
termination
  by (relation "measure (\<lambda>(str, m). length str)") (auto dest: find_pos_SomeD)

declare cp_set_loop.simps [simp del]

definition cp_set_string :: "string \<Rightarrow> error \<times> children_map" where
  "cp_set_string str = (if str \<noteq> [] then cp_set_loop str [] else (SUCCESS, []))"

section \<open>Printing, parsing and editing\<close>

definition child_text :: "string \<times> string \<Rightarrow> string" where
  "child_text e = fst e @ ''{'' @ snd e @ ''}''"

text \<open>A child the textual form can carry.\<close>

definition child_ok :: "string \<times> string \<Rightarrow> bool" where
  "child_ok e = (CHR '';'' \<notin> set (fst e) \<and> CHR ''{'' \<notin> set (fst e) \<and>
     CHR '';'' \<notin> set (snd e) \<and> CHR ''}'' \<notin> set (snd e))"

lemma cp_str_loop_concat:
  "cp_str_loop m False s = s @ concat (map (\<lambda>e. CHR '';'' # child_text e) m)"
  by (induction m arbitrary: s) (auto simp: child_text_def)

lemma cp_str_joins: "cp_str m = (SUCCESS, joins '';'' (map child_text m))"
  by (cases m) (auto simp: cp_str_def cp_str_loop_concat joins_concat child_text_def [of "(_, _)"] comp_def)

lemma cp_parse_child_text: "child_ok e \<Longrightarrow> cp_parse_child (child_text e) = Some e"
  by (simp add: cp_parse_child_def child_text_def child_ok_def std_string)

lemma child_text_no_sep: "child_ok e \<Longrightarrow> CHR '';'' \<notin> set (child_text e)"
  by (auto simp: child_ok_def child_text_def)

lemma cp_set_loop_one:
  "child_ok e \<Longrightarrow> cp_set_loop (child_text e) m = (SUCCESS, map_set (fst e) (snd e) m)"
  by (subst cp_set_loop.simps)
    (simp add: cp_parse_child_text child_text_no_sep std_string split_beta)

lemma cp_set_loop_more:
  "child_ok e \<Longrightarrow> r \<noteq> [] \<Longrightarrow>
     cp_set_loop (child_text e @ CHR '';'' # r) m = cp_set_loop r (map_set (fst e) (snd e) m)"
  by (subst cp_set_loop.simps)
    (simp add: cp_parse_child_text child_text_no_sep std_string split_beta)

lemma cp_set_loop_joins:
  "es \<noteq> [] \<Longrightarrow> list_all child_ok es \<Longrightarrow>
     cp_set_loop (joins '';'' (map child_text es)) m =
       (SUCCESS, foldl (\<lambda>m e. map_set (fst e) (snd e) m) m es)"
proof (induction es arbitrary: m rule: induct_list012)
  case (2 e)
  then show ?case by (simp add: cp_set_loop_one)
next
  case (3 e e' es)
  have "joins '';'' (map child_text (e' # es)) \<noteq> []"
    by (cases es) (auto simp: child_text_def)
  with 3 show ?case
    using cp_set_loop_more [of e "joins '';'' (map child_text (e' # es))" m]
    by simp
qed simp

text \<open>Parsing the printed form of a children map gives the map back, for child names
  without a semicolon or opening brace and contexts without a semicolon or closing brace.\<close>

lemma children_roundtrip:
  assumes "map_inv m" and "list_all child_ok m"
  shows "cp_set_string (snd (cp_str m)) = (SUCCESS, m)"
proof (cases "m = []")
  case True
  then show ?thesis by (simp add: cp_set_string_def cp_str_def)
next
  case False
  then have "snd (cp_str m) \<noteq> []"
    by (cases m) (auto simp: cp_str_joins joins_concat child_text_def)
  then show ?thesis
    using cp_set_loop_joins [OF False assms(2), of "[]"] sm.rebuild [OF assms(1)]
    by (simp add: cp_set_string_def cp_str_joins)
qed

text \<open>Adding a child that is not there stores its context and keeps every other
  child, removing it again restores the map; adding a present child and removing an absent one fail
  and leave the map unchanged.\<close>

lemma children_add_remove:
  assumes "map_inv m"
  shows "case cp_add_child m c x of (e, m') \<Rightarrow>
     map_inv m' \<and>
     (if c \<in> dom (map_find m) then e = ERROR CHILD_EXISTS \<and> m' = m
      else e = SUCCESS \<and> map_find m' = (map_find m)(c \<mapsto> x) \<and> cp_remove_child m' c = (SUCCESS, m) \<and>
        cp_remove_child m c = (ERROR CHILD_NOT_FOUND, m))"
  using assms
  by (auto simp: cp_add_child_def cp_remove_child_def map_of_map_set map_inv_map_set sm.erase_set_new
      split: option.splits)

end
