(* ===== verification/Kvp_Parser.thy ===== *)
theory Kvp_Parser
  imports Std_String Std_Map
begin

text \<open>
  Key-value strings, \<^verbatim>\<open>lib/core/src/irods_kvp_string_parser.cpp\<close>: the plain and the escaped parser
  and printer of a \<^verbatim>\<open>std::map\<close> of strings. \<^verbatim>\<open>boost::split\<close> and \<^verbatim>\<open>boost::starts_with\<close> are
  parameters (\<open>spl\<close>, with \<open>None\<close> for a thrown \<^verbatim>\<open>boost::bad_function_call\<close>, and \<open>sw\<close>); the locales
  \<open>boost_predicate\<close> and \<open>boost_split\<close> state the documented behaviour the proofs use, and are
  interpreted on \<open>starts_with\<close> and on the splitting of the prelude. The loops of the escaped parser
  and of \<^verbatim>\<open>escape_string\<close> work on the text from position \<^verbatim>\<open>i\<close> on; an empty token would make
  them run forever, so they are partial functions, and that they return is proved.
\<close>

type_synonym kvp_map = "(string, string) std_map"

definition kvp_delimiter :: string where
  "kvp_delimiter = '';''"

definition kvp_association :: string where
  "kvp_association = ''=''"

definition kvp_escape :: string where
  "kvp_escape = [CHR 0x5C]"

section \<open>The plain parser and printer\<close>

definition parse_token_into_kvp ::
  "(string \<Rightarrow> string \<Rightarrow> bool \<Rightarrow> string list option) \<Rightarrow> string \<Rightarrow> kvp_map \<Rightarrow> string \<Rightarrow> error \<times> kvp_map" where
  "parse_token_into_kvp spl token kvp assoc =
     (let token_vec = (case spl token assoc True of None \<Rightarrow> [] | Some v \<Rightarrow> v) in
      case token_vec of
        [k, v] \<Rightarrow> (SUCCESS, map_set k v kvp)
      | _ \<Rightarrow> (ERROR SYS_INVALID_INPUT_PARAM, kvp))"

fun parse_kvp_tokens ::
  "(string \<Rightarrow> string \<Rightarrow> bool \<Rightarrow> string list option) \<Rightarrow> string list \<Rightarrow> kvp_map \<Rightarrow> string \<Rightarrow> error \<times> kvp_map" where
  "parse_kvp_tokens spl [] kvp assoc = (SUCCESS, kvp)"
| "parse_kvp_tokens spl (token # tokens) kvp assoc =
     (if token = [] then parse_kvp_tokens spl tokens kvp assoc
      else case parse_token_into_kvp spl token kvp assoc of
        (ret, kvp') \<Rightarrow> if \<not> ok ret then (ret, kvp') else parse_kvp_tokens spl tokens kvp' assoc)"

abbreviation BAD_FUNCTION_CALL :: int where "BAD_FUNCTION_CALL \<equiv> - 1823000"

definition parse_kvp_string ::
  "(string \<Rightarrow> string \<Rightarrow> bool \<Rightarrow> string list option) \<Rightarrow> string \<Rightarrow> kvp_map \<Rightarrow> string \<Rightarrow> string \<Rightarrow> error \<times> kvp_map" where
  "parse_kvp_string spl str kvp assoc delim = (case spl str delim False of
      None \<Rightarrow> (ERROR BAD_FUNCTION_CALL, kvp)
    | Some tokens \<Rightarrow> parse_kvp_tokens spl tokens kvp assoc)"

fun kvp_string_loop :: "kvp_map \<Rightarrow> bool \<Rightarrow> string \<Rightarrow> string" where
  "kvp_string_loop [] first str = str"
| "kvp_string_loop (e # es) first str =
     kvp_string_loop es False
       ((if first then str else str @ kvp_delimiter) @ fst e @ kvp_association @ snd e)"

definition kvp_string :: "kvp_map \<Rightarrow> string" where
  "kvp_string kvp = kvp_string_loop kvp True []"

section \<open>The escaped parser and printer\<close>

text \<open>The three tokens, and the variables of the loop: the text from position \<^verbatim>\<open>i\<close> on, the key and
  the value read so far, \<^verbatim>\<open>assoc_encountered\<close> and the map.\<close>

record kvp_tokens =
  tk_assoc :: string
  tk_delim :: string
  tk_escape :: string

record kvp_state =
  st_rest :: string
  st_key :: string
  st_value :: string
  st_assoc :: bool
  st_kvp :: kvp_map

definition push_char :: "char \<Rightarrow> kvp_state \<Rightarrow> kvp_state" where
  "push_char c s = (if st_assoc s then s\<lparr>st_value := st_value s @ [c]\<rparr> else s\<lparr>st_key := st_key s @ [c]\<rparr>)"

text \<open>The loop of \<^verbatim>\<open>parse_escaped_kvp_string\<close> and the code after it. The result \<open>None\<close> means that
  it does not return.\<close>

partial_function (option) escaped_loop ::
  "(string \<Rightarrow> string \<Rightarrow> bool) \<Rightarrow> kvp_tokens \<Rightarrow> kvp_state \<Rightarrow> (error \<times> kvp_map) option" where
  "escaped_loop sw t s =
     (if st_rest s = [] then
        (if st_key s \<noteq> [] \<and> \<not> st_assoc s then Some (ERROR SYS_BAD_INPUT, st_kvp s)
         else if st_assoc s then Some (SUCCESS, map_set (st_key s) (st_value s) (st_kvp s))
         else Some (SUCCESS, st_kvp s))
      else if sw (st_rest s) (tk_escape t) then
        (if drop (length (tk_escape t)) (st_rest s) = [] then Some (ERROR SYS_BAD_INPUT, st_kvp s)
         else escaped_loop sw t
           ((push_char (hd (drop (length (tk_escape t)) (st_rest s))) s)
              \<lparr>st_rest := tl (drop (length (tk_escape t)) (st_rest s))\<rparr>))
      else if sw (st_rest s) (tk_assoc t) then
        (if st_assoc s then Some (ERROR SYS_BAD_INPUT, st_kvp s)
         else escaped_loop sw t (s\<lparr>st_assoc := True, st_rest := drop (length (tk_assoc t)) (st_rest s)\<rparr>))
      else if sw (st_rest s) (tk_delim t) then
        (if \<not> st_assoc s then Some (ERROR SYS_BAD_INPUT, st_kvp s)
         else escaped_loop sw t
           (s\<lparr>st_kvp := map_set (st_key s) (st_value s) (st_kvp s), st_assoc := False, st_key := [],
              st_value := [], st_rest := drop (length (tk_delim t)) (st_rest s)\<rparr>))
      else escaped_loop sw t ((push_char (hd (st_rest s)) s)\<lparr>st_rest := tl (st_rest s)\<rparr>))"

definition parse_escaped_kvp_string ::
  "(string \<Rightarrow> string \<Rightarrow> bool) \<Rightarrow> string \<Rightarrow> kvp_map \<Rightarrow> string \<Rightarrow> string \<Rightarrow> string \<Rightarrow> (error \<times> kvp_map) option" where
  "parse_escaped_kvp_string sw str kvp assoc delim esc =
     (if delim = [] \<or> assoc = [] \<or> esc = [] then Some (ERROR SYS_BAD_INPUT, kvp)
      else if delim = esc \<or> delim = assoc \<or> assoc = esc \<or> sw assoc delim \<or> sw delim assoc
        then Some (ERROR SYS_BAD_INPUT, kvp)
      else if contains_str assoc delim \<or> contains_str assoc esc \<or> contains_str delim assoc \<or>
          contains_str delim esc \<or> contains_str esc assoc \<or> contains_str esc delim
        then Some (ERROR SYS_BAD_INPUT, kvp)
      else escaped_loop sw \<lparr>tk_assoc = assoc, tk_delim = delim, tk_escape = esc\<rparr>
        \<lparr>st_rest = str, st_key = [], st_value = [], st_assoc = False, st_kvp = kvp\<rparr>)"

text \<open>\<^verbatim>\<open>escape_string\<close>; the set of special tokens as the list of its elements in increasing order.\<close>

partial_function (option) escape_loop ::
  "(string \<Rightarrow> string \<Rightarrow> bool) \<Rightarrow> string \<Rightarrow> string list \<Rightarrow> string \<Rightarrow> string \<Rightarrow> string option" where
  "escape_loop sw esc special str out =
     (if str = [] then Some out
      else case List.find (\<lambda>tok. sw str tok) special of
        Some tok \<Rightarrow> escape_loop sw esc special (drop (length tok) str) (out @ esc @ tok)
      | None \<Rightarrow>
          (if esc \<notin> set special \<and> sw str esc
           then escape_loop sw esc special (drop (length esc) str) (out @ esc @ esc)
           else escape_loop sw esc special (tl str) (out @ [hd str])))"

definition escape_string :: "(string \<Rightarrow> string \<Rightarrow> bool) \<Rightarrow> string \<Rightarrow> string \<Rightarrow> string list \<Rightarrow> string option" where
  "escape_string sw str esc special = escape_loop sw esc special str []"

fun escaped_kvp_loop :: "(string \<Rightarrow> string \<Rightarrow> bool) \<Rightarrow> string list \<Rightarrow> kvp_map \<Rightarrow> bool \<Rightarrow> string \<Rightarrow> string option" where
  "escaped_kvp_loop sw special [] first str = Some str"
| "escaped_kvp_loop sw special (e # es) first str =
     (case escape_string sw (fst e) kvp_escape special of
        None \<Rightarrow> None
      | Some k \<Rightarrow>
          (case escape_string sw (snd e) kvp_escape special of
             None \<Rightarrow> None
           | Some v \<Rightarrow> escaped_kvp_loop sw special es False
               ((if first then str else str @ kvp_delimiter) @ k @ kvp_association @ v)))"

definition escaped_kvp_string :: "(string \<Rightarrow> string \<Rightarrow> bool) \<Rightarrow> kvp_map \<Rightarrow> string option" where
  "escaped_kvp_string sw kvp =
     escaped_kvp_loop sw (sort [kvp_delimiter, kvp_association]) kvp True []"

section \<open>What is assumed of boost\<close>

locale boost_predicate =
  fixes sw :: "string \<Rightarrow> string \<Rightarrow> bool"
  assumes sw_iff: "sw s p \<longleftrightarrow> (\<exists>r. s = p @ r)"

locale boost_split =
  fixes spl :: "string \<Rightarrow> string \<Rightarrow> bool \<Rightarrow> string list option"
  assumes spl_each: "spl s [c] False = Some (splits c s)"
    and spl_compress_one: "c \<notin> set x \<Longrightarrow> c \<notin> set y \<Longrightarrow> spl (x @ c # y) [c] True = Some [x, y]"

interpretation bp: boost_predicate starts_with
  by unfold_locales (simp add: starts_with_iff)

text \<open>A splitter with both modes: in the compressing one adjacent separators count as one.\<close>

fun squeeze :: "char \<Rightarrow> string \<Rightarrow> string" where
  "squeeze c (x # y # r) = (if x = c \<and> y = c then squeeze c (y # r) else x # squeeze c (y # r))"
| "squeeze c s = s"

definition split_model :: "string \<Rightarrow> string \<Rightarrow> bool \<Rightarrow> string list option" where
  "split_model s d compress = (case d of
      [c] \<Rightarrow> Some (splits c (if compress then squeeze c s else s))
    | _ \<Rightarrow> None)"

lemma squeeze_no_sep: "c \<notin> set y \<Longrightarrow> squeeze c y = y"
  by (induction c y rule: squeeze.induct) auto

lemma squeeze_one: "c \<notin> set x \<Longrightarrow> c \<notin> set y \<Longrightarrow> squeeze c (x @ c # y) = x @ c # y"
proof (induction x)
  case Nil
  then show ?case by (cases y) (auto simp: squeeze_no_sep)
next
  case (Cons a x)
  then show ?case by (cases x) auto
qed

interpretation bspl: boost_split split_model
  by unfold_locales
    (simp_all add: split_model_def squeeze_one splits_append_sep splits_no_occ)

section \<open>The plain round trip\<close>

definition plain_text :: "string \<Rightarrow> bool" where
  "plain_text x = (CHR '';'' \<notin> set x \<and> CHR ''='' \<notin> set x)"

definition kvp_text :: "string \<times> string \<Rightarrow> string" where
  "kvp_text e = fst e @ ''='' @ snd e"

lemmas kvp_consts = kvp_delimiter_def kvp_association_def kvp_escape_def

lemma kvp_string_loop_concat:
  "kvp_string_loop m False s = s @ concat (map (\<lambda>e. CHR '';'' # kvp_text e) m)"
  by (induction m arbitrary: s) (auto simp: kvp_text_def kvp_consts)

lemma kvp_string_joins: "kvp_string m = joins '';'' (map kvp_text m)"
  by (cases m) (auto simp: kvp_string_def kvp_string_loop_concat joins_concat kvp_text_def [of "(_, _)"]
      kvp_consts comp_def)

context boost_split
begin

lemma parse_kvp_tokens_texts:
  "list_all (\<lambda>e. plain_text (fst e) \<and> plain_text (snd e)) es \<Longrightarrow>
     parse_kvp_tokens spl (map kvp_text es) m ''='' = (SUCCESS, foldl (\<lambda>m e. map_set (fst e) (snd e) m) m es)"
proof (induction es arbitrary: m)
  case (Cons e es)
  then have "spl (kvp_text e) ''='' True = Some [fst e, snd e]"
    by (simp add: kvp_text_def plain_text_def spl_compress_one)
  with Cons show ?case
    by (simp add: parse_token_into_kvp_def kvp_text_def)
qed simp

lemma parse_kvp_string_kvp_string:
  assumes "map_inv m" and "list_all (\<lambda>e. plain_text (fst e) \<and> plain_text (snd e)) m"
  shows "parse_kvp_string spl (kvp_string m) [] kvp_association kvp_delimiter = (SUCCESS, m)"
proof (cases "m = []")
  case True
  then show ?thesis
    by (simp add: parse_kvp_string_def kvp_string_def kvp_consts spl_each)
next
  case False
  have "splits (CHR '';'') (joins '';'' (map kvp_text m)) = map kvp_text m"
    using False assms(2) by (intro splits_joins) (auto simp: list_all_iff kvp_text_def plain_text_def)
  then show ?thesis
    using parse_kvp_tokens_texts [OF assms(2), of "[]"] sm.rebuild [OF assms(1)]
    by (simp add: parse_kvp_string_def kvp_string_joins kvp_consts spl_each)
qed

end

section \<open>The escaped round trip\<close>

definition special_char :: "char \<Rightarrow> bool" where
  "special_char c = (c = CHR '';'' \<or> c = CHR ''='' \<or> c = CHR 0x5C)"

definition esc_chars :: "string \<Rightarrow> string" where
  "esc_chars x = concat (map (\<lambda>c. if special_char c then [CHR 0x5C, c] else [c]) x)"

definition default_tokens :: kvp_tokens where
  "default_tokens = \<lparr>tk_assoc = kvp_association, tk_delim = kvp_delimiter, tk_escape = kvp_escape\<rparr>"

definition esc_text :: "string \<times> string \<Rightarrow> string" where
  "esc_text e = esc_chars (fst e) @ ''='' @ esc_chars (snd e)"

lemma default_tokens_simps [simp]:
  "tk_assoc default_tokens = ''=''" "tk_delim default_tokens = '';''" "tk_escape default_tokens = [CHR 0x5C]"
  by (simp_all add: default_tokens_def kvp_consts)

lemma push_char_rest [simp]: "st_rest (push_char c s) = st_rest s" "st_assoc (push_char c s) = st_assoc s"
  by (simp_all add: push_char_def)

context boost_predicate
begin

lemma sw_single [simp]: "sw s [c] \<longleftrightarrow> (\<exists>r. s = c # r)"
  by (simp add: sw_iff)

lemma loop_Nil: "st_rest s = [] \<Longrightarrow> escaped_loop sw default_tokens s =
    (if st_assoc s then Some (SUCCESS, map_set (st_key s) (st_value s) (st_kvp s))
     else if st_key s \<noteq> [] then Some (ERROR SYS_BAD_INPUT, st_kvp s) else Some (SUCCESS, st_kvp s))"
  by (subst escaped_loop.simps) simp

lemma loop_esc_char: "st_rest s = CHR 0x5C # c # r \<Longrightarrow>
    escaped_loop sw default_tokens s = escaped_loop sw default_tokens ((push_char c s)\<lparr>st_rest := r\<rparr>)"
  by (subst escaped_loop.simps) simp

lemma loop_plain_char: "st_rest s = c # r \<Longrightarrow> \<not> special_char c \<Longrightarrow>
    escaped_loop sw default_tokens s = escaped_loop sw default_tokens ((push_char c s)\<lparr>st_rest := r\<rparr>)"
  by (subst escaped_loop.simps) (simp add: special_char_def)

lemma loop_assoc: "st_rest s = CHR ''='' # r \<Longrightarrow> \<not> st_assoc s \<Longrightarrow>
    escaped_loop sw default_tokens s = escaped_loop sw default_tokens (s\<lparr>st_assoc := True, st_rest := r\<rparr>)"
  by (subst escaped_loop.simps) simp

lemma loop_delim: "st_rest s = CHR '';'' # r \<Longrightarrow> st_assoc s \<Longrightarrow>
    escaped_loop sw default_tokens s = escaped_loop sw default_tokens
      (s\<lparr>st_kvp := map_set (st_key s) (st_value s) (st_kvp s), st_assoc := False, st_key := [],
         st_value := [], st_rest := r\<rparr>)"
  by (subst escaped_loop.simps) simp

lemma loop_chars:
  "st_rest s = esc_chars x @ r \<Longrightarrow> escaped_loop sw default_tokens s = escaped_loop sw default_tokens
     (if st_assoc s then s\<lparr>st_value := st_value s @ x, st_rest := r\<rparr>
      else s\<lparr>st_key := st_key s @ x, st_rest := r\<rparr>)"
proof (induction x arbitrary: s)
  case Nil
  then show ?case by (cases s) (simp add: esc_chars_def)
next
  case (Cons c x)
  let ?s = "(push_char c s)\<lparr>st_rest := esc_chars x @ r\<rparr>"
  have "escaped_loop sw default_tokens s = escaped_loop sw default_tokens ?s"
    using Cons.prems loop_esc_char [of s c "esc_chars x @ r"] loop_plain_char [of s c "esc_chars x @ r"]
    by (cases "special_char c") (simp_all add: esc_chars_def)
  also have "\<dots> = escaped_loop sw default_tokens
     (if st_assoc s then s\<lparr>st_value := st_value s @ c # x, st_rest := r\<rparr>
      else s\<lparr>st_key := st_key s @ c # x, st_rest := r\<rparr>)"
    using Cons.IH [of ?s] by (simp add: push_char_def)
  finally show ?case .
qed

text \<open>One printed entry, read from a state between entries.\<close>

lemma loop_entry:
  "escaped_loop sw default_tokens
     \<lparr>st_rest = esc_text e @ r, st_key = [], st_value = [], st_assoc = False, st_kvp = m\<rparr> =
   escaped_loop sw default_tokens
     \<lparr>st_rest = r, st_key = fst e, st_value = snd e, st_assoc = True, st_kvp = m\<rparr>"
proof -
  let ?s = "\<lambda>rest k v a. \<lparr>st_rest = rest, st_key = k, st_value = v, st_assoc = a, st_kvp = m\<rparr>"
  have "escaped_loop sw default_tokens (?s (esc_text e @ r) [] [] False) =
      escaped_loop sw default_tokens (?s (CHR ''='' # esc_chars (snd e) @ r) (fst e) [] False)"
    using loop_chars [of "?s (esc_text e @ r) [] [] False" "fst e" "CHR ''='' # esc_chars (snd e) @ r"]
    by (simp add: esc_text_def)
  also have "\<dots> = escaped_loop sw default_tokens (?s (esc_chars (snd e) @ r) (fst e) [] True)"
    using loop_assoc [of "?s (CHR ''='' # esc_chars (snd e) @ r) (fst e) [] False"] by simp
  also have "\<dots> = escaped_loop sw default_tokens (?s r (fst e) (snd e) True)"
    using loop_chars [of "?s (esc_chars (snd e) @ r) (fst e) [] True" "snd e" r] by simp
  finally show ?thesis .
qed

lemma loop_entries:
  "es \<noteq> [] \<Longrightarrow> escaped_loop sw default_tokens
     \<lparr>st_rest = joins '';'' (map esc_text es), st_key = [], st_value = [], st_assoc = False, st_kvp = m\<rparr> =
   Some (SUCCESS, foldl (\<lambda>m e. map_set (fst e) (snd e) m) m es)"
proof (induction es arbitrary: m rule: induct_list012)
  case (2 e)
  then show ?case using loop_entry [of e "[]" m] by (simp add: loop_Nil)
next
  case (3 e e' es)
  then show ?case
    using loop_entry [of e "CHR '';'' # joins '';'' (map esc_text (e' # es))" m]
    by (simp add: loop_delim)
qed simp

lemma escape_loop_chars:
  "escape_loop sw [CHR 0x5C] ['';'', ''=''] x out = Some (out @ esc_chars x)"
proof (induction x arbitrary: out)
  case Nil
  then show ?case by (subst escape_loop.simps) (simp add: esc_chars_def)
next
  case (Cons c x)
  then show ?case
    by (subst escape_loop.simps) (auto simp: esc_chars_def special_char_def)
qed

lemma escaped_kvp_loop_concat:
  "escaped_kvp_loop sw ['';'', ''=''] m False s = Some (s @ concat (map (\<lambda>e. CHR '';'' # esc_text e) m))"
  by (induction m arbitrary: s)
    (auto simp: escape_string_def escape_loop_chars esc_text_def kvp_consts)

lemma escaped_kvp_string_joins: "escaped_kvp_string sw m = Some (joins '';'' (map esc_text m))"
proof -
  have "sort [kvp_delimiter, kvp_association] = ['';'', ''='']" by (simp add: kvp_consts)
  then show ?thesis
    by (cases m) (auto simp: escaped_kvp_string_def escape_string_def escape_loop_chars
        escaped_kvp_loop_concat joins_concat esc_text_def [of "(_, _)"] kvp_consts comp_def)
qed

lemma escaped_roundtrip:
  assumes "map_inv m"
  shows "\<exists>s. escaped_kvp_string sw m = Some s \<and>
     parse_escaped_kvp_string sw s [] kvp_association kvp_delimiter kvp_escape = Some (SUCCESS, m)"
proof (cases "m = []")
  case True
  then show ?thesis
    using loop_Nil [of "\<lparr>st_rest = [], st_key = [], st_value = [], st_assoc = False, st_kvp = []\<rparr>"]
    by (simp add: escaped_kvp_string_joins parse_escaped_kvp_string_def default_tokens_def kvp_consts)
next
  case False
  have "escaped_loop sw default_tokens \<lparr>st_rest = joins '';'' (map esc_text m), st_key = [], st_value = [],
      st_assoc = False, st_kvp = []\<rparr> = Some (SUCCESS, m)"
    using loop_entries [OF False, of "[]"] sm.rebuild [OF assms] by simp
  then show ?thesis
    by (simp add: escaped_kvp_string_joins parse_escaped_kvp_string_def default_tokens_def kvp_consts)
qed

text \<open>With non-empty tokens every iteration consumes text, so the loop ends.\<close>

lemma escaped_loop_returns:
  assumes "tk_assoc t \<noteq> []" and "tk_delim t \<noteq> []"
  shows "\<exists>e m. escaped_loop sw t s = Some (e, m)"
proof (induction "length (st_rest s)" arbitrary: s rule: less_induct)
  case less
  have shorter: "\<exists>e m. escaped_loop sw t s' = Some (e, m)" if "length (st_rest s') < length (st_rest s)" for s'
    by (rule less.hyps [OF that])
  show ?case
    using assms
    by (subst escaped_loop.simps) (simp add: shorter)
qed

end

text \<open>The plain printer and parser are inverse on maps whose keys and values contain
  neither the delimiter nor the association character.\<close>

lemma kvp_plain_roundtrip:
  assumes "boost_split spl" and "map_inv m"
    and "list_all (\<lambda>e. plain_text (fst e) \<and> plain_text (snd e)) m"
  shows "parse_kvp_string spl (kvp_string m) [] kvp_association kvp_delimiter = (SUCCESS, m)"
  using boost_split.parse_kvp_string_kvp_string [OF assms] .

text \<open>C19 (roundtrip). The escaped printer returns a string for every map, whatever its keys and values
  contain, and the escaped parser reads the same map back from it.\<close>

theorem kvp_escaped_roundtrip:
  assumes "boost_predicate sw" and "map_inv m"
  shows "\<exists>s. escaped_kvp_string sw m = Some s \<and>
     parse_escaped_kvp_string sw s [] kvp_association kvp_delimiter kvp_escape = Some (SUCCESS, m)"
  using boost_predicate.escaped_roundtrip [OF assms] .

theorem kvp_escaped_roundtrip_witness:
  "\<exists>s. escaped_kvp_string starts_with [(''a=b'', '';''), (''c'', '''')] = Some s \<and>
     parse_escaped_kvp_string starts_with s [] kvp_association kvp_delimiter kvp_escape =
       Some (SUCCESS, [(''a=b'', '';''), (''c'', '''')])"
  by (rule kvp_escaped_roundtrip [OF bp.boost_predicate_axioms]) (simp add: map_inv_def)

text \<open>C20 (termination). The escaped parser returns on every input and every choice of tokens: the
  checks before the loop exclude the tokens with which it would not advance.\<close>

theorem kvp_escaped_parser_returns:
  assumes "boost_predicate sw"
  shows "\<exists>e m. parse_escaped_kvp_string sw str kvp assoc delim esc = Some (e, m)"
  using boost_predicate.escaped_loop_returns [OF assms,
      of "\<lparr>tk_assoc = assoc, tk_delim = delim, tk_escape = esc\<rparr>"
         "\<lparr>st_rest = str, st_key = [], st_value = [], st_assoc = False, st_kvp = kvp\<rparr>"]
  by (simp add: parse_escaped_kvp_string_def)

theorem kvp_escaped_parser_returns_witness:
  "\<exists>e m. parse_escaped_kvp_string starts_with ''a=b;;'' [] ''='' '';'' ''^'' = Some (e, m)"
  by (rule kvp_escaped_parser_returns [OF bp.boost_predicate_axioms])

end
