(* ===== verification/Replica_Access_Table.thy ===== *)
theory Replica_Access_Table
  imports Std_Map "HOL-Library.Word" "HOL-Library.Multiset"
begin

text \<open>
  The replica access table, \<^verbatim>\<open>server/core/src/replica_access_table.cpp\<close>: a shared map from replica
  tokens to the replica they open and the agents (process ids) that hold it. Every operation of the
  source runs under \<^verbatim>\<open>g_mutex\<close>, so an execution is a sequence of these operations. The random UUID
  generator is a parameter: \<open>gen i\<close> is the \<open>i\<close>-th identifier it produces.
\<close>

type_synonym data_id_type = "64 word"
type_synonym replica_number_type = "32 word"
type_synonym pid = int
type_synonym replica_token = string

record access_entry =
  data_id :: data_id_type
  replica_number :: replica_number_type
  agent_pids :: "pid list"

type_synonym access_map = "(replica_token, access_entry) std_map"

record restorable_entry =
  re_token :: replica_token
  re_data_id :: data_id_type
  re_replica_number :: replica_number_type
  re_pid :: pid

section \<open>Creation and destruction of the table\<close>

text \<open>\<open>g_map = None\<close> is the null pointer; \<open>pid\<close> is the result of \<^verbatim>\<open>getpid()\<close>.\<close>

record rat_globals =
  g_owner_pid :: pid
  g_map :: "access_map option"

definition rat_init :: "pid \<Rightarrow> rat_globals \<Rightarrow> rat_globals" where
  "rat_init pid g = (if pid = g_owner_pid g then g else g\<lparr>g_owner_pid := pid, g_map := Some []\<rparr>)"

definition rat_deinit :: "pid \<Rightarrow> rat_globals \<Rightarrow> rat_globals" where
  "rat_deinit pid g = (if pid \<noteq> g_owner_pid g then g else g\<lparr>g_owner_pid := 0, g_map := None\<rparr>)"

section \<open>Operations\<close>

partial_function (option) generate_replica_token :: "(nat \<Rightarrow> string) \<Rightarrow> nat \<Rightarrow> access_map \<Rightarrow> replica_token option" where
  "generate_replica_token gen i m =
     (if map_find m (gen i) \<noteq> None then generate_replica_token gen (Suc i) m else Some (gen i))"

definition matches :: "data_id_type \<Rightarrow> replica_number_type \<Rightarrow> access_entry \<Rightarrow> bool" where
  "matches d r v = (data_id v = d \<and> replica_number v = r)"

text \<open>\<open>None\<close>: the search for an unused token does not end.\<close>

definition create_new_entry ::
  "(nat \<Rightarrow> string) \<Rightarrow> data_id_type \<Rightarrow> replica_number_type \<Rightarrow> pid \<Rightarrow> access_map
     \<Rightarrow> (replica_token \<times> access_map) throws option" where
  "create_new_entry gen d r p m =
     (if list_ex (\<lambda>e. matches d r (snd e)) m then Some (Inl std_exception)
      else map_option
        (\<lambda>uuid. Inr (uuid, map_set uuid \<lparr>data_id = d, replica_number = r, agent_pids = [p]\<rparr> m))
        (generate_replica_token gen 0 m))"

definition append_pid ::
  "replica_token \<Rightarrow> data_id_type \<Rightarrow> replica_number_type \<Rightarrow> pid \<Rightarrow> access_map \<Rightarrow> access_map throws" where
  "append_pid token d r p m = (case map_find m token of
      None \<Rightarrow> Inl std_exception
    | Some v \<Rightarrow>
        if data_id v \<noteq> d \<or> replica_number v \<noteq> r then Inl std_exception
        else Inr (map_set token (v\<lparr>agent_pids := agent_pids v @ [p]\<rparr>) m))"

definition rat_contains :: "data_id_type \<Rightarrow> replica_number_type \<Rightarrow> access_map \<Rightarrow> bool" where
  "rat_contains d r m = list_ex (\<lambda>e. matches d r (snd e)) m"

definition rat_contains_token ::
  "replica_token \<Rightarrow> data_id_type \<Rightarrow> replica_number_type \<Rightarrow> access_map \<Rightarrow> bool" where
  "rat_contains_token token d r m = (case map_find m token of
      Some v \<Rightarrow> data_id v = d \<and> replica_number v = r
    | None \<Rightarrow> False)"

definition erase_pid_token :: "replica_token \<Rightarrow> pid \<Rightarrow> access_map \<Rightarrow> restorable_entry option \<times> access_map" where
  "erase_pid_token token p m = (case map_find m token of
      None \<Rightarrow> (None, m)
    | Some v \<Rightarrow>
        if p \<in> set (agent_pids v) then
          (let entry = \<lparr>re_token = token, re_data_id = data_id v,
                 re_replica_number = replica_number v, re_pid = p\<rparr>;
               pids = remove1 p (agent_pids v)
           in (Some entry, if pids = [] then map_erase token m
                           else map_set token (v\<lparr>agent_pids := pids\<rparr>) m))
        else (None, m))"

text \<open>\<^verbatim>\<open>erase_pid(pid_t)\<close>: the process id is removed from every entry, then the entries whose list is
  empty are erased.\<close>

definition erase_pid :: "pid \<Rightarrow> access_map \<Rightarrow> access_map" where
  "erase_pid p m =
     (let m' = map (\<lambda>(k, v). (k, v\<lparr>agent_pids := filter (\<lambda>q. q \<noteq> p) (agent_pids v)\<rparr>)) m;
          keys_to_remove = map fst (filter (\<lambda>e. agent_pids (snd e) = []) m')
      in fold map_erase keys_to_remove m')"

definition restore :: "restorable_entry \<Rightarrow> access_map \<Rightarrow> access_map throws" where
  "restore entry m = (case map_find m (re_token entry) of
      Some v \<Rightarrow>
        if data_id v \<noteq> re_data_id entry \<or> replica_number v \<noteq> re_replica_number entry
        then Inl std_exception
        else Inr (map_set (re_token entry) (v\<lparr>agent_pids := agent_pids v @ [re_pid entry]\<rparr>) m)
    | None \<Rightarrow> Inr (map_set (re_token entry)
        \<lparr>data_id = re_data_id entry, replica_number = re_replica_number entry, agent_pids = [re_pid entry]\<rparr> m))"

section \<open>Executions\<close>

text \<open>One call on the table by one agent; a call that throws leaves the table as it is.\<close>

datatype rat_op =
    Create data_id_type replica_number_type pid
  | Append replica_token data_id_type replica_number_type pid
  | Erase replica_token pid
  | Erase_All pid
  | Restore restorable_entry

fun op_pid :: "rat_op \<Rightarrow> pid" where
  "op_pid (Create d r p) = p"
| "op_pid (Append t d r p) = p"
| "op_pid (Erase t p) = p"
| "op_pid (Erase_All p) = p"
| "op_pid (Restore e) = re_pid e"

inductive rat_step :: "access_map \<Rightarrow> rat_op \<Rightarrow> access_map \<Rightarrow> bool" where
  create: "create_new_entry gen d r p m = Some (Inr (t, m')) \<Longrightarrow> rat_step m (Create d r p) m'"
| append: "append_pid t d r p m = Inr m' \<Longrightarrow> rat_step m (Append t d r p) m'"
| erase: "erase_pid_token t p m = (e, m') \<Longrightarrow> rat_step m (Erase t p) m'"
| erase_all: "rat_step m (Erase_All p) (erase_pid p m)"
| restore: "restore e m = Inr m' \<Longrightarrow> rat_step m (Restore e) m'"

inductive_simps rat_step_Create: "rat_step m (Create d r p) m'"
inductive_simps rat_step_Append: "rat_step m (Append t d r p) m'"
inductive_simps rat_step_Erase: "rat_step m (Erase t p) m'"
inductive_simps rat_step_Erase_All: "rat_step m (Erase_All p) m'"
inductive_simps rat_step_Restore: "rat_step m (Restore e) m'"

lemmas rat_step_simps = rat_step_Create rat_step_Append rat_step_Erase rat_step_Erase_All rat_step_Restore

section \<open>Invariants\<close>

text \<open>The map is ordered and no entry is without an agent.\<close>

definition rat_inv :: "access_map \<Rightarrow> bool" where
  "rat_inv m = (map_inv m \<and> (\<forall>t v. map_find m t = Some v \<longrightarrow> agent_pids v \<noteq> []))"

text \<open>A replica has at most one token.\<close>

definition one_token :: "access_map \<Rightarrow> bool" where
  "one_token m = (\<forall>t t' v v'. map_find m t = Some v \<longrightarrow> map_find m t' = Some v' \<longrightarrow>
     data_id v = data_id v' \<longrightarrow> replica_number v = replica_number v' \<longrightarrow> t = t')"

lemma rat_inv_map_inv [simp]: "rat_inv m \<Longrightarrow> map_inv m"
  by (simp add: rat_inv_def)

text \<open>The pointwise effect of \<open>erase_pid\<close>.\<close>

lemma map_of_map_snd: "map_of (map (\<lambda>(k, v). (k, f v)) m) k = map_option f (map_of m k)"
  by (induction m) auto

lemma map_find_fold_erase:
  "map_find (fold map_erase ks m) t = (if t \<in> set ks then None else map_find m t)"
  by (induction ks arbitrary: m) (auto simp: map_of_map_erase)

lemma map_inv_fold_erase: "map_inv m \<Longrightarrow> map_inv (fold map_erase ks m)"
  by (induction ks arbitrary: m) (auto simp: map_inv_map_erase)

lemma map_inv_map_snd: "map_inv (map (\<lambda>(k, v). (k, f v)) m) = map_inv m"
proof -
  have "map fst (map (\<lambda>(k, v). (k, f v)) m) = map fst m" by (induction m) auto
  then show ?thesis by (simp only: map_inv_def)
qed

definition strip_pid :: "pid \<Rightarrow> access_entry \<Rightarrow> access_entry" where
  "strip_pid p v = v\<lparr>agent_pids := filter (\<lambda>q. q \<noteq> p) (agent_pids v)\<rparr>"

lemma erase_pid_find:
  assumes "map_inv m"
  shows "map_find (erase_pid p m) t = (case map_find m t of None \<Rightarrow> None
     | Some v \<Rightarrow> if list_all (\<lambda>q. q = p) (agent_pids v) then None else Some (strip_pid p v))"
proof -
  let ?m = "map (\<lambda>(k, v). (k, strip_pid p v)) m"
  have "distinct (map fst ?m)"
    by (rule map_inv_distinct) (simp only: map_inv_map_snd assms)
  then have key: "t \<in> fst ` set (filter (\<lambda>e. agent_pids (snd e) = []) ?m) \<longleftrightarrow>
      (\<exists>v. map_find ?m t = Some v \<and> agent_pids v = [])"
    by (force simp: image_iff dest: map_of_SomeD)
  have "erase_pid p m = fold map_erase (map fst (filter (\<lambda>e. agent_pids (snd e) = []) ?m)) ?m"
    by (simp add: erase_pid_def strip_pid_def Let_def)
  then show ?thesis
    using key
    by (auto simp: map_find_fold_erase map_of_map_snd strip_pid_def filter_empty_conv list_all_iff
        split: option.splits)
qed

lemma map_inv_erase_pid: "map_inv m \<Longrightarrow> map_inv (erase_pid p m)"
  by (simp add: erase_pid_def Let_def map_inv_fold_erase map_inv_map_snd)

section \<open>Tokens\<close>

lemma generate_replica_token_fresh:
  "generate_replica_token gen i m = Some t \<Longrightarrow> map_find m t = None"
  by (rule generate_replica_token.raw_induct
      [where P = "\<lambda>gen i m t. map_find m t = None"]) (auto split: if_splits)

lemma generate_replica_token_total:
  "map_find m (gen (i + n)) = None \<Longrightarrow> \<exists>j \<le> n. generate_replica_token gen i m = Some (gen (i + j))"
proof (induction n arbitrary: i)
  case 0 then show ?case by (simp add: generate_replica_token.simps)
next
  case (Suc n)
  show ?case
  proof (cases "map_find m (gen i)")
    case None
    then have "generate_replica_token gen i m = Some (gen (i + 0))"
      by (simp add: generate_replica_token.simps)
    then show ?thesis by blast
  next
    case (Some v)
    from Suc.IH [of "Suc i"] Suc.prems obtain j
      where "j \<le> n" "generate_replica_token gen (Suc i) m = Some (gen (Suc i + j))" by auto
    with Some have "generate_replica_token gen i m = Some (gen (i + Suc j))"
      by (simp add: generate_replica_token.simps [of gen i])
    with \<open>j \<le> n\<close> show ?thesis by (meson Suc_le_mono)
  qed
qed

lemma list_ex_matches:
  assumes "map_inv m"
  shows "list_ex (\<lambda>e. matches d r (snd e)) m \<longleftrightarrow> (\<exists>t. rat_contains_token t d r m)"
proof -
  have "(\<exists>t. rat_contains_token t d r m) \<longleftrightarrow> (\<exists>t v. map_find m t = Some v \<and> matches d r v)"
    by (auto simp: rat_contains_token_def matches_def split: option.splits)
  also have "\<dots> \<longleftrightarrow> (\<exists>t v. (t, v) \<in> set m \<and> matches d r v)"
    using map_inv_distinct [OF assms] by (simp add: map_of_eq_Some_iff)
  also have "\<dots> \<longleftrightarrow> list_ex (\<lambda>e. matches d r (snd e)) m"
    unfolding list_ex_iff by force
  finally show ?thesis by simp
qed

lemma contains_token_unique:
  "rat_contains_token t d r m \<Longrightarrow> rat_contains_token t d' r' m \<Longrightarrow> d = d' \<and> r = r'"
  by (auto simp: rat_contains_token_def split: option.splits)

lemma one_token_contains:
  "one_token m \<longleftrightarrow> (\<forall>t t' d r. rat_contains_token t d r m \<longrightarrow> rat_contains_token t' d r m \<longrightarrow> t = t')"
  unfolding one_token_def rat_contains_token_def by (auto split: option.splits)

section \<open>The effect of one operation\<close>

text \<open>The agents holding a token; a token without an entry has none.\<close>

definition holders :: "replica_token \<Rightarrow> access_map \<Rightarrow> pid list" where
  "holders t m = (case map_find m t of None \<Rightarrow> [] | Some v \<Rightarrow> agent_pids v)"

lemma step_inv:
  assumes "rat_step m a m'" "rat_inv m"
  shows "rat_inv m'"
  using assms
proof cases
  case (create gen d r p t)
  with assms(2) show ?thesis
    by (auto simp: create_new_entry_def rat_inv_def map_inv_map_set map_of_map_set split: if_splits)
next
  case (append t d r p)
  with assms(2) show ?thesis
    by (auto simp: append_pid_def rat_inv_def map_inv_map_set map_of_map_set
        split: if_splits option.splits)
next
  case (erase t p e)
  with assms(2) show ?thesis
    by (auto simp: erase_pid_token_def rat_inv_def Let_def map_inv_map_set map_inv_map_erase
        map_of_map_set map_of_map_erase split: if_splits option.splits)
next
  case (erase_all p)
  with assms(2) show ?thesis
    by (auto simp: rat_inv_def map_inv_erase_pid erase_pid_find strip_pid_def filter_empty_conv
        list_all_iff split: if_splits option.splits)
next
  case (restore e)
  with assms(2) show ?thesis
    by (auto simp: restore_def rat_inv_def map_inv_map_set map_of_map_set
        split: if_splits option.splits)
qed

text \<open>Only a creation and a restoration make a token valid that was not.\<close>

lemma step_contains_new:
  assumes "rat_step m a m'" "rat_inv m" "rat_contains_token t d r m'" "\<not> rat_contains_token t d r m"
  shows "(\<exists>p. a = Create d r p \<and> \<not> (\<exists>t'. rat_contains_token t' d r m) \<and>
            (\<forall>t'. rat_contains_token t' d r m' \<longrightarrow> t' = t)) \<or> (\<exists>e. a = Restore e)"
  using assms(1)
proof cases
  case (create gen d1 r1 p t1)
  then have new: "\<not> (\<exists>t'. rat_contains_token t' d1 r1 m)"
    and m': "m' = map_set t1 \<lparr>data_id = d1, replica_number = r1, agent_pids = [p]\<rparr> m"
    using list_ex_matches [OF rat_inv_map_inv [OF assms(2)], of d1 r1]
    by (auto simp: create_new_entry_def split: if_splits)
  have eff: "rat_contains_token t' d' r' m' \<longleftrightarrow>
      (if t' = t1 then d' = d1 \<and> r' = r1 else rat_contains_token t' d' r' m)" for t' d' r'
    using assms(2) by (auto simp: m' rat_contains_token_def map_of_map_set)
  with assms(3,4) new create(1) show ?thesis by (metis (full_types))
next
  case (append t1 d1 r1 p)
  with assms show ?thesis
    by (auto simp: append_pid_def rat_contains_token_def map_of_map_set split: if_splits option.splits)
next
  case (erase t1 p e)
  with assms show ?thesis
    by (auto simp: erase_pid_token_def rat_contains_token_def Let_def map_of_map_set map_of_map_erase
        split: if_splits option.splits)
next
  case (erase_all p)
  with assms show ?thesis
    by (auto simp: rat_contains_token_def erase_pid_find strip_pid_def split: if_splits option.splits)
qed auto

lemma step_one_token:
  assumes "rat_step m a m'" "rat_inv m" "one_token m" "\<forall>e. a \<noteq> Restore e"
  shows "one_token m'"
  unfolding one_token_contains
proof (intro allI impI)
  fix t t' d r
  assume "rat_contains_token t d r m'" "rat_contains_token t' d r m'"
  then show "t = t'"
    using step_contains_new [OF assms(1,2)] assms(3,4) unfolding one_token_contains by metis
qed

section \<open>Properties\<close>

fun no_restore :: "rat_op \<Rightarrow> bool" where
  "no_restore (Restore e) = False"
| "no_restore _ = True"

lemma no_restore_iff: "no_restore a \<longleftrightarrow> (\<forall>e. a \<noteq> Restore e)"
  by (cases a) auto

interpretation rat_keep: component rat_step "\<lambda>a. True" rat_inv
  by unfold_locales (rule step_inv)

interpretation rat_single: component rat_step no_restore "\<lambda>m. rat_inv m \<and> one_token m"
  by unfold_locales (auto simp: step_inv step_one_token no_restore_iff)

lemma rat_inv_empty [simp]: "rat_inv []" "one_token []"
  by (simp_all add: rat_inv_def one_token_def map_inv_def)

text \<open>C21 (invariant). In every execution of the table's operations that does not restore an entry, a
  replica has at most one token, a valid token is held by at least one agent and the map is
  ordered: two agents that open the same replica share its token.\<close>

theorem rat_one_token_per_replica:
  "reach rat_step no_restore [] m \<Longrightarrow> rat_inv m \<and> one_token m"
  by (erule rat_single.reach_keeps) simp

theorem rat_one_token_per_replica_witness:
  "one_token (map_set ''u'' \<lparr>data_id = 1, replica_number = 2, agent_pids = [7, 8]\<rparr> [])"
proof -
  let ?m1 = "map_set ''u'' \<lparr>data_id = 1, replica_number = 2, agent_pids = [7]\<rparr> []"
  have "rat_step [] (Create 1 2 7) ?m1"
    by (rule rat_step.create [where gen = "\<lambda>_. ''u''" and t = "''u''"])
      (simp add: create_new_entry_def generate_replica_token.simps)
  moreover have "rat_step ?m1 (Append ''u'' 1 2 8)
      (map_set ''u'' \<lparr>data_id = 1, replica_number = 2, agent_pids = [7, 8]\<rparr> [])"
    by (simp add: rat_step_Append append_pid_def)
  ultimately have "reach rat_step no_restore []
      (map_set ''u'' \<lparr>data_id = 1, replica_number = 2, agent_pids = [7, 8]\<rparr> [])"
    by (meson no_restore.simps reach.intros)
  then show ?thesis using rat_one_token_per_replica by blast
qed

lemma step_other_keeps:
  assumes "rat_step m a m'" "rat_inv m" "op_pid a \<noteq> p"
    "p \<in> set (holders t m)" "rat_contains_token t d r m"
  shows "p \<in> set (holders t m') \<and> rat_contains_token t d r m'"
  using assms(1)
proof cases
  case (create gen d1 r1 q t1)
  then have "map_find m t1 = None" "m' = map_set t1 \<lparr>data_id = d1, replica_number = r1, agent_pids = [q]\<rparr> m"
    by (auto simp: create_new_entry_def generate_replica_token_fresh split: if_splits)
  with assms show ?thesis
    by (auto simp: holders_def rat_contains_token_def map_of_map_set)
next
  case (append t1 d1 r1 q)
  with assms show ?thesis
    by (auto simp: append_pid_def holders_def rat_contains_token_def map_of_map_set
        split: if_splits option.splits)
next
  case (erase t1 q e)
  have "remove1 q xs \<noteq> [] \<and> p \<in> set (remove1 q xs)" if "p \<in> set xs" for xs
    using that assms(3) erase(1) by (metis in_set_remove1 list.set_intros(1) op_pid.simps(3) empty_iff list.set(1))
  with erase assms show ?thesis
    by (auto simp: erase_pid_token_def holders_def rat_contains_token_def Let_def map_of_map_set
        map_of_map_erase split: if_splits option.splits)
next
  case (erase_all q)
  with assms show ?thesis
    by (auto simp: holders_def rat_contains_token_def erase_pid_find strip_pid_def list_all_iff
        split: option.splits)
next
  case (restore e)
  with assms show ?thesis
    by (auto simp: restore_def holders_def rat_contains_token_def map_of_map_set
        split: if_splits option.splits)
qed

interpretation rat_held: shared_component rat_step "\<lambda>a. True" rat_inv op_pid
    "\<lambda>p m. p \<in> set (holders t m) \<and> rat_contains_token t d r m" for t d r
  by unfold_locales (use step_other_keeps in blast)

text \<open>C12 (safety). An agent that holds a valid token keeps it: after any sequence of operations of
  other agents on the table (creations, appends, removals of one or all of their entries, restorations)
  the token still opens the same replica and the agent is still among its holders.\<close>

theorem rat_token_stays_valid:
  assumes "run rat_step m as m'" "rat_inv m" "list_all (\<lambda>a. op_pid a \<noteq> p) as"
    "p \<in> set (holders t m)" "rat_contains_token t d r m"
  shows "p \<in> set (holders t m') \<and> rat_contains_token t d r m'"
  using rat_held.run_grant [of m as m' p t d r] assms by (simp add: list_all_iff)

theorem rat_token_stays_valid_witness:
  "rat_contains_token ''u'' 1 2 (map_set ''u'' \<lparr>data_id = 1, replica_number = 2, agent_pids = [7]\<rparr> [])"
proof -
  let ?m1 = "map_set ''u'' \<lparr>data_id = 1, replica_number = 2, agent_pids = [8, 7]\<rparr> []"
  let ?m2 = "map_set ''u'' \<lparr>data_id = 1, replica_number = 2, agent_pids = [7]\<rparr> []"
  have "rat_step ?m1 (Erase ''u'' 8) ?m2"
    by (simp add: rat_step_Erase erase_pid_token_def Let_def)
  moreover have "run rat_step ?m2 [] ?m2" by (rule run_Nil)
  ultimately have "run rat_step ?m1 [Erase ''u'' 8] ?m2" by (rule run_Cons)
  then show ?thesis
    using rat_token_stays_valid [of ?m1 "[Erase ''u'' 8]" ?m2 7 "''u''" 1 2]
    by (simp add: rat_inv_def map_inv_def holders_def rat_contains_token_def)
qed

text \<open>Two tables with the same tokens, whose lists of agents agree up to order.\<close>

definition same_entry :: "access_entry \<Rightarrow> access_entry \<Rightarrow> bool" where
  "same_entry v w = (data_id v = data_id w \<and> replica_number v = replica_number w \<and>
     mset (agent_pids v) = mset (agent_pids w))"

text \<open>C22 (roundtrip). Restoring the entry that \<open>erase_pid\<close> returned gives back the table from before
  the removal, up to the order of the agents of one token: the same tokens open the same replicas
  and are held by the same agents, each as often as before.\<close>

theorem rat_erase_restore:
  assumes "rat_inv m" "erase_pid_token t p m = (Some e, m')"
  shows "\<exists>m''. restore e m' = Inr m'' \<and> rat_inv m'' \<and>
    (\<forall>k. rel_option same_entry (map_find m'' k) (map_find m k))"
proof -
  from assms obtain v where v: "map_find m t = Some v" "p \<in> set (agent_pids v)"
    and e: "e = \<lparr>re_token = t, re_data_id = data_id v, re_replica_number = replica_number v, re_pid = p\<rparr>"
    and m': "m' = (if remove1 p (agent_pids v) = [] then map_erase t m
        else map_set t (v\<lparr>agent_pids := remove1 p (agent_pids v)\<rparr>) m)"
    by (auto simp: erase_pid_token_def Let_def split: option.splits if_splits)
  have same: "rel_option same_entry x x" for x by (cases x) (simp_all add: same_entry_def)
  have last: "mset (agent_pids v) = {#p#}" if "remove1 p (agent_pids v) = []"
    using v(2) that by (metis add_mset_remove_trivial_eq insert_DiffM mset.simps(1) mset_remove1 set_mset_mset)
  have "\<exists>m''. restore e m' = Inr m'' \<and> (\<forall>k. rel_option same_entry (map_find m'' k) (map_find m k))"
    using assms(1) v last
    by (auto simp: e m' restore_def map_of_map_set map_of_map_erase map_inv_map_erase map_inv_map_set
        same same_entry_def)
  moreover have "rat_inv m'' " if "restore e m' = Inr m''" for m''
    using that step_inv [OF rat_step.restore] step_inv [OF rat_step.erase [OF assms(2)] assms(1)] by blast
  ultimately show ?thesis by blast
qed

theorem rat_erase_restore_witness:
  "\<exists>m''. restore \<lparr>re_token = ''u'', re_data_id = 1, re_replica_number = 2, re_pid = 7\<rparr> [] = Inr m''
    \<and> rat_inv m''"
proof -
  let ?m = "[(''u'', \<lparr>data_id = 1, replica_number = 2, agent_pids = [7]\<rparr>)]"
  have "rat_inv ?m" by (simp add: rat_inv_def map_inv_def)
  moreover have "erase_pid_token ''u'' 7 ?m =
      (Some \<lparr>re_token = ''u'', re_data_id = 1, re_replica_number = 2, re_pid = 7\<rparr>, [])"
    by (simp add: erase_pid_token_def map_erase_def)
  ultimately show ?thesis using rat_erase_restore by blast
qed

text \<open>With a table in order and a generator that eventually yields an unused
  identifier, \<open>create_new_entry\<close> always returns: it throws when the replica is open already, and
  otherwise returns a token of the generator that was not in use, opens exactly that replica, is held by the caller
  alone, and leaves every other token as it was.\<close>

lemma rat_create_new_entry:
  assumes "rat_inv m" "map_find m (gen n) = None"
  shows "if rat_contains d r m then create_new_entry gen d r p m = Some (Inl std_exception)
    else \<exists>t m'. create_new_entry gen d r p m = Some (Inr (t, m')) \<and> t \<in> range gen \<and> map_find m t = None \<and>
      rat_contains_token t d r m' \<and> holders t m' = [p] \<and> rat_inv m' \<and>
      (\<forall>k. k \<noteq> t \<longrightarrow> map_find m' k = map_find m k)"
proof (cases "rat_contains d r m")
  case True then show ?thesis by (simp add: create_new_entry_def rat_contains_def)
next
  case False
  from generate_replica_token_total [of m gen 0 n] assms(2) obtain t
    where t: "generate_replica_token gen 0 m = Some t" "t \<in> range gen" by auto
  let ?m = "map_set t \<lparr>data_id = d, replica_number = r, agent_pids = [p]\<rparr> m"
  have c: "create_new_entry gen d r p m = Some (Inr (t, ?m))"
    using False by (simp add: create_new_entry_def rat_contains_def t(1))
  moreover have "rat_inv ?m" using step_inv [OF rat_step.create [OF c] assms(1)] .
  ultimately show ?thesis
    using False generate_replica_token_fresh [OF t(1)] t(2) assms(1)
    by (auto simp: holders_def rat_contains_token_def map_of_map_set)
qed

lemma erase_only_holder:
  assumes "rat_inv m" "rat_contains_token t d r m" "holders t m = [p]"
  shows "erase_pid_token t p m = (Some \<lparr>re_token = t, re_data_id = d, re_replica_number = r, re_pid = p\<rparr>, map_erase t m)"
  using assms by (auto simp: erase_pid_token_def rat_contains_token_def holders_def Let_def split: option.splits)

lemma rat_contains_tokens:
  assumes "rat_inv m" "rat_contains d r m"
  shows "\<exists>t. rat_contains_token t d r m"
proof -
  from assms(2) obtain t v where v: "(t, v) \<in> set m" "matches d r v" by (auto simp: rat_contains_def list_ex_iff)
  have "map_find m t = Some v" using map_inv_distinct [OF rat_inv_map_inv [OF assms(1)]] v(1) by simp
  with v(2) show ?thesis by (auto simp: rat_contains_token_def matches_def intro!: exI [of _ t])
qed

text \<open>C23 (error). Restoration does not check what creation checks. Take any table in which a replica has at most one
  token, an agent that is the only holder of a replica's token, another agent, and a generator that never
  yields that token and yields some token that is not in use. The first agent gives its token up, the second
  opens the replica again, which succeeds under a new token, and the restoration of the first agent's entry
  succeeds as well: the replica is then open under two tokens, each held by one of the agents.\<close>

theorem rat_restore_second_token:
  assumes "rat_inv m" "one_token m" "rat_contains_token t d r m" "holders t m = [p]"
    "\<forall>i. gen i \<noteq> t" "map_find m (gen n) = None"
  shows "\<exists>e m1 u m2 m3. erase_pid_token t p m = (Some e, m1) \<and> create_new_entry gen d r q m1 = Some (Inr (u, m2)) \<and>
    restore e m2 = Inr m3 \<and> u \<noteq> t \<and> rat_contains_token t d r m3 \<and> holders t m3 = [p] \<and>
    rat_contains_token u d r m3 \<and> holders u m3 = [q] \<and> \<not> one_token m3"
proof -
  let ?e = "\<lparr>re_token = t, re_data_id = d, re_replica_number = r, re_pid = p\<rparr>" and ?m1 = "map_erase t m"
  note er = erase_only_holder [OF assms(1,3,4)]
  have i1: "rat_inv ?m1" using step_inv [OF rat_step.erase [OF er] assms(1)] .
  have find1: "map_find ?m1 k = (if k = t then None else map_find m k)" for k
    using assms(1) by (simp add: map_of_map_erase)
  have "\<not> rat_contains_token k d r ?m1" for k
    using assms(2,3) unfolding one_token_contains by (cases "k = t") (auto simp: rat_contains_token_def find1)
  then have "\<not> rat_contains d r ?m1" using rat_contains_tokens [OF i1] by blast
  moreover have "map_find ?m1 (gen n) = None" using assms(6) by (simp add: find1)
  ultimately obtain u m2
    where c: "create_new_entry gen d r q ?m1 = Some (Inr (u, m2))" "u \<in> range gen" "rat_contains_token u d r m2" "holders u m2 = [q]" "rat_inv m2"
      "\<forall>k. k \<noteq> u \<longrightarrow> map_find m2 k = map_find ?m1 k"
    using rat_create_new_entry [OF i1, of gen n d r q] by (simp only: if_False) blast
  have u: "u \<noteq> t" using c(2) assms(5) by blast
  have m2: "map_find m2 t = None" using c(6) u by (simp add: find1)
  let ?m3 = "map_set t \<lparr>data_id = d, replica_number = r, agent_pids = [p]\<rparr> m2"
  have "restore ?e m2 = Inr ?m3" using m2 by (simp add: restore_def)
  moreover have t3: "rat_contains_token t d r ?m3" "holders t ?m3 = [p]" "rat_contains_token u d r ?m3" "holders u ?m3 = [q]"
    using c(3-5) u by (auto simp: rat_contains_token_def holders_def map_of_map_set)
  moreover have "\<not> one_token ?m3" using t3(1,3) u unfolding one_token_contains by blast
  ultimately show ?thesis using er c(1) u by blast
qed

theorem rat_restore_second_token_witness:
  "\<exists>e m1 u m2 m3. erase_pid_token ''u'' 7 [(''u'', \<lparr>data_id = 1, replica_number = 2, agent_pids = [7]\<rparr>)] = (Some e, m1) \<and>
    create_new_entry (\<lambda>i. ''w'') 1 2 9 m1 = Some (Inr (u, m2)) \<and> restore e m2 = Inr m3 \<and> \<not> one_token m3"
proof -
  let ?m = "[(''u'', \<lparr>data_id = 1, replica_number = 2, agent_pids = [7]\<rparr>)]"
  have "rat_inv ?m" "one_token ?m" "rat_contains_token ''u'' 1 2 ?m" "holders ''u'' ?m = [7]"
    by (simp_all add: rat_inv_def map_inv_def one_token_def rat_contains_token_def holders_def)
  from rat_restore_second_token [OF this, of "\<lambda>i. ''w''" 0 9] obtain e and m1 and u and m2 and m3
    where "erase_pid_token ''u'' 7 ?m = (Some e, m1)" "create_new_entry (\<lambda>i. ''w'') 1 2 9 m1 = Some (Inr (u, m2))"
      "restore e m2 = Inr m3" "\<not> one_token m3" by auto
  then show ?thesis by (intro exI conjI)
qed

end
