(* ===== verification/Path.thy ===== *)
theory Path
  imports Std_String "HOL-Library.Monad_Syntax"
begin

text \<open>
  Logical paths, \<^verbatim>\<open>lib/filesystem/src/path.cpp\<close>. A \<^verbatim>\<open>path\<close> is its string \<^verbatim>\<open>value_\<close>; a \<^verbatim>\<open>path::iterator\<close>
  over it is a position and the current element. A range of iterators is the list of its elements.
  \<open>None\<close> stands for a computation that does not return a value: \<^verbatim>\<open>substr\<close> throws, or a range is walked whose
  end is never met. The theorems show that neither happens.
\<close>

section \<open>Paths and their iterators\<close>

abbreviation preferred_separator :: char where
  "preferred_separator \<equiv> CHR ''/''"

definition dot :: string where
  "dot = ''.''"

definition dot_dot :: string where
  "dot_dot = ''..''"

definition is_separator :: "char \<Rightarrow> bool" where
  "is_separator c = (c = preferred_separator)"

text \<open>\<^verbatim>\<open>is_separator(fp[i])\<close>; the character at \<^verbatim>\<open>size()\<close> is the terminating null.\<close>

definition sep_at :: "string \<Rightarrow> nat \<Rightarrow> bool" where
  "sep_at fp i = (i < length fp \<and> is_separator (fp ! i))"

record path_iter =
  it_pos :: nat
  it_element :: string

definition is_absolute :: "string \<Rightarrow> bool" where
  "is_absolute p = (p \<noteq> [] \<and> hd p = preferred_separator)"

definition opt_substr :: "string \<Rightarrow> nat \<Rightarrow> nat \<Rightarrow> string option" where
  "opt_substr s i n = (case substr s i (Some n) of Inl e \<Rightarrow> None | Inr x \<Rightarrow> Some x)"

definition path_begin :: "string \<Rightarrow> path_iter" where
  "path_begin p = \<lparr>it_pos = 0, it_element =
     (if p = [] then []
      else if is_absolute p then [preferred_separator]
      else (case find_first_of p [preferred_separator] (Some 0) of
              Some e \<Rightarrow> take e p
            | None \<Rightarrow> p))\<rparr>"

definition path_end :: "string \<Rightarrow> path_iter" where
  "path_end p = \<lparr>it_pos = length p, it_element = []\<rparr>"

function skip_separators :: "string \<Rightarrow> nat \<Rightarrow> nat" where
  "skip_separators fp i = (if sep_at fp i then skip_separators fp (Suc i) else i)"
  by pat_completeness auto
termination
  by (relation "measure (\<lambda>(fp, i). length fp - i)") (auto simp: sep_at_def)

definition element_at :: "string \<Rightarrow> nat \<Rightarrow> string option" where
  "element_at fp pos = (case find_first_of fp [preferred_separator] (Some pos) of
      Some endp \<Rightarrow> opt_substr fp pos (endp - pos)
    | None \<Rightarrow> opt_substr fp pos (length fp - pos))"

definition path_next :: "string \<Rightarrow> path_iter \<Rightarrow> path_iter option" where
  "path_next fp it =
     (if Suc (it_pos it) = length fp \<and> it_element it = [] then Some (it\<lparr>it_pos := Suc (it_pos it)\<rparr>)
      else let pos = it_pos it + length (it_element it) in
        if length fp = pos then Some \<lparr>it_pos = pos, it_element = []\<rparr>
        else let pos = skip_separators fp pos in
          if length fp = pos \<and> sep_at fp (length fp - 1)
          then Some \<lparr>it_pos = length fp - 1, it_element = []\<rparr>
          else map_option (\<lambda>e. \<lparr>it_pos = pos, it_element = e\<rparr>) (element_at fp pos))"

function back_while :: "(nat \<Rightarrow> bool) \<Rightarrow> nat \<Rightarrow> nat" where
  "back_while P i = (if i > 0 \<and> P (i - 1) then back_while P (i - 1) else i)"
  by pat_completeness auto
termination
  by (relation "measure snd") auto

definition path_prev :: "string \<Rightarrow> path_iter \<Rightarrow> path_iter option" where
  "path_prev fp it =
     (let pos = it_pos it in
      if length fp = pos \<and> length fp > 1 \<and> sep_at fp (pos - 1)
      then Some \<lparr>it_pos = pos - 1, it_element = []\<rparr>
      else if pos > 0 \<and> sep_at fp (pos - 1) \<and> pos - 1 = 0
      then Some \<lparr>it_pos = 0, it_element = [preferred_separator]\<rparr>
      else let endp = (if pos > 0 \<and> sep_at fp (pos - 1) then back_while (sep_at fp) pos else pos);
               start = back_while (\<lambda>i. \<not> sep_at fp i) endp
           in do {
             e \<leftarrow> opt_substr fp start (endp - start);
             Some \<lparr>it_pos = start, it_element = e\<rparr>
           })"

text \<open>The elements of the range from \<open>it\<close> to the iterator at position \<open>stop\<close> (iterators over one path are
  equal when their positions are), and of the range walked backwards by the reverse iterator.\<close>

partial_function (option) path_range :: "string \<Rightarrow> nat \<Rightarrow> path_iter \<Rightarrow> string list option" where
  "path_range fp stop it =
     (if it_pos it = stop then Some []
      else do { it' \<leftarrow> path_next fp it; es \<leftarrow> path_range fp stop it'; Some (it_element it # es) })"

partial_function (option) path_rrange :: "string \<Rightarrow> path_iter \<Rightarrow> string list option" where
  "path_rrange fp it =
     (if it_pos it = 0 then Some []
      else do { it' \<leftarrow> path_prev fp it; es \<leftarrow> path_rrange fp it'; Some (it_element it' # es) })"

declare path_range.simps [code] path_rrange.simps [code]

definition path_elements :: "string \<Rightarrow> string list option" where
  "path_elements p = path_range p (length p) (path_begin p)"

definition path_reversed :: "string \<Rightarrow> string list option" where
  "path_reversed p = path_rrange p (path_end p)"

section \<open>Appending, decomposition and comparison\<close>

definition append_separator_if_needed :: "string \<Rightarrow> string \<Rightarrow> string" where
  "append_separator_if_needed v p =
     (if v = [] \<or> last v = preferred_separator \<or> hd p = preferred_separator then v
      else v @ [preferred_separator])"

definition path_append :: "string \<Rightarrow> string \<Rightarrow> string" where
  "path_append v p =
     (if p = [] then (if v \<noteq> [] \<and> last v \<noteq> preferred_separator then v @ [preferred_separator] else v)
      else if is_absolute p then p
      else append_separator_if_needed v p @ p)"

definition join_elements :: "string list \<Rightarrow> string" where
  "join_elements es = foldl path_append [] es"

definition root_collection :: "string \<Rightarrow> string" where
  "root_collection p = (if is_absolute p then it_element (path_begin p) else [])"

definition relative_path :: "string \<Rightarrow> string option" where
  "relative_path p =
     (if root_collection p \<noteq> [] then do {
        it \<leftarrow> path_next p (path_begin p);
        es \<leftarrow> path_range p (length p) it;
        Some (join_elements es) }
      else Some (if p = [] then [] else p))"

definition parent_path :: "string \<Rightarrow> string option" where
  "parent_path p = do {
     r \<leftarrow> relative_path p;
     if r = [] then Some p
     else do {
       it \<leftarrow> path_prev p (path_end p);
       es \<leftarrow> path_range p (it_pos it) (path_begin p);
       Some (join_elements es) } }"

definition object_name :: "string \<Rightarrow> string option" where
  "object_name p = do {
     r \<leftarrow> relative_path p;
     if r = [] then Some [] else map_option it_element (path_prev p (path_end p)) }"

fun compare_elements :: "string list \<Rightarrow> string list \<Rightarrow> int" where
  "compare_elements (x # xs) (y # ys) =
     (if x < y then -1 else if x > y then 1 else compare_elements xs ys)"
| "compare_elements [] [] = 0"
| "compare_elements [] (y # ys) = -1"
| "compare_elements (x # xs) [] = 1"

definition path_compare :: "string \<Rightarrow> string \<Rightarrow> int option" where
  "path_compare p q = do { xs \<leftarrow> path_elements p; ys \<leftarrow> path_elements q; Some (compare_elements xs ys) }"

definition path_eq :: "string \<Rightarrow> string \<Rightarrow> bool option" where
  "path_eq p q = map_option (\<lambda>c. c = 0) (path_compare p q)"

definition find_last_of :: "string \<Rightarrow> char \<Rightarrow> nat option" where
  "find_last_of s c = List.find (\<lambda>i. s ! i = c) (rev [0..<length s])"

definition remove_object_name :: "string \<Rightarrow> string option" where
  "remove_object_name p = do {
     n \<leftarrow> object_name p;
     Some (if n \<noteq> [] then (case find_last_of p preferred_separator of
                             Some pos \<Rightarrow> take (Suc pos) p
                           | None \<Rightarrow> p)
           else p) }"

definition replace_object_name :: "string \<Rightarrow> string \<Rightarrow> string option" where
  "replace_object_name p r = map_option (\<lambda>q. path_append q r) (remove_object_name p)"

definition split_at_dot :: "(string \<Rightarrow> nat \<Rightarrow> string) \<Rightarrow> string \<Rightarrow> string option" where
  "split_at_dot part p =
     (if p = [] then Some []
      else do {
        n \<leftarrow> object_name p;
        is_dot \<leftarrow> path_eq n dot;
        is_dot_dot \<leftarrow> path_eq n dot_dot;
        Some (if is_dot \<or> is_dot_dot then []
              else (case find_last_of n (hd dot) of Some pos \<Rightarrow> part n pos | None \<Rightarrow> [])) })"

definition path_stem :: "string \<Rightarrow> string option" where
  "path_stem p = split_at_dot (\<lambda>n pos. take pos n) p"

definition path_extension :: "string \<Rightarrow> string option" where
  "path_extension p = split_at_dot (\<lambda>n pos. drop pos n) p"

definition replace_extension :: "string \<Rightarrow> string \<Rightarrow> string option" where
  "replace_extension p r = do {
     e \<leftarrow> path_extension p;
     let v = (if e \<noteq> [] then (case find_last_of p (hd dot) of Some pos \<Rightarrow> take pos p | None \<Rightarrow> p) else p);
     let v = (if r \<noteq> [] \<and> hd r \<noteq> CHR ''.'' then v @ ''.'' else v);
     Some (v @ r) }"

definition zone_name :: "string \<Rightarrow> string option option" where
  "zone_name p = do {
     es \<leftarrow> path_elements p;
     if length es \<ge> 2 then map_option (\<lambda>it. Some (it_element it)) (path_next p (path_begin p))
     else Some None }"

section \<open>Lexical operations\<close>

definition normal_step :: "string \<Rightarrow> string \<Rightarrow> string option" where
  "normal_step p e = do {
     is_dot \<leftarrow> path_eq e dot;
     is_dot_dot \<leftarrow> path_eq e dot_dot;
     if is_dot then Some (path_append p [])
     else if is_dot_dot then do {
       n \<leftarrow> object_name p;
       n_dot_dot \<leftarrow> path_eq n dot_dot;
       if n \<noteq> [] \<and> \<not> n_dot_dot then remove_object_name p
       else do {
         is_root \<leftarrow> path_eq [preferred_separator] p;
         Some (if \<not> is_root then path_append p e else p) } }
     else Some (path_append p e) }"

fun normal_loop :: "string \<Rightarrow> string list \<Rightarrow> string option" where
  "normal_loop p [] = Some p"
| "normal_loop p (e # es) = do { p' \<leftarrow> normal_step p e; normal_loop p' es }"

definition lexically_normal :: "string \<Rightarrow> string option" where
  "lexically_normal s =
     (if s = [] then Some []
      else do {
        es \<leftarrow> path_elements s;
        p \<leftarrow> normal_loop [] es;
        if p = [] then Some dot
        else do {
          it \<leftarrow> path_prev p (path_end p);
          if it_element it = [] then do {
            it2 \<leftarrow> path_prev p it;
            dd \<leftarrow> path_eq dot_dot (it_element it2);
            if dd then parent_path p else Some p }
          else Some p } })"

fun mismatch :: "string list \<Rightarrow> string list \<Rightarrow> (string list \<times> string list) option" where
  "mismatch (x # xs) (y # ys) = do { e \<leftarrow> path_eq x y; if e then mismatch xs ys else Some (x # xs, y # ys) }"
| "mismatch xs ys = Some (xs, ys)"

definition lexically_relative :: "string \<Rightarrow> string \<Rightarrow> string option" where
  "lexically_relative p base = do {
     xs \<leftarrow> path_elements p;
     ys \<leftarrow> path_elements base;
     mm \<leftarrow> mismatch xs ys;
     if mm = ([], []) then Some dot
     else Some (join_elements (map (\<lambda>_. dot_dot) (snd mm) @ fst mm)) }"

definition lexically_proximate :: "string \<Rightarrow> string \<Rightarrow> string option" where
  "lexically_proximate p base = map_option (\<lambda>r. if r \<noteq> [] then r else p) (lexically_relative p base)"

fun lexicographical_compare :: "string list \<Rightarrow> string list \<Rightarrow> bool" where
  "lexicographical_compare (x # xs) (y # ys) =
     (if x < y then True else if y < x then False else lexicographical_compare xs ys)"
| "lexicographical_compare xs ys = (xs = [] \<and> ys \<noteq> [])"

end
