(* ===== verification/Path_Iteration.thy ===== *)
theory Path_Iteration
  imports Path
begin

text \<open>
  The forward and the backward iterator of a path: \<open>elements_spec\<close> says which elements a path has, and the
  theorems show that walking it with either operator visits them.
\<close>

section \<open>The elements of a path\<close>

text \<open>Reference: a leading separator is an element, the non-empty runs between separators are elements, and
  a trailing separator that is not the leading one ends in an empty element.\<close>

definition tail_elements :: "string \<Rightarrow> string list" where
  "tail_elements r = pieces is_separator r @ (if r \<noteq> [] \<and> is_separator (last r) then [[]] else [])"

definition elements_spec :: "string \<Rightarrow> string list" where
  "elements_spec s = (if s = [] then [] else
     (if is_separator (hd s) then [[preferred_separator]] else [])
     @ pieces is_separator s
     @ (if is_separator (last s) \<and> length s > 1 then [[]] else []))"

lemma elements_spec_split:
  "elements_spec s =
     (if s = [] then []
      else if is_separator (hd s) then [preferred_separator] # tail_elements (tl s)
      else takeWhile (\<lambda>c. \<not> is_separator c) s # tail_elements (dropWhile (\<lambda>c. \<not> is_separator c) s))"
proof (cases s)
  case (Cons c u)
  let ?d = "dropWhile (\<lambda>c. \<not> is_separator c) u"
  have "?d \<noteq> [] \<and> is_separator (last ?d) \<longleftrightarrow> u \<noteq> [] \<and> is_separator (last u)"
  proof (cases "?d = []")
    case True then show ?thesis using last_in_set by (auto simp: dropWhile_eq_Nil_conv)
  next
    case False
    then have "last ?d = last u" by (metis last_appendR takeWhile_dropWhile_id)
    with False show ?thesis by auto
  qed
  with Cons show ?thesis
    by (cases "is_separator c") (simp_all add: elements_spec_def tail_elements_def)
qed (simp add: elements_spec_def)

lemma skip_separators_eq:
  "skip_separators fp i = i + length (takeWhile is_separator (drop i fp))"
proof (induction fp i rule: skip_separators.induct)
  case (1 fp i)
  show ?case
  proof (cases "sep_at fp i")
    case True
    then have "drop i fp = fp ! i # drop (Suc i) fp" by (simp add: sep_at_def Cons_nth_drop_Suc)
    with True 1 show ?thesis by (simp add: sep_at_def)
  next
    case False
    then have "takeWhile is_separator (drop i fp) = []"
      by (cases "i < length fp") (simp_all add: sep_at_def Cons_nth_drop_Suc [symmetric])
    with False show ?thesis by simp
  qed
qed

declare skip_separators.simps [simp del]

lemma skip_separators_append [simp]:
  "skip_separators (pre @ r) (length pre) = length pre + length (takeWhile is_separator r)"
  by (simp add: skip_separators_eq)

lemma opt_substr_append [simp]:
  "opt_substr (pre @ x @ r) (length pre) (length x) = Some x"
  by (simp add: opt_substr_def substr_def)

lemma find_separator_append:
  "find_first_of (pre @ r) [preferred_separator] (Some (length pre)) =
     (if list_ex is_separator r then Some (length pre + length (takeWhile (\<lambda>c. \<not> is_separator c) r)) else None)"
  by (simp add: find_first_of_def find_pos_takeWhile is_separator_def list_ex_iff)

lemma sep_split:
  "r = takeWhile is_separator r @ takeWhile (\<lambda>c. \<not> is_separator c) (dropWhile is_separator r) @
     dropWhile (\<lambda>c. \<not> is_separator c) (dropWhile is_separator r)"
  by simp

text \<open>One increment: from the element \<open>x\<close> to what the rest \<open>r\<close> of the string holds.\<close>

lemma path_next_last [simp]:
  "x \<noteq> [] \<Longrightarrow> path_next (pre @ x) \<lparr>it_pos = length pre, it_element = x\<rparr> = Some (path_end (pre @ x))"
  by (simp add: path_next_def path_end_def)

lemma path_next_trailing [simp]:
  assumes "x \<noteq> []" "r \<noteq> []" "list_all is_separator r"
  shows "path_next (pre @ x @ r) \<lparr>it_pos = length pre, it_element = x\<rparr> =
    Some \<lparr>it_pos = length pre + length x + length r - 1, it_element = []\<rparr>"
proof -
  have tw: "takeWhile is_separator r = r"
    using assms(3) by (simp add: list_all_iff takeWhile_eq_all_conv)
  have "skip_separators (pre @ x @ r) (length pre + length x) = length (pre @ x @ r)"
    using skip_separators_append [of "pre @ x" r, unfolded tw] by simp
  moreover have "is_separator (last (pre @ x @ r))" using assms(2,3) by (simp add: list_all_iff)
  then have "sep_at (pre @ x @ r) (length (pre @ x @ r) - 1)"
    using assms(2) by (metis append_is_Nil_conv sep_at_def last_conv_nth diff_less length_greater_0_conv zero_less_one)
  ultimately show ?thesis
    using assms(1,2) by (simp add: path_next_def Let_def add.assoc)
qed

lemma element_at_append [simp]:
  assumes "list_all (\<lambda>c. \<not> is_separator c) y" "r = [] \<or> is_separator (hd r)"
  shows "element_at (pre @ y @ r) (length pre) = Some y"
proof -
  have tn: "takeWhile (\<lambda>c. \<not> is_separator c) (y @ r) = y"
    using assms by (cases r) (auto simp: list_all_iff)
  have ex: "list_ex is_separator (y @ r) \<longleftrightarrow> r \<noteq> []"
    using assms by (cases r) (auto simp: list_all_iff list_ex_iff)
  show ?thesis
    unfolding element_at_def find_separator_append ex tn using opt_substr_append [of pre y r] opt_substr_append [of pre y "[]"] by auto
qed

lemma path_next_element [simp]:
  assumes "x \<noteq> []" "list_all is_separator s" "y \<noteq> []" "list_all (\<lambda>c. \<not> is_separator c) y"
    and "r = [] \<or> is_separator (hd r)"
  shows "path_next (pre @ x @ s @ y @ r) \<lparr>it_pos = length pre, it_element = x\<rparr> =
    Some \<lparr>it_pos = length pre + length x + length s, it_element = y\<rparr>"
proof -
  have tw: "takeWhile is_separator (s @ y @ r) = s"
    using assms(2-4) by (cases y) (auto simp: list_all_iff)
  have "skip_separators (pre @ x @ s @ y @ r) (length pre + length x) = length (pre @ x @ s)"
    using skip_separators_append [of "pre @ x" "s @ y @ r"] tw by simp
  then show ?thesis
    using assms(1,3) element_at_append [OF assms(4,5), of "pre @ x @ s"]
    by (simp add: path_next_def Let_def add.assoc)
qed

lemma path_range_stop [simp]: "it_pos it = stop \<Longrightarrow> path_range fp stop it = Some []"
  by (simp add: path_range.simps)

lemma path_range_step:
  "it_pos it \<noteq> stop \<Longrightarrow> path_next fp it = Some it' \<Longrightarrow>
    path_range fp stop it = map_option (\<lambda>es. it_element it # es) (path_range fp stop it')"
  by (simp add: path_range.simps [of fp stop it] map_conv_bind_option comp_def)

lemma drop_element_shorter:
  "\<not> list_all is_separator r \<Longrightarrow>
     length (dropWhile (\<lambda>c. \<not> is_separator c) (dropWhile is_separator r)) < length r"
  by (induction r) (auto simp: less_Suc_eq_le length_dropWhile_le)

text \<open>The iterators the rest \<open>r\<close> of a path holds, \<open>r\<close> starting at offset \<open>p\<close>.\<close>

function tail_iters :: "nat \<Rightarrow> string \<Rightarrow> path_iter list" where
  "tail_iters p r =
     (if r = [] then []
      else if list_all is_separator r then [\<lparr>it_pos = p + length r - 1, it_element = []\<rparr>]
      else let s = takeWhile is_separator r; y = takeWhile (\<lambda>c. \<not> is_separator c) (dropWhile is_separator r)
           in \<lparr>it_pos = p + length s, it_element = y\<rparr>
                # tail_iters (p + length s + length y) (dropWhile (\<lambda>c. \<not> is_separator c) (dropWhile is_separator r)))"
  by pat_completeness auto
termination
  by (relation "measure (\<lambda>(p, r). length r)") (simp_all add: drop_element_shorter)

declare tail_iters.simps [simp del]

lemma tail_iters_Nil [simp]: "tail_iters p [] = []"
  by (simp add: tail_iters.simps)

lemma tail_iters_trailing [simp]:
  "r \<noteq> [] \<Longrightarrow> list_all is_separator r \<Longrightarrow> tail_iters p r = [\<lparr>it_pos = p + length r - 1, it_element = []\<rparr>]"
  by (simp add: tail_iters.simps)

lemma tail_iters_element [simp]:
  assumes "list_all is_separator s" "y \<noteq> []" "list_all (\<lambda>c. \<not> is_separator c) y" "r = [] \<or> is_separator (hd r)"
  shows "tail_iters p (s @ y @ r) =
    \<lparr>it_pos = p + length s, it_element = y\<rparr> # tail_iters (p + length s + length y) r"
proof -
  have tw: "takeWhile is_separator (s @ y @ r) = s" "dropWhile is_separator (s @ y @ r) = y @ r"
    using assms(1-3) by (cases y, auto simp: list_all_iff)+
  have tn: "takeWhile (\<lambda>c. \<not> is_separator c) (y @ r) = y" "dropWhile (\<lambda>c. \<not> is_separator c) (y @ r) = r"
    using assms(3,4) by (cases r, auto simp: list_all_iff)+
  have "\<not> list_all is_separator (s @ y @ r)" using assms(2,3) by (cases y) auto
  then show ?thesis
    using assms(2) by (subst tail_iters.simps) (simp add: tw tn Let_def)
qed

text \<open>Case analysis and induction on the rest of a path.\<close>

lemma tail_cases [case_names Nil trailing element]:
  assumes "r = [] \<Longrightarrow> thesis"
    and "r \<noteq> [] \<Longrightarrow> list_all is_separator r \<Longrightarrow> thesis"
    and "\<And>s y r'. r = s @ y @ r' \<Longrightarrow> list_all is_separator s \<Longrightarrow> y \<noteq> [] \<Longrightarrow>
      list_all (\<lambda>c. \<not> is_separator c) y \<Longrightarrow> r' = [] \<or> is_separator (hd r') \<Longrightarrow> thesis"
  shows thesis
proof (cases "r = [] \<or> list_all is_separator r")
  case True with assms(1,2) show ?thesis by blast
next
  case False
  let ?d = "dropWhile is_separator r"
  let ?y = "takeWhile (\<lambda>c. \<not> is_separator c) ?d"
  let ?r = "dropWhile (\<lambda>c. \<not> is_separator c) ?d"
  from False have "?d \<noteq> []" by (simp add: list_all_iff dropWhile_eq_Nil_conv)
  then have "\<not> is_separator (hd ?d)" by (rule hd_dropWhile)
  with \<open>?d \<noteq> []\<close> have "?y \<noteq> []" by (simp add: takeWhile_eq_Nil_iff)
  moreover have "?r = [] \<or> is_separator (hd ?r)"
    using hd_dropWhile [of "\<lambda>c. \<not> is_separator c" ?d] by auto
  ultimately show ?thesis using assms(3) [of "takeWhile is_separator r" ?y ?r] by simp
qed

lemma tail_induct [case_names Nil trailing element]:
  assumes "P []"
    and "\<And>r. r \<noteq> [] \<Longrightarrow> list_all is_separator r \<Longrightarrow> P r"
    and "\<And>s y r. list_all is_separator s \<Longrightarrow> y \<noteq> [] \<Longrightarrow> list_all (\<lambda>c. \<not> is_separator c) y \<Longrightarrow>
      r = [] \<or> is_separator (hd r) \<Longrightarrow> P r \<Longrightarrow> P (s @ y @ r)"
  shows "P r"
proof (induction r rule: length_induct)
  case (1 r)
  show ?case
  proof (cases r rule: tail_cases)
    case (element s y r')
    moreover from this have "P r'" using 1 by simp
    ultimately show ?thesis using assms(3) by simp
  qed (use assms in auto)
qed

lemma tail_iters_pos: "it \<in> set (tail_iters p r) \<Longrightarrow> p \<le> it_pos it \<and> it_pos it < p + length r"
proof (induction r arbitrary: p rule: tail_induct)
  case (element s y r)
  then consider "it = \<lparr>it_pos = p + length s, it_element = y\<rparr>"
    | "it \<in> set (tail_iters (p + length s + length y) r)" by auto
  then show ?case
  proof cases
    case 1 with element(2) show ?thesis by simp
  next
    case 2 from element.IH [OF this] show ?thesis by simp
  qed
next
  case (trailing r) then show ?case by (cases r) auto
qed auto

text \<open>A range that ends at one of the iterators, or at the end of the path.\<close>

abbreviation upto_pos :: "nat \<Rightarrow> path_iter list \<Rightarrow> string list" where
  "upto_pos stop its \<equiv> map it_element (takeWhile (\<lambda>it. it_pos it \<noteq> stop) its)"

lemma path_range_iters:
  assumes "fp = pre @ x @ r" "x \<noteq> []"
    "stop = length fp \<or> stop = length pre \<or> stop \<in> it_pos ` set (tail_iters (length pre + length x) r)"
  shows "path_range fp stop \<lparr>it_pos = length pre, it_element = x\<rparr> =
    Some (upto_pos stop (\<lparr>it_pos = length pre, it_element = x\<rparr> # tail_iters (length pre + length x) r))"
  using assms
proof (induction r arbitrary: pre x rule: tail_induct)
  case Nil
  then show ?case by (auto simp: path_range_step [OF _ path_next_last] path_end_def)
next
  case (trailing r)
  let ?it = "\<lparr>it_pos = length pre + length x + length r - 1, it_element = []\<rparr>"
  have fp: "fp = pre @ x @ r" "length fp = length pre + length x + length r" "0 < length r" "0 < length x"
    using trailing by auto
  have "path_next fp ?it = Some (path_end fp)"
    using fp by (simp add: path_next_def path_end_def)
  moreover have "it_pos ?it \<noteq> length fp" using fp(2,3) by (simp only: path_iter.simps)
  ultimately have "path_range fp (length fp) ?it = Some [[]]"
    by (simp add: path_range_step path_end_def)
  moreover have "path_next fp \<lparr>it_pos = length pre, it_element = x\<rparr> = Some ?it"
    unfolding fp(1) using trailing by (intro path_next_trailing) auto
  moreover have "stop = length fp \<or> stop = length pre \<or> stop = it_pos ?it"
    using trailing by auto
  ultimately show ?case
    using fp trailing by (auto simp: path_range_step)
next
  case (element s y r)
  let ?it = "\<lparr>it_pos = length (pre @ x @ s), it_element = y\<rparr>"
  let ?rest = "tail_iters (length (pre @ x @ s) + length y) r"
  have te: "tail_iters (length pre + length x) (s @ y @ r) = ?it # ?rest"
    using tail_iters_element [OF element(1-4)] by (simp add: add.assoc)
  have nx: "path_next fp \<lparr>it_pos = length pre, it_element = x\<rparr> = Some ?it"
    unfolding element.prems(1) using path_next_element [OF element.prems(2) element(1-4)] by (simp add: add.assoc)
  show ?case
  proof (cases "stop = length pre")
    case False
    have "path_range fp stop ?it = Some (upto_pos stop (?it # ?rest))"
      using element.prems(1,3) False te element(2) by (intro element.IH) auto
    with False show ?thesis
      unfolding te by (subst path_range_step [OF _ nx]) simp_all
  qed simp
qed

section \<open>Whole paths\<close>

definition path_iters :: "string \<Rightarrow> path_iter list" where
  "path_iters s = (if s = [] then [] else
     path_begin s # tail_iters (length (it_element (path_begin s))) (drop (length (it_element (path_begin s))) s))"

text \<open>A path that is not empty is its first element and a rest.\<close>

lemma path_cases [case_names Nil absolute relative]:
  assumes "s = [] \<Longrightarrow> thesis"
    and "\<And>r. s = [preferred_separator] @ r \<Longrightarrow> path_begin s = \<lparr>it_pos = 0, it_element = [preferred_separator]\<rparr> \<Longrightarrow> thesis"
    and "\<And>x r. s = x @ r \<Longrightarrow> x \<noteq> [] \<Longrightarrow> list_all (\<lambda>c. \<not> is_separator c) x \<Longrightarrow> r = [] \<or> is_separator (hd r) \<Longrightarrow>
      path_begin s = \<lparr>it_pos = 0, it_element = x\<rparr> \<Longrightarrow> thesis"
  shows thesis
proof (cases "s = [] \<or> is_separator (hd s)")
  case True
  then show ?thesis
    using assms(1) assms(2) [of "tl s"] by (cases s) (auto simp: path_begin_def is_absolute_def is_separator_def)
next
  case False
  let ?x = "takeWhile (\<lambda>c. \<not> is_separator c) s" and ?r = "dropWhile (\<lambda>c. \<not> is_separator c) s"
  have "?x \<noteq> []" using False by (simp add: takeWhile_eq_Nil_iff)
  moreover have r: "?r = [] \<or> is_separator (hd ?r)"
    using hd_dropWhile [of "\<lambda>c. \<not> is_separator c" s] by auto
  moreover have "element_at s 0 = Some ?x"
    using element_at_append [OF takeWhile_all r, of "[]" s] by simp
  then have "path_begin s = \<lparr>it_pos = 0, it_element = ?x\<rparr>"
    using False by (simp add: path_begin_def element_at_def opt_substr_def substr_def is_absolute_def
        is_separator_def split: option.splits)
  ultimately show ?thesis
    using assms(3) [of ?x ?r] by simp
qed

lemma path_iters_split:
  assumes "s \<noteq> []"
  obtains x r where "s = x @ r" "x \<noteq> []" "path_begin s = \<lparr>it_pos = 0, it_element = x\<rparr>"
    "path_iters s = \<lparr>it_pos = 0, it_element = x\<rparr> # tail_iters (length x) r"
proof (cases s rule: path_cases)
  case (absolute r)
  then show ?thesis using that [of "[preferred_separator]" r] by (simp add: path_iters_def)
next
  case (relative x r)
  then show ?thesis using that [of x r] by (simp add: path_iters_def)
qed (use assms in simp)

lemma tail_iters_elements: "map it_element (tail_iters p r) = tail_elements r"
proof (induction r arbitrary: p rule: tail_induct)
  case (trailing r)
  then have "pieces is_separator r = []" "is_separator (last r)"
    by (simp_all add: pieces_Nil_iff list_all_iff)
  with trailing show ?case by (simp add: tail_elements_def)
next
  case (element s y r)
  have "pieces is_separator (s @ y @ r) = pieces is_separator (y @ r)"
    using element(1) by (induction s) auto
  also have "\<dots> = y # pieces is_separator r"
  proof -
    obtain c u where y: "y = c # u" using element(2) by (cases y) auto
    have "takeWhile (\<lambda>x. \<not> is_separator x) (u @ r) = u" "dropWhile (\<lambda>x. \<not> is_separator x) (u @ r) = r"
      using element(3,4) y by (cases r, auto simp: list_all_iff)+
    with y element(3) show ?thesis by simp
  qed
  finally have "tail_elements (s @ y @ r) = y # tail_elements r"
    using element(2,3) by (cases "r = []") (auto simp: tail_elements_def list_all_iff)
  with element show ?case by simp
qed (simp add: tail_elements_def)

lemma path_iters_elements: "map it_element (path_iters s) = elements_spec s"
proof (cases s rule: path_cases)
  case (relative x r)
  then have "takeWhile (\<lambda>c. \<not> is_separator c) s = x" "dropWhile (\<lambda>c. \<not> is_separator c) s = r"
    "\<not> is_separator (hd s)"
    by (cases r; cases x; auto simp: list_all_iff)+
  with relative show ?thesis by (simp add: path_iters_def elements_spec_split tail_iters_elements)
qed (auto simp: path_iters_def elements_spec_split tail_iters_elements is_separator_def)

lemma path_range_whole:
  assumes "s \<noteq> []" "stop = length s \<or> stop \<in> it_pos ` set (path_iters s)"
  shows "path_range s stop (path_begin s) = Some (upto_pos stop (path_iters s))"
proof -
  from path_iters_split [OF assms(1)] obtain x r where xr: "s = x @ r" "x \<noteq> []"
    "path_begin s = \<lparr>it_pos = 0, it_element = x\<rparr>"
    "path_iters s = \<lparr>it_pos = 0, it_element = x\<rparr> # tail_iters (length x) r" .
  with assms(2) path_range_iters [of s "[]" x r stop] show ?thesis by auto
qed

lemma path_iters_sorted: "sorted_wrt (\<lambda>a b. it_pos a < it_pos b) (path_iters s)"
proof -
  have tail: "sorted_wrt (\<lambda>a b. it_pos a < it_pos b) (tail_iters p r)" for p r
  proof (induction r arbitrary: p rule: tail_induct)
    case (element s y r)
    have "p + length s < it_pos it" if "it \<in> set (tail_iters (p + length s + length y) r)" for it
      using tail_iters_pos [OF that] element(2) by (cases y) auto
    with element show ?case by simp
  qed auto
  show ?thesis
  proof (cases "s = []")
    case False
    then obtain x r where "x \<noteq> []" "path_iters s = \<lparr>it_pos = 0, it_element = x\<rparr> # tail_iters (length x) r"
      by (rule path_iters_split)
    moreover from this have "0 < it_pos it" if "it \<in> set (tail_iters (length x) r)" for it
      using tail_iters_pos [OF that] by (cases x) auto
    ultimately show ?thesis using tail by simp
  qed (simp add: path_iters_def)
qed

lemma path_iters_bound: "it \<in> set (path_iters s) \<Longrightarrow> it_pos it < length s"
proof (cases "s = []")
  case False
  assume it: "it \<in> set (path_iters s)"
  from False obtain x r where "s = x @ r" "x \<noteq> []"
    "path_iters s = \<lparr>it_pos = 0, it_element = x\<rparr> # tail_iters (length x) r"
    by (rule path_iters_split)
  with it show ?thesis by (auto dest: tail_iters_pos)
qed (simp add: path_iters_def)

lemma path_elements_iters: "path_elements s = Some (map it_element (path_iters s))"
proof (cases "s = []")
  case True then show ?thesis by (simp add: path_elements_def path_iters_def path_begin_def)
next
  case False
  have "takeWhile (\<lambda>it. it_pos it \<noteq> length s) (path_iters s) = path_iters s"
    by (auto simp: takeWhile_eq_all_conv dest: path_iters_bound)
  with path_range_whole [OF False, of "length s"] show ?thesis by (simp add: path_elements_def)
qed

lemmas path_elements_eq = path_elements_iters [unfolded path_iters_elements]

text \<open>A range that stops at the last element leaves exactly that one out.\<close>

lemma takeWhile_last:
  "sorted_wrt (\<lambda>a b. f a < (f b :: nat)) xs \<Longrightarrow> xs \<noteq> [] \<Longrightarrow> takeWhile (\<lambda>a. f a \<noteq> f (last xs)) xs = butlast xs"
proof (induction xs)
  case (Cons a xs)
  then show ?case
    by (cases "xs = []") (simp_all add: less_imp_neq)
qed simp

lemma path_range_last:
  "s \<noteq> [] \<Longrightarrow> path_range s (it_pos (last (path_iters s))) (path_begin s) = Some (butlast (elements_spec s))"
proof -
  assume "s \<noteq> []"
  moreover from this have "path_iters s \<noteq> []" by (simp add: path_iters_def)
  ultimately show ?thesis
    using path_range_whole [of s] takeWhile_last [OF path_iters_sorted [of s]]
    by (simp add: path_iters_elements [symmetric] map_butlast)
qed

section \<open>Walking backwards\<close>

declare back_while.simps [simp del]

lemma back_while_step: "0 < n \<Longrightarrow> P (n - 1) \<Longrightarrow> back_while P n = back_while P (n - 1)"
  by (subst back_while.simps) simp

lemma back_while_stop: "n = 0 \<or> \<not> P (n - 1) \<Longrightarrow> back_while P n = n"
  by (subst back_while.simps) auto

lemma back_while_eq:
  "(\<And>i. a \<le> i \<Longrightarrow> i < n \<Longrightarrow> P i) \<Longrightarrow> a = 0 \<or> \<not> P (a - 1) \<Longrightarrow> a \<le> n \<Longrightarrow> back_while P n = a"
proof (induction n)
  case 0 then show ?case by (simp add: back_while_stop)
next
  case (Suc n)
  show ?case
  proof (cases "a = Suc n")
    case True
    with Suc.prems(2) show ?thesis by (simp add: back_while_stop)
  next
    case False
    with Suc.prems(3) have "P n" by (intro Suc.prems(1)) simp_all
    moreover have "back_while P n = a"
      using Suc.prems(2,3) False by (intro Suc.IH Suc.prems(1)) simp_all
    ultimately show ?thesis by (simp add: back_while_step)
  qed
qed

lemma sep_at_append:
  "sep_at (a @ b) i = (if i < length a then sep_at a i else sep_at b (i - length a))"
  by (auto simp: sep_at_def nth_append)

lemma sep_at_all:
  "list_all is_separator s \<Longrightarrow> sep_at s i \<longleftrightarrow> i < length s"
  "list_all (\<lambda>c. \<not> is_separator c) s \<Longrightarrow> \<not> sep_at s i"
  by (auto simp: sep_at_def list_all_length)

lemma sep_at_last: "sep_at s (length s - 1) \<longleftrightarrow> s \<noteq> [] \<and> is_separator (last s)"
  by (cases s rule: rev_cases) (auto simp: sep_at_def)

text \<open>One decrement, from a position that is separated from the element \<open>x\<close> by separators only.\<close>

lemma path_prev_element:
  assumes fp: "fp = pre @ x @ s @ r" and x: "x \<noteq> []" "list_all (\<lambda>c. \<not> is_separator c) x"
    and pre: "pre = [] \<or> is_separator (last pre)" and s: "list_all is_separator s" and "r \<noteq> [] \<or> s = []"
  shows "path_prev fp \<lparr>it_pos = length (pre @ x @ s), it_element = e\<rparr> = Some \<lparr>it_pos = length pre, it_element = x\<rparr>"
proof -
  let ?pos = "length (pre @ x @ s)"
  have sx: "\<not> sep_at fp i" if "length pre \<le> i" "i < length pre + length x" for i
    using that sep_at_all(2) [OF x(2), of "i - length pre"] by (auto simp: fp sep_at_append)
  have ss: "sep_at fp i" if "length pre + length x \<le> i" "i < ?pos" for i
    using that sep_at_all(1) [OF s, of "i - length pre - length x"] by (auto simp: fp sep_at_append)
  have sp: "length pre = 0 \<or> sep_at fp (length pre - 1)"
    using pre sep_at_last [of pre] by (auto simp: fp sep_at_append)
  have lx: "0 < length x" using x(1) by simp
  then have nx: "\<not> sep_at fp (length pre + length x - 1)" by (intro sx) linarith+
  have endp: "(if ?pos > 0 \<and> sep_at fp (?pos - 1) then back_while (sep_at fp) ?pos else ?pos) = length pre + length x"
  proof (cases "s = []")
    case True with nx show ?thesis by simp
  next
    case False
    then have "sep_at fp (?pos - 1)" by (intro ss) (cases s, auto)+
    moreover have "back_while (sep_at fp) ?pos = length pre + length x"
      using ss nx by (intro back_while_eq) auto
    ultimately show ?thesis using lx by simp
  qed
  have start: "back_while (\<lambda>i. \<not> sep_at fp i) (length pre + length x) = length pre"
    using sx sp by (intro back_while_eq) auto
  have c1: "(length fp = ?pos \<and> length fp > 1 \<and> sep_at fp (?pos - 1)) = False"
    using assms(6) nx by (auto simp: fp)
  have c2: "(?pos > 0 \<and> sep_at fp (?pos - 1) \<and> ?pos - 1 = 0) = False"
    using nx lx by (cases s) auto
  have "opt_substr fp (length pre) (length x) = Some x" by (simp add: fp)
  then show ?thesis
    unfolding path_prev_def Let_def path_iter.simps endp start c1 c2 by simp
qed

lemma path_prev_trailing:
  assumes "1 < length fp" "is_separator (last fp)"
  shows "path_prev fp (path_end fp) = Some \<lparr>it_pos = length fp - 1, it_element = []\<rparr>"
proof -
  have "sep_at fp (length fp - 1)" using assms sep_at_last by fastforce
  with assms show ?thesis by (simp add: path_prev_def path_end_def)
qed

lemma path_prev_root:
  "path_prev (preferred_separator # r) \<lparr>it_pos = 1, it_element = e\<rparr> =
     Some \<lparr>it_pos = 0, it_element = [preferred_separator]\<rparr>"
  by (simp add: path_prev_def sep_at_def is_separator_def)

text \<open>The decrement of the end iterator is the last iterator of the path.\<close>

lemma path_prev_end_from:
  assumes "fp = pre @ x @ r" "x \<noteq> []" "list_all (\<lambda>c. \<not> is_separator c) x"
    "pre = [] \<or> is_separator (last pre)" "r = [] \<or> is_separator (hd r)"
  shows "path_prev fp (path_end fp) =
    Some (last (\<lparr>it_pos = length pre, it_element = x\<rparr> # tail_iters (length pre + length x) r))"
  using assms
proof (induction r arbitrary: pre x rule: tail_induct)
  case Nil
  then show ?case using path_prev_element [of fp pre x "[]" "[]" "[]"] by (simp add: path_end_def)
next
  case (trailing r)
  then have "1 < length fp" "is_separator (last fp)"
    by (cases x; cases r; auto simp: list_all_iff)+
  with trailing show ?case by (simp add: path_prev_trailing add.assoc)
next
  case (element s y r)
  then have "s \<noteq> []" by (cases s; cases y) auto
  have "path_prev fp (path_end fp) =
    Some (last (\<lparr>it_pos = length (pre @ x @ s), it_element = y\<rparr> # tail_iters (length (pre @ x @ s) + length y) r))"
    using element \<open>s \<noteq> []\<close> by (intro element.IH) (auto simp: list_all_iff)
  with element show ?case by (simp add: add.assoc)
qed

lemma path_prev_end: "s \<noteq> [] \<Longrightarrow> path_prev s (path_end s) = Some (last (path_iters s))"
proof (cases s rule: path_cases)
  case (relative x r)
  then show ?thesis using path_prev_end_from [of s "[]" x r] by (simp add: path_iters_def)
next
  case (absolute r)
  then have pi: "path_iters s = \<lparr>it_pos = 0, it_element = [preferred_separator]\<rparr> # tail_iters 1 r"
    by (simp add: path_iters_def)
  show ?thesis
  proof (cases r rule: tail_cases)
    case Nil with absolute pi show ?thesis using path_prev_root [of "[]"] by (simp add: path_end_def)
  next
    case trailing
    then have "1 < length s" "is_separator (last s)" "s \<noteq> []"
      using absolute(1) by (cases r; auto simp: list_all_iff)+
    with trailing pi absolute(1) show ?thesis by (simp add: path_prev_trailing)
  next
    case (element t y r')
    have "path_prev s (path_end s) = Some (last
      (\<lparr>it_pos = length (preferred_separator # t), it_element = y\<rparr> # tail_iters (length (preferred_separator # t) + length y) r'))"
      using element absolute(1) by (intro path_prev_end_from) (auto simp: list_all_iff is_separator_def)
    with element pi show ?thesis by simp
  qed
qed simp

section \<open>Properties\<close>

text \<open>C24 (equivalence). Walking a path from \<^verbatim>\<open>begin()\<close> to \<^verbatim>\<open>end()\<close> ends, never throws, and visits exactly: the
  root separator of an absolute path, each maximal run of characters other than the separator, and an
  empty element for a trailing separator.\<close>

theorem path_iteration: "path_elements s = Some (elements_spec s)"
  by (rule path_elements_eq)

lemma path_rrange_step:
  "it_pos it \<noteq> 0 \<Longrightarrow> path_prev fp it = Some it' \<Longrightarrow>
    path_rrange fp it = map_option (\<lambda>es. it_element it' # es) (path_rrange fp it')"
  by (simp add: path_rrange.simps [of fp it] map_conv_bind_option comp_def)

lemma path_rrange_stop [simp]: "it_pos it = 0 \<Longrightarrow> path_rrange fp it = Some []"
  by (simp add: path_rrange.simps)

lemma path_rrange_from:
  assumes "fp = pre @ x @ r" "x \<noteq> []" "list_all (\<lambda>c. \<not> is_separator c) x"
    "pre = [] \<or> is_separator (last pre)" "r = [] \<or> is_separator (hd r)"
    "path_rrange fp \<lparr>it_pos = length pre, it_element = x\<rparr> = Some acc"
  shows "path_rrange fp (path_end fp) =
    Some (rev (map it_element (tail_iters (length pre + length x) r)) @ x # acc)"
  using assms
proof (induction r arbitrary: pre x acc rule: tail_induct)
  case Nil
  then have "path_prev fp (path_end fp) = Some \<lparr>it_pos = length pre, it_element = x\<rparr>"
    using path_prev_end_from [of fp pre x "[]"] by simp
  with Nil show ?case by (subst path_rrange_step) (auto simp: path_end_def)
next
  case (trailing r)
  then obtain c t where r: "r = t @ [c]" by (cases r rule: rev_cases) auto
  let ?it = "\<lparr>it_pos = length (pre @ x @ t), it_element = []\<rparr>"
  have "path_prev fp ?it = Some \<lparr>it_pos = length pre, it_element = x\<rparr>"
    using trailing r path_prev_element [of fp pre x t "[c]"] by simp
  then have "path_rrange fp ?it = Some (x # acc)"
    using trailing by (subst path_rrange_step) auto
  moreover have "path_prev fp (path_end fp) = Some ?it"
    using trailing r path_prev_trailing [of fp] by (cases x) auto
  ultimately show ?case using trailing r
    by (subst path_rrange_step) (auto simp: path_end_def)
next
  case (element s y r)
  then have s: "s \<noteq> []" by (cases s; cases y) auto
  let ?it = "\<lparr>it_pos = length (pre @ x @ s), it_element = y\<rparr>"
  have "path_prev fp ?it = Some \<lparr>it_pos = length pre, it_element = x\<rparr>"
    using element path_prev_element [of fp pre x s "y @ r"] by simp
  then have "path_rrange fp ?it = Some (x # acc)"
    using element by (subst path_rrange_step) auto
  moreover have "is_separator (last (pre @ x @ s))" using s element(1) by (simp add: list_all_iff)
  ultimately have "path_rrange fp (path_end fp) =
    Some (rev (map it_element (tail_iters (length (pre @ x @ s) + length y) r)) @ y # x # acc)"
    using element by (intro element.IH) auto
  with element show ?case by (simp add: add.assoc)
qed

lemma path_reversed_eq:
  assumes "\<not> starts_with s ''//'' \<or> s = ''//''"
  shows "path_reversed s = Some (rev (elements_spec s))"
proof (cases s rule: path_cases)
  case Nil then show ?thesis by (simp add: path_reversed_def path_end_def elements_spec_def)
next
  case (relative x r)
  then show ?thesis
    using path_rrange_from [of s "[]" x r "[]"]
    by (simp add: path_reversed_def path_iters_def path_iters_elements [symmetric])
next
  case (absolute r)
  let ?root = "[preferred_separator]"
  have es: "elements_spec s = ?root # tail_elements r"
    using absolute by (simp add: elements_spec_split is_separator_def)
  have root: "path_rrange s \<lparr>it_pos = 1, it_element = e\<rparr> = Some [?root]" for e
    using absolute path_prev_root [of r e] by (subst path_rrange_step) auto
  show ?thesis
  proof (cases r rule: tail_cases)
    case Nil
    with root [of "[]"] absolute es show ?thesis by (simp add: path_reversed_def path_end_def tail_elements_def)
  next
    case trailing
    with absolute(1) assms have r: "r = ?root"
      by (cases r) (auto simp: is_separator_def starts_with_iff)
    have "path_prev s (path_end s) = Some \<lparr>it_pos = 1, it_element = []\<rparr>"
      using r absolute path_prev_trailing [of s] by (simp add: is_separator_def)
    with root [of "[]"] r absolute(1) es show ?thesis
      unfolding path_reversed_def
      by (subst path_rrange_step) (auto simp: path_end_def tail_elements_def is_separator_def)
  next
    case (element t y r')
    with absolute(1) assms have t: "t = []"
      by (cases t; cases y) (auto simp: is_separator_def starts_with_iff)
    then have "path_rrange s (path_end s) = Some (rev (map it_element (tail_iters (1 + length y) r')) @ y # [?root])"
      using element root absolute(1) path_rrange_from [of s ?root y r' "[?root]"]
      by (simp add: is_separator_def)
    moreover have "tail_elements r = y # tail_elements r'"
      using element t tail_iters_element [of "[]" y r' 0] tail_iters_elements [of 0 r]
        tail_iters_elements [of "length y" r'] by simp
    ultimately show ?thesis by (simp add: path_reversed_def es tail_iters_elements)
  qed
qed

text \<open>C25 (equivalence). Walking a path that does not start with two separators backwards, from \<^verbatim>\<open>rbegin()\<close> to
  \<^verbatim>\<open>rend()\<close>, ends and visits the same elements in the opposite order.\<close>

theorem path_reverse_iteration:
  "\<not> starts_with s ''//'' \<or> s = ''//'' \<Longrightarrow> path_reversed s = Some (rev (elements_spec s))"
  by (rule path_reversed_eq)

theorem path_reverse_iteration_witness: "path_reversed ''/a/'' = Some (rev (elements_spec ''/a/''))"
  by (rule path_reverse_iteration) (simp add: starts_with_def)

text \<open>The decrement skips a run of leading separators: walked forwards, \<^verbatim>\<open>//a\<close> has the elements
  \<^verbatim>\<open>/\<close> and \<^verbatim>\<open>a\<close>; walked backwards, its first element is the empty one.\<close>

lemma path_reverse_double_root:
  "path_elements ''//a'' = Some [''/'', ''a''] \<and> path_reversed ''//a'' = Some [''a'', '''']"
proof -
  have "path_elements ''//a'' = Some [''/'', ''a'']"
    by (simp add: path_elements_eq elements_spec_def is_separator_def)
  moreover have "path_prev ''//a'' \<lparr>it_pos = 3, it_element = []\<rparr> = Some \<lparr>it_pos = 2, it_element = ''a''\<rparr>"
    and "path_prev ''//a'' \<lparr>it_pos = 2, it_element = ''a''\<rparr> = Some \<lparr>it_pos = 0, it_element = []\<rparr>"
    by (simp_all add: path_prev_def sep_at_def is_separator_def back_while.simps opt_substr_def substr_def
        nth_Cons' eval_nat_numeral)
  ultimately show ?thesis
    by (simp add: path_reversed_def path_end_def path_rrange_step numeral_eq_Suc)
qed

end
