(* ===== verification/Path_Lexical.thy ===== *)
theory Path_Lexical
  imports Path_Iteration
begin

text \<open>
  The operations of a path that are defined over its elements: appending, decomposition into parent and
  object name, comparison and the normal form.
\<close>

section \<open>Appending\<close>

lemma pieces_append: "P c \<Longrightarrow> pieces P (r @ c # t) = pieces P r @ pieces P t"
proof (induction P r rule: pieces.induct)
  case (2 P d s)
  show ?case
  proof (cases "P d \<or> list_ex P s")
    case True
    with 2 show ?thesis by (auto simp: list_ex_iff takeWhile_append dropWhile_append)
  next
    case False
    then have t: "takeWhile (\<lambda>x. \<not> P x) (s @ c # t) = s" "dropWhile (\<lambda>x. \<not> P x) (s @ c # t) = c # t"
      "takeWhile (\<lambda>x. \<not> P x) s = s" "dropWhile (\<lambda>x. \<not> P x) s = []"
      using 2(3) by (auto simp: list_ex_iff takeWhile_append dropWhile_append)
    show ?thesis
      unfolding append_Cons pieces.simps t using False 2(3) by simp
  qed
qed simp

text \<open>The elements of an appended path.\<close>

definition open_elements :: "string \<Rightarrow> string list" where
  "open_elements p = (if is_absolute p then [[preferred_separator]] else []) @ pieces is_separator p"

lemma elements_open:
  "elements_spec p = open_elements p @ (if p \<noteq> [] \<and> is_separator (last p) \<and> length p > 1 then [[]] else [])"
  by (simp add: elements_spec_def open_elements_def is_absolute_def is_separator_def)

lemma open_elements_append:
  assumes "e \<noteq> []" "list_all (\<lambda>c. \<not> is_separator c) e"
  shows "open_elements (path_append p e) = open_elements p @ [e]" "elements_spec (path_append p e) = open_elements p @ [e]"
proof -
  have e: "\<not> is_separator (hd e)" "\<not> is_separator (last e)" "pieces is_separator e = [e]" "\<not> is_absolute e"
    using assms by (auto simp: list_all_iff pieces_no_sep is_absolute_def is_separator_def)
  show *: "open_elements (path_append p e) = open_elements p @ [e]"
  proof (cases "p = []")
    case True
    with e assms show ?thesis
      by (simp add: path_append_def append_separator_if_needed_def open_elements_def is_absolute_def)
  next
    case False
    then obtain q where q: "path_append p e = q @ preferred_separator # e" "p = q @ [preferred_separator] \<or> p = q"
    proof (cases "last p = preferred_separator")
      case True
      with False have "p = butlast p @ [preferred_separator]" by (metis append_butlast_last_id)
      with True e assms that [of "butlast p"] show ?thesis
        by (metis append.assoc append_Cons append_Nil append_separator_if_needed_def path_append_def)
    next
      case last: False
      with False e assms that [of p] show ?thesis
        by (simp add: path_append_def append_separator_if_needed_def is_separator_def)
    qed
    have sep: "is_separator preferred_separator" by (simp add: is_separator_def)
    have "pieces is_separator (path_append p e) = pieces is_separator p @ [e]"
      using q e(3) pieces_append [of is_separator preferred_separator, OF sep] by auto
    moreover have "is_absolute (path_append p e) = is_absolute p"
      using q False by (cases q) (auto simp: is_absolute_def)
    ultimately show ?thesis by (simp add: open_elements_def)
  qed
  have "path_append p e \<noteq> []" "last (path_append p e) = last e"
    using assms(1) e(4) by (auto simp: path_append_def)
  with * e(2) show "elements_spec (path_append p e) = open_elements p @ [e]"
    by (simp add: elements_open)
qed

lemma elements_append_Nil:
  "open_elements (path_append p []) = open_elements p"
  "elements_spec (path_append p []) =
     (if p = [] then [] else if p = [preferred_separator] then elements_spec p else open_elements p @ [[]])"
proof -
  have sep: "is_separator preferred_separator" by (simp add: is_separator_def)
  show *: "open_elements (path_append p []) = open_elements p"
    using pieces_append [of is_separator preferred_separator p "[]", OF sep]
    by (simp add: path_append_def open_elements_def is_absolute_def)
  show "elements_spec (path_append p []) =
     (if p = [] then [] else if p = [preferred_separator] then elements_spec p else open_elements p @ [[]])"
  proof (cases "p = [] \<or> p = [preferred_separator]")
    case True then show ?thesis by (auto simp: path_append_def elements_spec_def)
  next
    case False
    then have "is_separator (last (path_append p []))" "1 < length (path_append p [])"
      by (cases p rule: rev_cases; auto simp: path_append_def is_separator_def)+
    with False * show ?thesis by (auto simp: elements_open)
  qed
qed

text \<open>A name is an element other than the root and the trailing one.\<close>

abbreviation is_name :: "string \<Rightarrow> bool" where
  "is_name e \<equiv> e \<noteq> [] \<and> list_all (\<lambda>c. \<not> is_separator c) e"

lemma pieces_names: "list_all is_name (pieces is_separator s)"
  using pieces_nonempty [of is_separator s] by simp

lemma join_names:
  "list_all is_name ns \<Longrightarrow> open_elements (foldl path_append p ns) = open_elements p @ ns"
  by (induction ns arbitrary: p) (auto simp: open_elements_append)

lemma join_names_elements:
  "list_all is_name ns \<Longrightarrow> ns \<noteq> [] \<Longrightarrow> elements_spec (foldl path_append p ns) = open_elements p @ ns"
  by (cases ns rule: rev_cases) (auto simp: open_elements_append join_names)

lemma root_only [simp]: "path_append [] [preferred_separator] = [preferred_separator]"
  by (simp add: path_append_def is_absolute_def)

lemma open_elements_simps [simp]:
  "open_elements [] = []" "open_elements [preferred_separator] = [[preferred_separator]]"
  by (simp_all add: open_elements_def is_absolute_def is_separator_def)

lemma join_root_names:
  "list_all is_name ns \<Longrightarrow>
     open_elements (join_elements ((if b then [[preferred_separator]] else []) @ ns)) =
       (if b then [[preferred_separator]] else []) @ ns"
  by (auto simp: join_elements_def join_names)

text \<open>A path has a relative part unless it consists of separators.\<close>

lemma relative_path_eq: "\<exists>q. relative_path s = Some q \<and> (q = [] \<longleftrightarrow> list_all is_separator s)"
proof (cases s rule: path_cases)
  case Nil then show ?thesis by (simp add: relative_path_def root_collection_def is_absolute_def)
next
  case (relative x r)
  then have "\<not> is_absolute s" "\<not> list_all is_separator s" "s \<noteq> []"
    by (cases x; auto simp: is_absolute_def is_separator_def)+
  then show ?thesis by (simp add: relative_path_def root_collection_def)
next
  case (absolute r)
  let ?root = "[preferred_separator]"
  have sep: "is_separator preferred_separator" by (simp add: is_separator_def)
  have "path_range s (length s) (path_begin s) = Some (elements_spec s)"
    using path_elements_eq [of s] by (simp add: path_elements_def)
  moreover have "elements_spec s = ?root # tail_elements r"
    using absolute by (simp add: elements_spec_split sep)
  ultimately obtain it where it: "path_next s (path_begin s) = Some it"
    "path_range s (length s) it = Some (tail_elements r)"
    using absolute
    by (subst (asm) path_range.simps) (auto simp: bind_eq_Some_conv split: if_splits)
  have "join_elements (tail_elements r) = [] \<longleftrightarrow> pieces is_separator r = []"
  proof (cases "pieces is_separator r = []")
    case True then show ?thesis by (simp add: tail_elements_def join_elements_def path_append_def)
  next
    case False
    have "open_elements (join_elements (tail_elements r)) = pieces is_separator r"
      using join_names [OF pieces_names, of "[]" r]
      by (simp add: tail_elements_def join_elements_def elements_append_Nil)
    with False show ?thesis by auto
  qed
  with it absolute show ?thesis
    by (simp add: relative_path_def root_collection_def is_absolute_def pieces_Nil_iff sep)
qed

lemma compare_elements_order:
  "compare_elements xs ys = (if xs < ys then -1 else if xs = ys then 0 else 1)"
  by (induction xs ys rule: compare_elements.induct) auto

lemma path_eq_iff: "path_eq p q = Some (elements_spec p = elements_spec q)"
  by (auto simp: path_eq_def path_compare_def path_elements_eq compare_elements_order)

lemma decompose:
  assumes "\<not> list_all is_separator s"
  shows "parent_path s = Some (join_elements (butlast (elements_spec s)))"
    and "object_name s = Some (last (elements_spec s))"
proof -
  have s: "s \<noteq> []" using assms by auto
  obtain q where q: "relative_path s = Some q" "q \<noteq> []"
    using relative_path_eq [of s] assms by auto
  have "path_iters s \<noteq> []" using s by (simp add: path_iters_def)
  then have "it_element (last (path_iters s)) = last (elements_spec s)"
    by (simp add: path_iters_elements [symmetric] last_map)
  with q path_prev_end [OF s] path_range_last [OF s]
  show "parent_path s = Some (join_elements (butlast (elements_spec s)))"
    and "object_name s = Some (last (elements_spec s))"
    by (simp_all add: parent_path_def object_name_def)
qed

lemma recompose:
  assumes "list_all is_name ns" "ns \<noteq> []" "es = (if b then [[preferred_separator]] else []) @ ns @ (if t then [[]] else [])"
  shows "elements_spec (path_append (join_elements (butlast es)) (last es)) = es"
proof (cases t)
  case True
  let ?p = "join_elements ((if b then [[preferred_separator]] else []) @ ns)"
  have op: "open_elements ?p = (if b then [[preferred_separator]] else []) @ ns"
    by (rule join_root_names [OF assms(1)])
  with assms(2) have "?p \<noteq> []" by fastforce
  moreover have "?p \<noteq> [preferred_separator]"
  proof
    assume "?p = [preferred_separator]"
    with op have "(if b then [[preferred_separator]] else []) @ ns = [[preferred_separator]]" by simp
    with assms(1,2) show False by (cases b) (auto simp: is_separator_def)
  qed
  ultimately have "elements_spec (path_append ?p []) = open_elements ?p @ [[]]"
    by (simp add: elements_append_Nil)
  moreover have "butlast es = (if b then [[preferred_separator]] else []) @ ns" "last es = []"
    using True by (simp_all add: assms(3) butlast_append)
  ultimately show ?thesis using True op by (simp add: assms(3))
next
  case False
  have "butlast es = (if b then [[preferred_separator]] else []) @ butlast ns" "last es = last ns"
    using False assms(2) by (simp_all add: assms(3) butlast_append)
  moreover have "list_all is_name (butlast ns)" "is_name (last ns)"
    using assms(1,2) by (auto simp: list_all_iff dest: in_set_butlastD)
  ultimately have "elements_spec (path_append (join_elements (butlast es)) (last es)) =
      ((if b then [[preferred_separator]] else []) @ butlast ns) @ [last ns]"
    using join_root_names [of "butlast ns" b] open_elements_append(2) [of "last ns"] by presburger
  with False assms(2,3) show ?thesis by simp
qed

text \<open>C26 (roundtrip). Every path equals its parent path with its object name appended: \<^verbatim>\<open>parent_path\<close> and
  \<^verbatim>\<open>object_name\<close> always return, and \<^verbatim>\<open>p.parent_path() / p.object_name() == p\<close>.\<close>

theorem path_parent_object:
  "\<exists>par obj. parent_path s = Some par \<and> object_name s = Some obj \<and> path_eq (path_append par obj) s = Some True"
proof (cases "list_all is_separator s")
  case True
  then have "relative_path s = Some []" using relative_path_eq [of s] by auto
  then have "parent_path s = Some s" "object_name s = Some []"
    by (simp_all add: parent_path_def object_name_def)
  moreover have "path_append s [] = s"
    using True by (cases s rule: rev_cases) (auto simp: path_append_def is_separator_def)
  ultimately show ?thesis by (simp add: path_eq_iff)
next
  case False
  have "elements_spec s = (if is_absolute s then [[preferred_separator]] else []) @ pieces is_separator s
      @ (if s \<noteq> [] \<and> is_separator (last s) \<and> length s > 1 then [[]] else [])"
    by (simp add: elements_open open_elements_def)
  then have "elements_spec (path_append (join_elements (butlast (elements_spec s))) (last (elements_spec s))) = elements_spec s"
    using False by (intro recompose) (auto simp: pieces_names pieces_Nil_iff)
  with decompose [OF False] show ?thesis by (simp add: path_eq_iff)
qed

text \<open>C27 (equivalence). \<^verbatim>\<open>compare\<close> always returns, and orders paths as their lists of elements are ordered
  lexicographically; \<^verbatim>\<open>lexicographical_compare\<close> on the iterator ranges is the strict part of it.\<close>

theorem path_compare_order:
  "path_compare p q = Some (if elements_spec p < elements_spec q then -1
     else if elements_spec p = elements_spec q then 0 else 1) \<and>
   lexicographical_compare (elements_spec p) (elements_spec q) = (elements_spec p < elements_spec q)"
proof -
  have Nil_less: "[] < ys \<longleftrightarrow> ys \<noteq> []" for ys :: "string list"
    by (cases ys) simp_all
  have "lexicographical_compare xs ys = (xs < ys)" for xs ys
    by (induction xs ys rule: lexicographical_compare.induct) (auto simp: Nil_less)
  then show ?thesis by (simp add: path_compare_def path_elements_eq compare_elements_order)
qed

section \<open>The normal form\<close>

lemma elements_name: "is_name e \<Longrightarrow> elements_spec e = [e]"
  by (auto simp: elements_spec_def list_all_iff pieces_no_sep)

lemma element_cases:
  assumes "e \<in> set (elements_spec s)"
  obtains "e = [preferred_separator]" | "e = []" | "is_name e"
proof -
  have "list_all is_name (pieces is_separator s)" by (rule pieces_names)
  with assms that show thesis by (auto simp: elements_spec_def list_all_iff split: if_splits)
qed

lemma dots_names [simp]: "is_name dot" "is_name dot_dot" "dot \<noteq> dot_dot"
  by (simp_all add: dot_def dot_dot_def is_separator_def)

lemma element_eq_dot:
  assumes "e \<in> set (elements_spec s)" "is_name d"
  shows "path_eq e d = Some (e = d)"
  using assms(1)
proof (cases rule: element_cases)
  case 1
  with assms(2) show ?thesis
    using elements_name [OF assms(2)] by (auto simp: path_eq_iff elements_spec_def is_separator_def)
next
  case 2
  with assms(2) show ?thesis
    using elements_name [OF assms(2)] by (auto simp: path_eq_iff elements_spec_def [of "[]"])
next
  case 3
  with assms(2) show ?thesis by (simp add: path_eq_iff elements_name)
qed

lemma normal_loop_no_dot_dot:
  assumes "set es \<subseteq> set (elements_spec s)" "dot_dot \<notin> set es"
  shows "normal_loop p es = Some (foldl path_append p (map (\<lambda>e. if e = dot then [] else e) es))"
  using assms
proof (induction es arbitrary: p)
  case (Cons e es)
  then have "path_eq e dot = Some (e = dot)" "path_eq e dot_dot = Some False"
    using element_eq_dot [of e s] by auto
  then have "normal_step p e = Some (path_append p (if e = dot then [] else e))"
    by (simp add: normal_step_def)
  with Cons show ?case by simp
qed simp

text \<open>What appending keeps: no doubled root, and a list of open elements that grows by names only.\<close>

lemma append_no_double_root:
  assumes "\<not> starts_with p ''//''" "e = [] \<or> is_name e"
  shows "\<not> starts_with (path_append p e) ''//''"
proof -
  have e: "e = [] \<or> hd e \<noteq> preferred_separator"
    using assms(2) by (cases e) (auto simp: is_separator_def)
  consider "p = []" | c where "p = [c]" | c d u where "p = c # d # u" by (metis list.exhaust)
  then show ?thesis
    using assms(1) e
    by cases (cases e, auto simp: path_append_def append_separator_if_needed_def is_absolute_def starts_with_def)+
qed

lemma foldl_append_names:
  assumes "list_all (\<lambda>e. e = [] \<or> is_name e) fs" "\<not> starts_with p ''//''"
  shows "open_elements (foldl path_append p fs) = open_elements p @ filter (\<lambda>e. e \<noteq> []) fs \<and>
    \<not> starts_with (foldl path_append p fs) ''//''"
  using assms
proof (induction fs arbitrary: p)
  case (Cons e fs)
  then have "e = [] \<or> is_name e" by simp
  then have "open_elements (path_append p e) = open_elements p @ filter (\<lambda>e. e \<noteq> []) [e]"
    by (cases "e = []") (simp_all add: open_elements_append elements_append_Nil)
  moreover have "\<not> starts_with (path_append p e) ''//''"
    using Cons.prems(2) \<open>e = [] \<or> is_name e\<close> by (rule append_no_double_root)
  moreover have "list_all (\<lambda>e. e = [] \<or> is_name e) fs" using Cons.prems(1) by simp
  ultimately show ?case using Cons.IH [of "path_append p e"] by simp
qed simp

lemma open_elements_empty: "open_elements p = [] \<longleftrightarrow> p = []"
  by (cases p) (auto simp: open_elements_def is_absolute_def is_separator_def pieces_Nil_iff)

lemma last_two_elements:
  assumes "\<not> starts_with p ''//''" "p \<noteq> []"
  shows "\<exists>it. path_prev p (path_end p) = Some it \<and> (it_element it = [] \<longrightarrow>
    (\<exists>it2. path_prev p it = Some it2 \<and> it_element it2 \<in> set (open_elements p)))"
proof -
  let ?it = "last (path_iters p)"
  have it: "path_prev p (path_end p) = Some ?it" by (rule path_prev_end [OF assms(2)])
  have "path_iters p \<noteq> []" using assms(2) by (simp add: path_iters_def)
  then have el: "it_element ?it = last (elements_spec p)"
    by (simp add: path_iters_elements [symmetric] last_map)
  have "\<exists>it2. path_prev p ?it = Some it2 \<and> it_element it2 \<in> set (open_elements p)" if "it_element ?it = []"
  proof -
    have "[] \<notin> set (open_elements p)"
      using pieces_names [of p] by (auto simp: open_elements_def list_all_iff)
    moreover have ne: "open_elements p \<noteq> []" using assms(2) by (simp add: open_elements_empty)
    ultimately have "last (open_elements p) \<noteq> []" by (metis last_in_set)
    with that el have "1 < length p \<and> is_separator (last p)"
      by (simp add: elements_open split: if_splits)
    then have es: "elements_spec p = open_elements p @ [[]]" and "1 < length p" "is_separator (last p)"
      using assms(2) by (simp_all add: elements_open)
    then have "?it = \<lparr>it_pos = length p - 1, it_element = []\<rparr>" using it path_prev_trailing by simp
    moreover have "path_rrange p (path_end p) = Some ([] # rev (open_elements p))"
      using path_reversed_eq [of p] assms(1) es by (simp add: path_reversed_def)
    moreover have "path_rrange p (path_end p) = map_option (\<lambda>es. it_element ?it # es) (path_rrange p ?it)"
      using assms(2) by (intro path_rrange_step [OF _ it]) (simp add: path_end_def)
    ultimately have "path_rrange p ?it = Some (rev (open_elements p))" "it_pos ?it \<noteq> 0"
      using \<open>1 < length p\<close> by (cases "path_rrange p ?it"; simp)+
    then have "\<exists>it2 es. path_prev p ?it = Some it2 \<and> it_element it2 # es = rev (open_elements p)"
      using ne by (subst (asm) path_rrange.simps) (auto simp: bind_eq_Some_conv)
    then show ?thesis by (metis list.set_intros(1) set_rev)
  qed
  with it show ?thesis by blast
qed

lemma drop_dots_elements:
  defines "drop_dots \<equiv> map (\<lambda>e. if e = dot then [] else e)"
  shows "open_elements (foldl path_append [] (drop_dots (elements_spec s))) = filter (\<lambda>e. e \<noteq> dot) (open_elements s) \<and>
    \<not> starts_with (foldl path_append [] (drop_dots (elements_spec s))) ''//''"
proof -
  let ?ns = "pieces is_separator s @ (if s \<noteq> [] \<and> is_separator (last s) \<and> length s > 1 then [[]] else [])"
  have names: "list_all (\<lambda>e. e = [] \<or> is_name e) (drop_dots ?ns)"
    using pieces_names [of s] by (auto simp: list_all_iff drop_dots_def)
  have "filter (\<lambda>e. e \<noteq> []) (drop_dots ns) = filter (\<lambda>e. e \<noteq> dot) ns" if "list_all is_name ns" for ns
    using that by (induction ns) (auto simp: dot_def drop_dots_def)
  from this [OF pieces_names [of s]]
  have "filter (\<lambda>e. e \<noteq> []) (drop_dots ?ns) = filter (\<lambda>e. e \<noteq> dot) (pieces is_separator s)"
    by (simp add: drop_dots_def del: filter_map)
  moreover have "elements_spec s = (if is_absolute s then [[preferred_separator]] else []) @ ?ns"
    by (simp add: elements_open open_elements_def)
  moreover have "[preferred_separator] \<noteq> dot" by (simp add: dot_def)
  ultimately show ?thesis
    using foldl_append_names [OF names, of "if is_absolute s then [preferred_separator] else []"]
    by (auto simp: drop_dots_def open_elements_def [of s] starts_with_def)
qed

text \<open>The last step of \<^verbatim>\<open>lexically_normal\<close> keeps a path that does not end in \<^verbatim>\<open>..\<close> and a separator.\<close>

lemma normal_result:
  assumes "normal_loop [] (elements_spec s) = Some p" "s \<noteq> []" "p \<noteq> []" "\<not> starts_with p ''//''"
    "last (elements_spec p) = [] \<Longrightarrow> dot_dot \<notin> set (open_elements p)"
  shows "lexically_normal s = Some p"
proof -
  have "path_iters p \<noteq> []" using assms(3) by (simp add: path_iters_def)
  then have it: "path_prev p (path_end p) = Some (last (path_iters p))" "it_element (last (path_iters p)) = last (elements_spec p)"
    by (simp_all add: path_prev_end assms(3) path_iters_elements [symmetric] last_map)
  show ?thesis
  proof (cases "last (elements_spec p) = []")
    case True
    with last_two_elements [OF assms(4,3)] it obtain it2
      where it2: "path_prev p (last (path_iters p)) = Some it2" "it_element it2 \<in> set (open_elements p)" by auto
    then have "it_element it2 \<in> set (elements_spec p)" by (simp add: elements_open)
    from element_eq_dot [OF this, of dot_dot] have "path_eq dot_dot (it_element it2) = Some (it_element it2 = dot_dot)"
      by (auto simp: path_eq_iff)
    moreover have "it_element it2 \<noteq> dot_dot" using it2(2) assms(5) [OF True] by metis
    ultimately show ?thesis using it it2(1) True assms(1-3) by (simp add: lexically_normal_def path_elements_eq)
  qed (use it assms(1-3) in \<open>simp add: lexically_normal_def path_elements_eq\<close>)
qed

text \<open>A path without \<^verbatim>\<open>..\<close> is normalised as intended: \<^verbatim>\<open>lexically_normal\<close> returns the path whose
  root and names are those of the argument without the dots, and the dot path when nothing is left.\<close>

lemma path_normal_without_dot_dot:
  assumes "s \<noteq> []" "dot_dot \<notin> set (elements_spec s)"
  shows "\<exists>p. lexically_normal s = Some p \<and>
    (let kept = filter (\<lambda>e. e \<noteq> dot) (open_elements s)
     in if kept = [] then p = dot else open_elements p = kept)"
proof -
  let ?f = "\<lambda>e. if e = dot then [] else e"
  let ?kept = "filter (\<lambda>e. e \<noteq> dot) (open_elements s)"
  define p where "p = foldl path_append [] (map ?f (elements_spec s))"
  have loop: "normal_loop [] (elements_spec s) = Some p"
    using normal_loop_no_dot_dot [of "elements_spec s" s "[]"] assms(2) by (simp add: p_def)
  have op: "open_elements p = ?kept" and dr: "\<not> starts_with p ''//''"
    using drop_dots_elements [of s] by (simp_all add: p_def)
  show ?thesis
  proof (cases "p = []")
    case True
    with op loop assms(1) show ?thesis
      by (simp add: lexically_normal_def path_elements_eq open_elements_empty [symmetric])
  next
    case False
    with op have "?kept \<noteq> []" using open_elements_empty by metis
    moreover have "lexically_normal s = Some p"
      using loop assms(1) False dr by (rule normal_result) (use assms(2) op in \<open>auto simp: elements_open\<close>)
    ultimately show ?thesis using op by (simp add: Let_def)
  qed
qed

text \<open>The absolute path with the given names.\<close>

definition rooted :: "string list \<Rightarrow> string" where
  "rooted ns = concat (map (\<lambda>n. preferred_separator # n) ns)"

text \<open>A name that is not a dot or two.\<close>

definition plain :: "string \<Rightarrow> bool" where
  "plain n = (is_name n \<and> n \<noteq> dot \<and> n \<noteq> dot_dot)"

lemma rooted_simps [simp]: "rooted [] = []" "rooted (n # ns) = preferred_separator # n @ rooted ns" "rooted (ms @ ns) = rooted ms @ rooted ns"
  by (simp_all add: rooted_def)

lemma rooted_empty [simp]: "rooted ns = [] \<longleftrightarrow> ns = []"
  by (cases ns) simp_all

lemma rooted_append: "list_all is_name ns \<Longrightarrow> ns \<noteq> [] \<Longrightarrow> foldl path_append [preferred_separator] ns = rooted ns"
proof (induction ns rule: rev_induct)
  case (snoc n ns)
  then have n: "n \<noteq> []" "\<not> is_absolute n" "hd n \<noteq> preferred_separator" by (cases n; auto simp: is_absolute_def is_separator_def)+
  show ?case
  proof (cases ns rule: rev_cases)
    case Nil
    with n show ?thesis by (simp add: path_append_def append_separator_if_needed_def rooted_def)
  next
    case (snoc ms m)
    with snoc.prems have "m \<noteq> []" "last m \<noteq> preferred_separator" by (cases m rule: rev_cases; auto simp: is_separator_def)+
    with snoc.IH snoc.prems n snoc show ?thesis by (simp add: path_append_def append_separator_if_needed_def)
  qed
qed simp

lemma rooted_elements:
  assumes "list_all is_name ns" "ns \<noteq> []"
  shows "elements_spec (rooted ns) = [preferred_separator] # ns" "open_elements (rooted ns) = [preferred_separator] # ns"
    "elements_spec (rooted ns @ [preferred_separator]) = [preferred_separator] # ns @ [[]]"
    "open_elements (rooted ns @ [preferred_separator]) = [preferred_separator] # ns"
    "\<not> starts_with (rooted ns) ''//''" "\<not> starts_with (rooted ns @ [preferred_separator]) ''//''"
proof -
  have f: "rooted ns = foldl path_append [preferred_separator] ns" using rooted_append [OF assms] by simp
  show e: "elements_spec (rooted ns) = [preferred_separator] # ns" unfolding f using join_names_elements [OF assms] by simp
  show o: "open_elements (rooted ns) = [preferred_separator] # ns" unfolding f using join_names [OF assms(1)] by simp
  obtain ms m where m: "ns = ms @ [m]" using assms(2) by (cases ns rule: rev_cases) auto
  with assms(1) have "last (rooted ns) \<noteq> preferred_separator" by (cases m rule: rev_cases) (auto simp: is_separator_def)
  then have a: "rooted ns @ [preferred_separator] = path_append (rooted ns) []" "rooted ns \<noteq> [preferred_separator]"
    using assms(2) by (auto simp: path_append_def)
  show "elements_spec (rooted ns @ [preferred_separator]) = [preferred_separator] # ns @ [[]]"
    "open_elements (rooted ns @ [preferred_separator]) = [preferred_separator] # ns"
    unfolding a(1) using a(2) assms(2) o by (simp_all add: elements_append_Nil)
  show d: "\<not> starts_with (rooted ns) ''//''"
    unfolding f using foldl_append_names [of ns "[preferred_separator]"] assms(1) by (simp add: list_all_iff starts_with_def)
  show "\<not> starts_with (rooted ns @ [preferred_separator]) ''//''"
    unfolding a(1) using append_no_double_root [OF d] by simp
qed

lemma normal_loop_snoc: "normal_loop p (es @ [e]) = Option.bind (normal_loop p es) (\<lambda>q. normal_step q e)"
  by (induction es arbitrary: p) simp_all

lemma normal_loop_plain:
  assumes "list_all plain ns" "ns \<noteq> []"
  shows "normal_loop [] ([preferred_separator] # ns) = Some (rooted ns)"
proof -
  have ns: "list_all is_name ns" "dot_dot \<notin> set ns" "dot \<notin> set ns" using assms(1) by (auto simp: plain_def list_all_iff)
  have "map (\<lambda>e. if e = dot then [] else e) ([preferred_separator] # ns) = [preferred_separator] # ns"
    using ns(3) by (auto simp: dot_def intro: map_idI)
  moreover have "dot_dot \<notin> set ([preferred_separator] # ns)" using ns(2) by (simp add: dot_dot_def)
  ultimately show ?thesis
    using normal_loop_no_dot_dot [of "[preferred_separator] # ns" "rooted ns" "[]"] rooted_elements(1) [OF ns(1) assms(2)]
      rooted_append [OF ns(1) assms(2)] by simp
qed

lemma plain_eq: "plain n \<Longrightarrow> path_eq n dot = Some False" "plain n \<Longrightarrow> path_eq n dot_dot = Some False"
  "path_eq dot_dot dot = Some False" "path_eq dot_dot dot_dot = Some True" "path_eq [] dot_dot = Some False"
  using elements_name [of dot] elements_name [of dot_dot]
  by (auto simp: plain_def path_eq_iff elements_name elements_spec_def [of "[]"] dest: dots_names(3) [THEN notE, OF sym])

lemma find_last_sep: "list_all (\<lambda>c. \<not> is_separator c) n \<Longrightarrow> find_last_of (p @ preferred_separator # n) preferred_separator = Some (length p)"
proof (induction n rule: rev_induct)
  case Nil
  then show ?case by (simp add: find_last_of_def)
next
  case (snoc c n)
  have "rev [0..<length (p @ preferred_separator # n @ [c])] = length (p @ preferred_separator # n) # rev [0..<length (p @ preferred_separator # n)]"
    by simp
  moreover have "find (\<lambda>i. (p @ preferred_separator # n @ [c]) ! i = preferred_separator) (rev [0..<length (p @ preferred_separator # n)]) =
     find (\<lambda>i. (p @ preferred_separator # n) ! i = preferred_separator) (rev [0..<length (p @ preferred_separator # n)])"
    by (rule find_cong [OF refl]) (metis append.assoc append_Cons nth_append set_rev atLeastLessThan_iff set_upt)
  moreover have "(p @ preferred_separator # n @ [c]) ! length (p @ preferred_separator # n) = c"
    by (metis append.assoc append_Cons nth_append_length)
  ultimately show ?case using snoc by (simp add: find_last_of_def is_separator_def)
qed

lemma not_all_separators: "is_name n \<Longrightarrow> \<not> list_all is_separator (p @ n)" "is_name n \<Longrightarrow> \<not> list_all is_separator (p @ n @ q)"
  by (cases n; auto)+

lemma step_removes:
  assumes "list_all plain ns" "plain n"
  shows "normal_step (rooted (ns @ [n])) dot_dot = Some (rooted ns @ [preferred_separator])"
proof -
  have n: "is_name n" "list_all is_name (ns @ [n])" using assms by (auto simp: plain_def list_all_iff)
  have "object_name (rooted (ns @ [n])) = Some n"
    using decompose(2) [of "rooted (ns @ [n])"] rooted_elements(1) [OF n(2)] not_all_separators(1) [OF n(1), of "rooted ns @ [preferred_separator]"] by simp
  then show ?thesis
    using n(1) by (simp add: normal_step_def plain_eq assms(2) remove_object_name_def find_last_sep)
qed

lemma step_appends:
  assumes "list_all plain ns" "ns \<noteq> []"
  shows "normal_step (rooted ns @ [preferred_separator]) dot_dot = Some (rooted (ns @ [dot_dot]))"
proof -
  have n: "list_all is_name ns" using assms by (auto simp: plain_def list_all_iff)
  obtain ms m where m: "ns = ms @ [m]" using assms(2) by (cases ns rule: rev_cases) auto
  note el = rooted_elements(3) [OF n assms(2)]
  have "object_name (rooted ns @ [preferred_separator]) = Some []"
    using decompose(2) [of "rooted ns @ [preferred_separator]"] el
      not_all_separators(2) [of m "rooted ms @ [preferred_separator]" "[preferred_separator]"] n m by simp
  moreover have "path_eq [preferred_separator] (rooted ns @ [preferred_separator]) = Some False"
    using el by (simp add: path_eq_iff elements_spec_def [of "[preferred_separator]"] is_separator_def)
  moreover have "path_append (rooted ns @ [preferred_separator]) dot_dot = rooted (ns @ [dot_dot])"
    by (simp add: path_append_def append_separator_if_needed_def dot_dot_def is_absolute_def)
  ultimately show ?thesis by (simp add: normal_step_def plain_eq)
qed

text \<open>C28 (functional). How \<^verbatim>\<open>..\<close> is normalised, for all names other than \<^verbatim>\<open>.\<close> and \<^verbatim>\<open>..\<close>. One \<^verbatim>\<open>..\<close> at the end of an
  absolute path removes the name before it and leaves a trailing separator, as it should. A second \<^verbatim>\<open>..\<close> then
  finds no object name and is appended instead of removing the next name, unless only the root is left. And
  a relative path of one name and \<^verbatim>\<open>..\<close> becomes that name. In the last two cases the standard's normal form,
  which the unit test of the function compares it with, is a different path.\<close>

theorem path_normal_dot_dot:
  assumes "list_all plain ns" "plain n"
  shows "lexically_normal (rooted (ns @ [n, dot_dot])) = Some (rooted ns @ [preferred_separator]) \<and>
    (ns \<noteq> [] \<longrightarrow> lexically_normal (rooted (ns @ [n, dot_dot, dot_dot])) = Some (rooted (ns @ [dot_dot]))) \<and>
    lexically_normal (n @ preferred_separator # dot_dot) = Some n"
proof (intro conjI impI)
  have names: "list_all is_name ns" "is_name n" using assms by (auto simp: plain_def list_all_iff)
  have pl: "list_all plain (ns @ [n])" using assms by simp
  have one: "normal_loop [] ([preferred_separator] # ns @ [n, dot_dot]) = Some (rooted ns @ [preferred_separator])"
    using normal_loop_snoc [of "[]" "[preferred_separator] # ns @ [n]" dot_dot] normal_loop_plain [OF pl] step_removes [OF assms]
    by (simp del: normal_loop.simps)
  have el: "elements_spec (rooted (ns @ [n, dot_dot])) = [preferred_separator] # ns @ [n, dot_dot]"
    using rooted_elements(1) [of "ns @ [n, dot_dot]"] names by simp
  show "lexically_normal (rooted (ns @ [n, dot_dot])) = Some (rooted ns @ [preferred_separator])"
  proof (rule normal_result)
    show "\<not> starts_with (rooted ns @ [preferred_separator]) ''//''"
      using rooted_elements(6) [OF names(1)] by (cases "ns = []") (auto simp: starts_with_def)
    have "open_elements (rooted ns @ [preferred_separator]) = [preferred_separator] # ns"
      using rooted_elements(4) [OF names(1)] by (cases "ns = []") auto
    then show "dot_dot \<notin> set (open_elements (rooted ns @ [preferred_separator]))"
      using assms(1) by (auto simp: plain_def list_all_iff dot_dot_def)
  qed (use one el in simp_all)
  show "lexically_normal (rooted (ns @ [n, dot_dot, dot_dot])) = Some (rooted (ns @ [dot_dot]))" if "ns \<noteq> []"
  proof (rule normal_result)
    have "elements_spec (rooted (ns @ [n, dot_dot, dot_dot])) = [preferred_separator] # ns @ [n, dot_dot, dot_dot]"
      using rooted_elements(1) [of "ns @ [n, dot_dot, dot_dot]"] names by simp
    then show "normal_loop [] (elements_spec (rooted (ns @ [n, dot_dot, dot_dot]))) = Some (rooted (ns @ [dot_dot]))"
      using normal_loop_snoc [of "[]" "[preferred_separator] # ns @ [n, dot_dot]" dot_dot] one step_appends [OF assms(1) that]
      by (simp del: normal_loop.simps)
    have d: "list_all is_name (ns @ [dot_dot])" using names by simp
    show "\<not> starts_with (rooted (ns @ [dot_dot])) ''//''" using rooted_elements(5) [OF d] by simp
    show "dot_dot \<notin> set (open_elements (rooted (ns @ [dot_dot])))" if "last (elements_spec (rooted (ns @ [dot_dot]))) = []"
      using that rooted_elements(1) [OF d] by (simp add: dot_dot_def)
  qed (use names in simp_all)
  show "lexically_normal (n @ preferred_separator # dot_dot) = Some n"
  proof (rule normal_result)
    have "n @ preferred_separator # dot_dot = path_append n dot_dot"
      using names(2) by (cases n rule: rev_cases) (auto simp: path_append_def append_separator_if_needed_def dot_dot_def is_absolute_def is_separator_def)
    then have "elements_spec (n @ preferred_separator # dot_dot) = [n, dot_dot]"
      using open_elements_append(2) [of dot_dot n] join_names [of "[n]" "[]"] names(2)
      by (simp add: path_append_def append_separator_if_needed_def split: if_splits)
    moreover have "object_name n = Some n"
      using decompose(2) [of n] not_all_separators(1) [OF names(2), of "[]"] by (simp add: elements_name [OF names(2)])
    moreover have "find_last_of n preferred_separator = None"
      using names(2) by (auto simp: find_last_of_def find_None_iff list_all_iff is_separator_def)
    moreover have "path_append [] n = n" using names(2) by (cases n) (auto simp: path_append_def append_separator_if_needed_def is_absolute_def is_separator_def)
    ultimately show "normal_loop [] (elements_spec (n @ preferred_separator # dot_dot)) = Some n"
      using names(2) by (simp add: normal_step_def plain_eq assms(2) remove_object_name_def)
    show "\<not> starts_with n ''//''" using names(2) by (cases n) (auto simp: starts_with_def is_separator_def)
    show "dot_dot \<notin> set (open_elements n)" if "last (elements_spec n) = []"
      using that names(2) by (simp add: elements_name)
  qed (use names(2) in simp_all)
qed

theorem path_normal_dot_dot_witness:
  "lexically_normal ''/a/b/../..'' = Some ''/a/..'' \<and> lexically_normal ''a/..'' = Some ''a''"
  using path_normal_dot_dot [of "[''a'']" "''b''"] path_normal_dot_dot [of "[]" "''a''"]
  by (simp add: plain_def dot_def dot_dot_def is_separator_def)

end
