(* ===== verification/Std_Number.thy ===== *)
theory Std_Number
  imports Prelude "HOL-Library.Word"
begin

text \<open>
  Numbers as text: \<^verbatim>\<open>std::to_string\<close>, \<^verbatim>\<open>std::stoi\<close>, \<^verbatim>\<open>std::stoul\<close> and \<^verbatim>\<open>strtoll\<close>. The first two parsers skip white space, read an
  optional sign and the longest run of digits, ignore what follows, and throw when there is no digit
  or the value does not fit. \<^verbatim>\<open>std::stoul\<close> negates in 64 bits.
\<close>

definition digit_char :: "nat \<Rightarrow> char" where
  "digit_char d = char_of (48 + d)"

definition is_digit :: "char \<Rightarrow> bool" where
  "is_digit c = (48 \<le> (of_char c :: nat) \<and> (of_char c :: nat) \<le> 57)"

definition digit_value :: "char \<Rightarrow> nat" where
  "digit_value c = of_char c - 48"

definition is_space :: "char \<Rightarrow> bool" where
  "is_space c = ((of_char c :: nat) = 32 \<or> (9 \<le> (of_char c :: nat) \<and> (of_char c :: nat) \<le> 13))"

fun decimal :: "nat \<Rightarrow> string" where
  "decimal n = (if n < 10 then [digit_char n] else decimal (n div 10) @ [digit_char (n mod 10)])"

definition to_string :: "int \<Rightarrow> string" where
  "to_string i = (if i < 0 then CHR ''-'' # decimal (nat (- i)) else decimal (nat i))"

definition digits_value :: "string \<Rightarrow> nat" where
  "digits_value ds = foldl (\<lambda>a c. 10 * a + digit_value c) 0 ds"

text \<open>The sign and the magnitude of the number at the start of a text.\<close>

definition scan_number :: "string \<Rightarrow> (bool \<times> nat) option" where
  "scan_number s =
     (let t = dropWhile is_space s;
          neg = (t \<noteq> [] \<and> hd t = CHR ''-'');
          u = (if t \<noteq> [] \<and> (hd t = CHR ''-'' \<or> hd t = CHR ''+'') then tl t else t);
          ds = takeWhile is_digit u
      in if ds = [] then None else Some (neg, digits_value ds))"

definition stoi :: "string \<Rightarrow> int throws" where
  "stoi s = (case scan_number s of
      None \<Rightarrow> Inl std_exception
    | Some (neg, n) \<Rightarrow>
        let v = (if neg then - int n else int n)
        in if - (2 ^ 31) \<le> v \<and> v < 2 ^ 31 then Inr v else Inl std_exception)"

definition stoul :: "string \<Rightarrow> 64 word throws" where
  "stoul s = (case scan_number s of
      None \<Rightarrow> Inl std_exception
    | Some (neg, n) \<Rightarrow>
        if n < 2 ^ 64 then Inr (if neg then - of_nat n else of_nat n) else Inl std_exception)"

text \<open>\<^verbatim>\<open>strtoll\<close> with base 0: a leading \<^verbatim>\<open>0x\<close> before a hexadecimal digit selects base 16, another leading \<^verbatim>\<open>0\<close> base 8. A text
  without digits gives 0, and a value out of range the nearest one that fits.\<close>

definition hex_value :: "char \<Rightarrow> nat option" where
  "hex_value c = (let n = of_char c in
     if is_digit c then Some (n - 48) else if 97 \<le> n \<and> n \<le> 102 then Some (n - 87)
     else if 65 \<le> n \<and> n \<le> 70 then Some (n - 55) else None)"

definition is_radix_digit :: "nat \<Rightarrow> char \<Rightarrow> bool" where
  "is_radix_digit b c = (case hex_value c of None \<Rightarrow> False | Some n \<Rightarrow> n < b)"

definition radix_value :: "nat \<Rightarrow> string \<Rightarrow> nat" where
  "radix_value b ds = foldl (\<lambda>a c. b * a + the (hex_value c)) 0 ds"

definition strtoll :: "string \<Rightarrow> int" where
  "strtoll s =
     (let t = dropWhile is_space s;
          neg = (t \<noteq> [] \<and> hd t = CHR ''-'');
          u = (if t \<noteq> [] \<and> (hd t = CHR ''-'' \<or> hd t = CHR ''+'') then tl t else t);
          hex = (length u > 2 \<and> u ! 0 = CHR ''0'' \<and> (u ! 1 = CHR ''x'' \<or> u ! 1 = CHR ''X'') \<and> is_radix_digit 16 (u ! 2));
          b = (if hex then 16 else if u \<noteq> [] \<and> hd u = CHR ''0'' then 8 else 10);
          n = int (radix_value b (takeWhile (is_radix_digit b) (if hex then drop 2 u else u)))
      in max (- (2 ^ 63)) (min (2 ^ 63 - 1) (if neg then - n else n)))"

section \<open>Printing and parsing\<close>

declare decimal.simps [simp del]

lemma digit_char_simps [simp]:
  assumes "d < 10"
  shows "is_digit (digit_char d)" "digit_value (digit_char d) = d"
    "\<not> is_space (digit_char d)" "digit_char d \<noteq> CHR ''-''" "digit_char d \<noteq> CHR ''+''"
proof -
  have d: "(of_char (digit_char d) :: nat) = 48 + d" using assms by (simp add: digit_char_def)
  then show "is_digit (digit_char d)" "digit_value (digit_char d) = d" "\<not> is_space (digit_char d)"
    using assms by (simp_all add: is_digit_def digit_value_def is_space_def)
  show "digit_char d \<noteq> CHR ''-''" "digit_char d \<noteq> CHR ''+''" using d by auto
qed

lemma decimal_digits: "list_all is_digit (decimal n)"
  by (induction n rule: decimal.induct) (subst decimal.simps, simp)

lemma decimal_not_Nil [simp]: "decimal n \<noteq> []"
  by (subst decimal.simps) simp

lemma decimal_hd: "\<exists>d < 10. hd (decimal n) = digit_char d"
proof (induction n rule: decimal.induct)
  case (1 n)
  show ?case
  proof (cases "n < 10")
    case True then show ?thesis by (subst decimal.simps) auto
  next
    case False with 1 show ?thesis by (subst decimal.simps) simp
  qed
qed

lemma digits_value_decimal [simp]: "digits_value (decimal n) = n"
proof (induction n rule: decimal.induct)
  case (1 n)
  then show ?case by (cases "n < 10") (subst decimal.simps, simp add: digits_value_def)+
qed

lemma takeWhile_decimal: "takeWhile is_digit (decimal n) = decimal n"
  using decimal_digits [of n] by (simp add: takeWhile_eq_all_conv list_all_iff)

lemma scan_to_string: "scan_number (to_string i) = Some (i < 0, nat \<bar>i\<bar>)"
proof -
  obtain d where d: "d < 10" "hd (decimal (nat \<bar>i\<bar>)) = digit_char d" using decimal_hd by blast
  have minus: "\<not> is_space CHR ''-''" by (simp add: is_space_def)
  have t: "dropWhile is_space (to_string i) = to_string i"
    using d minus by (cases "decimal (nat \<bar>i\<bar>)") (auto simp: to_string_def)
  show ?thesis
  proof (cases "i < 0")
    case True
    with t minus show ?thesis
      by (simp add: scan_number_def to_string_def Let_def takeWhile_decimal)
  next
    case False
    with t d show ?thesis
      by (simp add: scan_number_def to_string_def Let_def takeWhile_decimal)
  qed
qed

lemma stoi_to_string [simp]: "- (2 ^ 31) \<le> i \<Longrightarrow> i < 2 ^ 31 \<Longrightarrow> stoi (to_string i) = Inr i"
  by (simp add: stoi_def scan_to_string)

lemma stoul_to_string [simp]:
  "- (2 ^ 63) \<le> i \<Longrightarrow> i < 2 ^ 63 \<Longrightarrow> stoul (to_string i) = Inr (word_of_int i)"
  by (simp add: stoul_def scan_to_string nat_less_iff)

lemma sint_word_of_int_64 [simp]: "- (2 ^ 63) \<le> i \<Longrightarrow> i < 2 ^ 63 \<Longrightarrow> sint (word_of_int i :: 64 word) = i"
  by (simp add: signed_of_int signed_take_bit_int_eq_self)

end
