(* ===== verification/Replica_Proxy.thy ===== *)
theory Replica_Proxy
  imports Std_Map Std_Number Path_Lexical
begin

text \<open>
  A replica seen through \<^verbatim>\<open>replica_proxy\<close> (\<^verbatim>\<open>lib/core/include/irods/replica_proxy.hpp\<close>) and a data object seen
  through \<^verbatim>\<open>data_object_proxy\<close> (\<^verbatim>\<open>lib/core/include/irods/data_object_proxy.hpp\<close>). A \<^verbatim>\<open>DataObjInfo\<close> is a record of
  the members the proxies reach; a \<^verbatim>\<open>char\<close> array is the C string it holds. The \<^verbatim>\<open>next\<close> pointers link the replicas
  of one data object, which is the list of them. A JSON object with string members is a map from
  strings to strings; reading an absent member throws an exception of the JSON library.
\<close>

section \<open>The structure\<close>

abbreviation (input) TIME_LEN :: nat where "TIME_LEN \<equiv> 32"
abbreviation (input) SHORT_STR_LEN :: nat where "SHORT_STR_LEN \<equiv> 32"
abbreviation (input) NAME_LEN :: nat where "NAME_LEN \<equiv> 64"
abbreviation (input) CHKSUM_LEN :: nat where "CHKSUM_LEN \<equiv> 64"
abbreviation (input) LONG_NAME_LEN :: nat where "LONG_NAME_LEN \<equiv> 256"
abbreviation (input) MAX_NAME_LEN :: nat where "MAX_NAME_LEN \<equiv> 1088"

abbreviation (input) STALE_REPLICA :: int where "STALE_REPLICA \<equiv> 0"
abbreviation (input) GOOD_REPLICA :: int where "GOOD_REPLICA \<equiv> 1"
abbreviation (input) INTERMEDIATE_REPLICA :: int where "INTERMEDIATE_REPLICA \<equiv> 2"
abbreviation (input) READ_LOCKED :: int where "READ_LOCKED \<equiv> 3"
abbreviation (input) WRITE_LOCKED :: int where "WRITE_LOCKED \<equiv> 4"

abbreviation (input) SYS_INTERNAL_NULL_INPUT_ERR :: int where "SYS_INTERNAL_NULL_INPUT_ERR \<equiv> - 24000"
abbreviation (input) USER_STRLEN_TOOLONG :: int where "USER_STRLEN_TOOLONG \<equiv> - 306000"

record DataObjInfo =
  objPath :: string
  rescName :: string
  rescHier :: string
  dataType :: string
  dataSize :: int
  chksum :: string
  version :: string
  filePath :: string
  dataOwnerName :: string
  dataOwnerZone :: string
  replNum :: int
  replStatus :: int
  statusString :: string
  dataId :: int
  collId :: int
  dataMapId :: int
  dataComments :: string
  dataMode :: string
  dataExpiry :: string
  dataCreate :: string
  dataModify :: string
  in_pdmo :: string
  rescId :: int
  dataAccessTime :: string

definition empty_doi :: DataObjInfo where
    "empty_doi = \<lparr>objPath = [], rescName = [], rescHier = [], dataType = [], dataSize = 0,
     chksum = [], version = [], filePath = [], dataOwnerName = [], dataOwnerZone = [], replNum = 0,
     replStatus = 0, statusString = [], dataId = 0, collId = 0, dataMapId = 0, dataComments = [],
     dataMode = [], dataExpiry = [], dataCreate = [], dataModify = [], in_pdmo = [], rescId = 0,
     dataAccessTime = []\<rparr>"

section \<open>Reading and writing one replica\<close>

definition at_rest :: "DataObjInfo \<Rightarrow> bool" where
  "at_rest r = (INTERMEDIATE_REPLICA \<noteq> replStatus r)"

definition replica_locked :: "DataObjInfo \<Rightarrow> bool" where
  "replica_locked r = (READ_LOCKED = replStatus r \<or> WRITE_LOCKED = replStatus r)"

text \<open>\<^verbatim>\<open>snprintf\<close> with \<^verbatim>\<open>%s\<close> copies up to the first null character.\<close>

definition c_str :: "string \<Rightarrow> string" where
  "c_str s = takeWhile (\<lambda>c. c \<noteq> CHR 0x00) s"

definition set_string_property :: "string \<Rightarrow> nat \<Rightarrow> string throws" where
  "set_string_property src dst_size =
     (if length src \<ge> dst_size then Inl (irods_exception USER_STRLEN_TOOLONG) else Inr (c_str src))"

type_synonym doi_update = "DataObjInfo \<Rightarrow> DataObjInfo throws"

definition set_logical_path :: "string \<Rightarrow> doi_update" where
  "set_logical_path s r = tbind (set_string_property s MAX_NAME_LEN) (\<lambda>v. Inr (r\<lparr>objPath := v\<rparr>))"

definition set_resource :: "string \<Rightarrow> doi_update" where
  "set_resource s r = tbind (set_string_property s NAME_LEN) (\<lambda>v. Inr (r\<lparr>rescName := v\<rparr>))"

definition set_hierarchy :: "string \<Rightarrow> doi_update" where
  "set_hierarchy s r = tbind (set_string_property s MAX_NAME_LEN) (\<lambda>v. Inr (r\<lparr>rescHier := v\<rparr>))"

definition set_type :: "string \<Rightarrow> doi_update" where
  "set_type s r = tbind (set_string_property s NAME_LEN) (\<lambda>v. Inr (r\<lparr>dataType := v\<rparr>))"

definition set_checksum :: "string \<Rightarrow> doi_update" where
  "set_checksum s r = tbind (set_string_property s CHKSUM_LEN) (\<lambda>v. Inr (r\<lparr>chksum := v\<rparr>))"

definition set_version :: "string \<Rightarrow> doi_update" where
  "set_version s r = tbind (set_string_property s NAME_LEN) (\<lambda>v. Inr (r\<lparr>version := v\<rparr>))"

definition set_physical_path :: "string \<Rightarrow> doi_update" where
  "set_physical_path s r = tbind (set_string_property s MAX_NAME_LEN) (\<lambda>v. Inr (r\<lparr>filePath := v\<rparr>))"

definition set_owner_user_name :: "string \<Rightarrow> doi_update" where
  "set_owner_user_name s r = tbind (set_string_property s NAME_LEN) (\<lambda>v. Inr (r\<lparr>dataOwnerName := v\<rparr>))"

definition set_owner_zone_name :: "string \<Rightarrow> doi_update" where
  "set_owner_zone_name s r = tbind (set_string_property s NAME_LEN) (\<lambda>v. Inr (r\<lparr>dataOwnerZone := v\<rparr>))"

definition set_comments :: "string \<Rightarrow> doi_update" where
  "set_comments s r = tbind (set_string_property s LONG_NAME_LEN) (\<lambda>v. Inr (r\<lparr>dataComments := v\<rparr>))"

definition set_atime :: "string \<Rightarrow> doi_update" where
  "set_atime s r = tbind (set_string_property s TIME_LEN) (\<lambda>v. Inr (r\<lparr>dataAccessTime := v\<rparr>))"

definition set_ctime :: "string \<Rightarrow> doi_update" where
  "set_ctime s r = tbind (set_string_property s TIME_LEN) (\<lambda>v. Inr (r\<lparr>dataCreate := v\<rparr>))"

definition set_mtime :: "string \<Rightarrow> doi_update" where
  "set_mtime s r = tbind (set_string_property s TIME_LEN) (\<lambda>v. Inr (r\<lparr>dataModify := v\<rparr>))"

definition set_in_pdmo :: "string \<Rightarrow> doi_update" where
  "set_in_pdmo s r = tbind (set_string_property s MAX_NAME_LEN) (\<lambda>v. Inr (r\<lparr>in_pdmo := v\<rparr>))"

definition set_status :: "string \<Rightarrow> doi_update" where
  "set_status s r = tbind (set_string_property s NAME_LEN) (\<lambda>v. Inr (r\<lparr>statusString := v\<rparr>))"

definition set_mode :: "string \<Rightarrow> doi_update" where
  "set_mode s r = tbind (set_string_property s SHORT_STR_LEN) (\<lambda>v. Inr (r\<lparr>dataMode := v\<rparr>))"

definition set_data_expiry :: "string \<Rightarrow> doi_update" where
  "set_data_expiry s r = tbind (set_string_property s TIME_LEN) (\<lambda>v. Inr (r\<lparr>dataExpiry := v\<rparr>))"

definition set_size :: "int \<Rightarrow> doi_update" where
  "set_size v r = Inr (r\<lparr>dataSize := v\<rparr>)"

definition set_replica_number :: "int \<Rightarrow> doi_update" where
  "set_replica_number v r = Inr (r\<lparr>replNum := v\<rparr>)"

definition set_replica_status :: "int \<Rightarrow> doi_update" where
  "set_replica_status v r = Inr (r\<lparr>replStatus := v\<rparr>)"

definition set_data_id :: "int \<Rightarrow> doi_update" where
  "set_data_id v r = Inr (r\<lparr>dataId := v\<rparr>)"

definition set_collection_id :: "int \<Rightarrow> doi_update" where
  "set_collection_id v r = Inr (r\<lparr>collId := v\<rparr>)"

definition set_resource_id :: "int \<Rightarrow> doi_update" where
  "set_resource_id v r = Inr (r\<lparr>rescId := v\<rparr>)"

definition set_map_id :: "int \<Rightarrow> doi_update" where
  "set_map_id v r = Inr (r\<lparr>dataMapId := v\<rparr>)"

lemmas doi_setters = set_logical_path_def set_resource_def set_hierarchy_def set_type_def
  set_checksum_def set_version_def set_physical_path_def set_owner_user_name_def
  set_owner_zone_name_def set_comments_def set_atime_def set_ctime_def set_mtime_def set_in_pdmo_def
  set_status_def set_mode_def set_data_expiry_def set_size_def set_replica_number_def
  set_replica_status_def set_data_id_def set_collection_id_def set_resource_id_def set_map_id_def

text \<open>Statements executed one after the other; an exception ends the sequence.\<close>

fun do_all :: "doi_update list \<Rightarrow> doi_update" where
  "do_all [] r = Inr r"
| "do_all (f # fs) r = tbind (f r) (do_all fs)"

section \<open>JSON\<close>

type_synonym attrs = "(string, string) std_map"

definition json_object :: "(string \<times> string) list \<Rightarrow> attrs" where
  "json_object es = foldl (\<lambda>m e. map_set (fst e) (snd e) m) [] es"

definition json_at :: "attrs \<Rightarrow> string \<Rightarrow> string throws" where
  "json_at j k = from_option json_exception (map_find j k)"

definition to_json :: "DataObjInfo \<Rightarrow> attrs throws" where
  "to_json r = tbind (from_option std_exception (object_name (objPath r))) (\<lambda>data_name. Inr (json_object
     [(''data_id'', to_string (dataId r)),
      (''coll_id'', to_string (collId r)),
      (''data_name'', data_name),
      (''data_repl_num'', to_string (replNum r)),
      (''data_version'', version r),
      (''data_type_name'', dataType r),
      (''data_size'', to_string (dataSize r)),
      (''data_path'', filePath r),
      (''data_owner_name'', dataOwnerName r),
      (''data_owner_zone'', dataOwnerZone r),
      (''data_is_dirty'', to_string (replStatus r)),
      (''data_status'', statusString r),
      (''data_checksum'', chksum r),
      (''data_expiry_ts'', dataExpiry r),
      (''data_map_id'', to_string (dataMapId r)),
      (''data_mode'', dataMode r),
      (''r_comment'', dataComments r),
      (''access_ts'', dataAccessTime r),
      (''create_ts'', dataCreate r),
      (''modify_ts'', dataModify r),
      (''resc_id'', to_string (rescId r))]))"

definition from_string :: "string throws \<Rightarrow> (string \<Rightarrow> doi_update) \<Rightarrow> doi_update" where
  "from_string s set_field r = tbind s (\<lambda>v. set_field v r)"

definition from_int :: "string throws \<Rightarrow> (int \<Rightarrow> doi_update) \<Rightarrow> doi_update" where
  "from_int s set_field r = tbind (tbind s stoi) (\<lambda>v. set_field v r)"

definition from_ulong :: "string throws \<Rightarrow> (int \<Rightarrow> doi_update) \<Rightarrow> doi_update" where
  "from_ulong s set_field r = tbind (tbind s stoul) (\<lambda>v. set_field (sint v) r)"

definition json_statements :: "string \<Rightarrow> attrs \<Rightarrow> doi_update list" where
  "json_statements path j =
     [from_ulong (json_at j ''data_id'') set_data_id,
      from_ulong (json_at j ''coll_id'') set_collection_id,
      from_int (json_at j ''data_repl_num'') set_replica_number,
      from_string (json_at j ''data_version'') set_version,
      from_string (json_at j ''data_type_name'') set_type,
      from_ulong (json_at j ''data_size'') set_size,
      from_string (json_at j ''data_path'') set_physical_path,
      from_string (json_at j ''data_owner_name'') set_owner_user_name,
      from_string (json_at j ''data_owner_zone'') set_owner_zone_name,
      from_int (json_at j ''data_is_dirty'') set_replica_status,
      from_string (json_at j ''data_status'') set_status,
      from_string (json_at j ''data_checksum'') set_checksum,
      from_string (json_at j ''data_expiry_ts'') set_data_expiry,
      from_int (json_at j ''data_map_id'') set_map_id,
      from_string (json_at j ''data_mode'') set_mode,
      from_string (json_at j ''r_comment'') set_comments,
      from_string (json_at j ''access_ts'') set_atime,
      from_string (json_at j ''create_ts'') set_ctime,
      from_string (json_at j ''modify_ts'') set_mtime,
      from_ulong (json_at j ''resc_id'') set_resource_id,
      set_logical_path path]"

definition make_replica_proxy :: "string \<Rightarrow> attrs \<Rightarrow> DataObjInfo throws" where
  "make_replica_proxy path j = do_all (json_statements path j) empty_doi"

section \<open>Rows of a catalog query\<close>

text \<open>\<open>row ! i\<close> for the columns of \<^verbatim>\<open>genquery_column_index\<close>. The caller supplies rows with a value for every
  column. Whatever is thrown is reported as \<^verbatim>\<open>SYS_LIBRARY_ERROR\<close>.\<close>

definition col :: "string list \<Rightarrow> nat \<Rightarrow> string throws" where
  "col row i = Inr (row ! i)"

definition row_statements :: "string list \<Rightarrow> doi_update list" where
  "row_statements row =
     [from_ulong (col row 0) set_data_id,
      from_ulong (col row 1) set_collection_id,
      from_int (col row 3) set_replica_number,
      from_string (col row 4) set_version,
      from_string (col row 5) set_type,
      from_ulong (col row 6) set_size,
      from_string (col row 8) set_physical_path,
      from_string (col row 9) set_owner_user_name,
      from_string (col row 10) set_owner_zone_name,
      from_int (col row 11) set_replica_status,
      from_string (col row 12) set_status,
      from_string (col row 13) set_checksum,
      from_string (col row 20) set_mode,
      from_string (col row 16) set_comments,
      from_string (col row 17) set_atime,
      from_string (col row 18) set_ctime,
      from_string (col row 19) set_mtime,
      from_ulong (col row 22) set_resource_id,
      from_string (col row 14) set_data_expiry,
      from_int (col row 15) set_map_id,
      from_string (col row 7) set_resource,
      from_string (col row 21) set_hierarchy,
      set_logical_path (c_str (path_append (row ! 23) (row ! 2)))]"

definition populate_struct_from_results :: "string list \<Rightarrow> doi_update" where
  "populate_struct_from_results row r = (case do_all (row_statements row) r of
     Inl e \<Rightarrow> Inl (irods_exception SYS_LIBRARY_ERROR)
   | Inr r' \<Rightarrow> Inr r')"

section \<open>Data objects\<close>

text \<open>A mutator of the data object runs a mutator of every replica, in order; replicas changed before an
  exception stay changed.\<close>

fun each_replica :: "doi_update \<Rightarrow> DataObjInfo list \<Rightarrow> unit throws \<times> DataObjInfo list" where
  "each_replica f [] = (Inr (), [])"
| "each_replica f (r # rs) = (case f r of
      Inl e \<Rightarrow> (Inl e, r # rs)
    | Inr r' \<Rightarrow> (case each_replica f rs of (x, rs') \<Rightarrow> (x, r' # rs')))"

definition dop_data_id :: "int \<Rightarrow> DataObjInfo list \<Rightarrow> unit throws \<times> DataObjInfo list" where
  "dop_data_id v = each_replica (set_data_id v)"

definition dop_owner_user_name :: "string \<Rightarrow> DataObjInfo list \<Rightarrow> unit throws \<times> DataObjInfo list" where
  "dop_owner_user_name un = each_replica (set_owner_user_name un)"

definition dop_owner_zone_name :: "string \<Rightarrow> DataObjInfo list \<Rightarrow> unit throws \<times> DataObjInfo list" where
  "dop_owner_zone_name zn = each_replica (set_owner_zone_name zn)"

fun dop_rename :: "int \<Rightarrow> string \<Rightarrow> DataObjInfo list \<Rightarrow> unit throws \<times> DataObjInfo list" where
  "dop_rename c p [] = (Inr (), [])"
| "dop_rename c p (r # rs) =
     (let r1 = r\<lparr>collId := c\<rparr> in
      case set_logical_path p r1 of
        Inl e \<Rightarrow> (Inl e, r1 # rs)
      | Inr r2 \<Rightarrow> (case dop_rename c p rs of (x, rs') \<Rightarrow> (x, r2 # rs')))"

definition dop_locked :: "DataObjInfo list \<Rightarrow> bool" where
  "dop_locked rs = list_ex replica_locked rs"

definition add_replica :: "DataObjInfo \<Rightarrow> DataObjInfo list \<Rightarrow> DataObjInfo list" where
  "add_replica r rs = rs @ [r]"

definition find_replica_hier :: "string \<Rightarrow> DataObjInfo list \<Rightarrow> DataObjInfo option" where
  "find_replica_hier h rs = List.find (\<lambda>r. rescHier r = h) rs"

definition find_replica_number :: "int \<Rightarrow> DataObjInfo list \<Rightarrow> DataObjInfo option" where
  "find_replica_number n rs = List.find (\<lambda>r. replNum r = n) rs"

fun populate_rows :: "string list list \<Rightarrow> DataObjInfo list throws" where
  "populate_rows [] = Inr []"
| "populate_rows (row # rows) = tbind (populate_struct_from_results row empty_doi)
     (\<lambda>r. tbind (populate_rows rows) (\<lambda>rs. Inr (r # rs)))"

definition make_data_object_proxy_impl :: "string list list \<Rightarrow> DataObjInfo list throws" where
  "make_data_object_proxy_impl rows = tbind (populate_rows rows)
     (\<lambda>rs. if rs = [] then Inl (irods_exception SYS_INTERNAL_ERR) else Inr rs)"

text \<open>\<open>None\<close> is a null pointer in the list of JSON values.\<close>

fun replicas_of_json :: "string \<Rightarrow> attrs option list \<Rightarrow> DataObjInfo list throws" where
  "replicas_of_json path [] = Inr []"
| "replicas_of_json path (None # js) = Inl (irods_exception SYS_INTERNAL_NULL_INPUT_ERR)"
| "replicas_of_json path (Some j # js) = tbind (make_replica_proxy path j)
     (\<lambda>r. tbind (replicas_of_json path js) (\<lambda>rs. Inr (r # rs)))"

definition make_data_object_proxy :: "string \<Rightarrow> attrs option list \<Rightarrow> DataObjInfo list throws" where
  "make_data_object_proxy path js =
     (if js = [] then Inl (irods_exception SYS_INVALID_INPUT_PARAM)
      else tbind (replicas_of_json path js)
        (\<lambda>rs. if rs = [] then Inl (irods_exception SYS_INTERNAL_ERR) else Inr rs))"

section \<open>Well-formed structures\<close>

definition fits :: "nat \<Rightarrow> string \<Rightarrow> bool" where
  "fits n s = (length s < n \<and> CHR 0x00 \<notin> set s)"

definition int32 :: "int \<Rightarrow> bool" where
  "int32 i = (- (2 ^ 31) \<le> i \<and> i < 2 ^ 31)"

definition int64 :: "int \<Rightarrow> bool" where
  "int64 i = (- (2 ^ 63) \<le> i \<and> i < 2 ^ 63)"

definition doi_ok :: "DataObjInfo \<Rightarrow> bool" where
  "doi_ok r = (
     fits MAX_NAME_LEN (objPath r) \<and> fits NAME_LEN (rescName r) \<and> fits MAX_NAME_LEN (rescHier r) \<and>
     fits NAME_LEN (dataType r) \<and> int64 (dataSize r) \<and> fits CHKSUM_LEN (chksum r) \<and> fits NAME_LEN (version r) \<and>
     fits MAX_NAME_LEN (filePath r) \<and> fits NAME_LEN (dataOwnerName r) \<and> fits NAME_LEN (dataOwnerZone r) \<and>
     int32 (replNum r) \<and> int32 (replStatus r) \<and> fits NAME_LEN (statusString r) \<and> int64 (dataId r) \<and>
     int64 (collId r) \<and> int32 (dataMapId r) \<and> fits LONG_NAME_LEN (dataComments r) \<and>
     fits SHORT_STR_LEN (dataMode r) \<and> fits TIME_LEN (dataExpiry r) \<and> fits TIME_LEN (dataCreate r) \<and>
     fits TIME_LEN (dataModify r) \<and> fits MAX_NAME_LEN (in_pdmo r) \<and> int64 (rescId r) \<and>
     fits TIME_LEN (dataAccessTime r))"

lemma fits_set_string: "set_string_property s n = Inr v \<Longrightarrow> fits n v"
  by (auto simp: set_string_property_def c_str_def fits_def split: if_splits
      dest: set_takeWhileD intro: le_less_trans [OF length_takeWhile_le])

lemma set_string_fits: "fits n s \<Longrightarrow> set_string_property s n = Inr s"
  by (auto simp: set_string_property_def c_str_def fits_def takeWhile_eq_all_conv)

lemma int64_sint: "int64 (sint (w :: 64 word))"
  using sint_ge [of w] sint_lt [of w] by (simp add: int64_def)

lemma int32_stoi: "stoi s = Inr v \<Longrightarrow> int32 v"
  by (auto simp: stoi_def int32_def Let_def split: option.splits if_splits prod.splits)

text \<open>\<open>keeps f\<close>: the statement \<open>f\<close> keeps a structure well-formed.\<close>

definition keeps :: "doi_update \<Rightarrow> bool" where
  "keeps f = (\<forall>r r'. doi_ok r \<longrightarrow> f r = Inr r' \<longrightarrow> doi_ok r')"

lemma keeps_do_all: "list_all keeps fs \<Longrightarrow> keeps (do_all fs)"
proof (induction fs)
  case (Cons f fs)
  then have "keeps f" "keeps (do_all fs)" by simp_all
  then show ?case unfolding keeps_def do_all.simps tbind_eq_Inr by blast
qed (simp add: keeps_def)

lemma keeps_string: "(\<And>s. keeps (f s)) \<Longrightarrow> keeps (from_string x f)"
  by (auto simp: keeps_def from_string_def tbind_eq_Inr)

lemma keeps_int: "(\<And>v. int32 v \<Longrightarrow> keeps (f v)) \<Longrightarrow> keeps (from_int x f)"
  unfolding keeps_def from_int_def tbind_eq_Inr using int32_stoi by blast

lemma keeps_ulong: "(\<And>v. int64 v \<Longrightarrow> keeps (f v)) \<Longrightarrow> keeps (from_ulong x f)"
  unfolding keeps_def from_ulong_def tbind_eq_Inr using int64_sint by blast

lemma keeps_string_setters:
  "keeps (set_logical_path s)" "keeps (set_resource s)" "keeps (set_hierarchy s)" "keeps (set_type s)"
  "keeps (set_checksum s)" "keeps (set_version s)" "keeps (set_physical_path s)" "keeps (set_owner_user_name s)"
  "keeps (set_owner_zone_name s)" "keeps (set_comments s)" "keeps (set_atime s)" "keeps (set_ctime s)"
  "keeps (set_mtime s)" "keeps (set_in_pdmo s)" "keeps (set_status s)" "keeps (set_mode s)" "keeps (set_data_expiry s)"
  by (auto simp: keeps_def doi_setters doi_ok_def tbind_eq_Inr dest: fits_set_string)

lemma keeps_int_setters:
  "int32 v \<Longrightarrow> keeps (set_replica_number v)" "int32 v \<Longrightarrow> keeps (set_replica_status v)" "int32 v \<Longrightarrow> keeps (set_map_id v)"
  "int64 w \<Longrightarrow> keeps (set_size w)" "int64 w \<Longrightarrow> keeps (set_data_id w)" "int64 w \<Longrightarrow> keeps (set_collection_id w)"
  "int64 w \<Longrightarrow> keeps (set_resource_id w)"
  by (auto simp: keeps_def doi_setters doi_ok_def)

lemmas keeps_intros = keeps_do_all keeps_string keeps_int keeps_ulong keeps_string_setters keeps_int_setters

lemma keeps_statements:
  "list_all keeps (json_statements path j)" "list_all keeps (row_statements row)"
  by (simp_all add: json_statements_def row_statements_def keeps_intros)

lemma doi_ok_empty: "doi_ok empty_doi"
  by (simp add: doi_ok_def empty_doi_def fits_def int32_def int64_def)

text \<open>C29 (type). Whatever JSON object or query row a replica is built from, the result is well-formed: no text
  reaches the end of its buffer, and every number fits its member. Where a value does not fit, the
  construction throws instead.\<close>

theorem replica_construction_ok:
  "(case make_replica_proxy path j of Inl e \<Rightarrow> True | Inr r \<Rightarrow> doi_ok r) \<and>
   (case populate_struct_from_results row empty_doi of Inl e \<Rightarrow> e = irods_exception SYS_LIBRARY_ERROR | Inr r \<Rightarrow> doi_ok r)"
proof -
  have run: "doi_ok r" if "do_all fs empty_doi = Inr r" "list_all keeps fs" for fs r
    using that keeps_do_all [of fs] doi_ok_empty by (auto simp: keeps_def)
  show ?thesis
    unfolding make_replica_proxy_def populate_struct_from_results_def
    using run [OF _ keeps_statements(1)] run [OF _ keeps_statements(2)] by (auto split: sum.split)
qed

section \<open>Printing and reading back\<close>

lemma object_name_returns: "\<exists>n. object_name s = Some n"
proof (cases "list_all is_separator s")
  case True
  then have "relative_path s = Some []" using relative_path_eq [of s] by auto
  then show ?thesis by (simp add: object_name_def)
qed (simp add: decompose)

lemma json_object_find: "map_find (json_object es) = map_of (rev es)"
  using sm.find_foldl [of "[]" es] by (simp add: json_object_def map_inv_def)

text \<open>One statement whose source text is what printing the target produced.\<close>

lemma statement_string: "x = Inr s \<Longrightarrow> from_string x f r = f s r"
  by (simp add: from_string_def)

lemma statement_int: "x = Inr (to_string i) \<Longrightarrow> int32 i \<Longrightarrow> from_int x f r = f i r"
  by (simp add: from_int_def int32_def)

lemma statement_ulong: "x = Inr (to_string i) \<Longrightarrow> int64 i \<Longrightarrow> from_ulong x f r = f i r"
  by (simp add: from_ulong_def int64_def)

text \<open>C30 (roundtrip). Reading back the JSON form of a well-formed replica gives the replica, except for the
  resource name, the resource hierarchy and the \<^verbatim>\<open>in_pdmo\<close> marker, which the form does not carry.\<close>

theorem replica_json_roundtrip:
  assumes "doi_ok r"
  shows "tbind (to_json r) (make_replica_proxy (objPath r)) = Inr (r\<lparr>rescName := [], rescHier := [], in_pdmo := []\<rparr>)"
proof -
  obtain n where n: "object_name (objPath r) = Some n" using object_name_returns by blast
  show ?thesis
    using assms
    by (simp add: to_json_def n make_replica_proxy_def json_statements_def json_at_def json_object_find
        statement_string statement_int statement_ulong doi_setters doi_ok_def set_string_fits empty_doi_def)
qed

theorem replica_json_roundtrip_witness:
  "tbind (to_json (empty_doi\<lparr>dataId := -5, version := ''1'', rescName := ''demoResc''\<rparr>)) (make_replica_proxy []) =
     Inr (empty_doi\<lparr>dataId := -5, version := ''1''\<rparr>)"
  using replica_json_roundtrip [of "empty_doi\<lparr>dataId := -5, version := ''1'', rescName := ''demoResc''\<rparr>"]
  by (simp add: doi_ok_def empty_doi_def fits_def int32_def int64_def)

text \<open>\<^verbatim>\<open>rename\<close> gives every replica the new collection and path, or throws when the path does not fit;
  then the replicas keep their paths, but the first one already has the new collection.\<close>

lemma data_object_rename:
  "dop_rename c p rs =
     (if rs = [] \<or> length p < MAX_NAME_LEN
      then (Inr (), map (\<lambda>r. r\<lparr>collId := c, objPath := c_str p\<rparr>) rs)
      else (Inl (irods_exception USER_STRLEN_TOOLONG), (hd rs)\<lparr>collId := c\<rparr> # tl rs))"
  by (induction rs) (auto simp: set_logical_path_def set_string_property_def Let_def)

end
