(* ===== verification/Replica_State_Table.thy ===== *)
theory Replica_State_Table
  imports Replica_Proxy
begin

text \<open>
  The replica state table, \<^verbatim>\<open>server/core/src/replica_state_table.cpp\<close>: for every open data object the state of its
  replicas before and after the changes made while it is open. An entry of the source is a JSON
  object with a fixed shape, here a record. Every access runs under \<^verbatim>\<open>rst_mutex\<close>.

  Parameters, in \<open>rst_env\<close>: \<^verbatim>\<open>boost::lexical_cast\<close> to the two integer types, and the id of a leaf resource,
  which the resource manager looks up by name. \<^verbatim>\<open>rs_data_object_finalize\<close> is an argument of the functions that
  publish: it gets the input and the table, which it may change, and returns its code and message.
\<close>

section \<open>Entries\<close>

record replica_state =
  before :: attrs
  after :: attrs
  file_modified :: "attrs option"

record rst_entry =
  replicas :: "replica_state list"
  entry_path :: string

type_synonym rst = "(int, rst_entry) std_map"

datatype state_type = before_state | after_state | both_states

text \<open>The JSON value \<^verbatim>\<open>at\<close> returns: the attributes in one state, or the whole replica.\<close>

datatype rst_value = Attributes attrs | Replica replica_state

datatype replica_id = By_Number int | By_Name string

abbreviation unknown_replica_id :: int where "unknown_replica_id \<equiv> -1"

record rst_env =
  lexical_cast_int :: "string \<Rightarrow> int throws"
  lexical_cast_long :: "string \<Rightarrow> int throws"
  leaf_id :: "string \<Rightarrow> int throws"

text \<open>\<^verbatim>\<open>json::update\<close> with another object: every member of it is inserted or overwritten.\<close>

definition attrs_update :: "attrs \<Rightarrow> attrs \<Rightarrow> attrs" where
  "attrs_update a u = foldl (\<lambda>m e. map_set (fst e) (snd e) m) a u"

section \<open>Finding a replica\<close>

definition has_number :: "rst_env \<Rightarrow> int \<Rightarrow> replica_state \<Rightarrow> bool throws" where
  "has_number env n r = tbind (json_at (before r) ''data_repl_num'')
     (\<lambda>s. tbind (lexical_cast_int env s) (\<lambda>v. Inr (n = v)))"

definition has_resource_id :: "rst_env \<Rightarrow> int \<Rightarrow> replica_state \<Rightarrow> bool throws" where
  "has_resource_id env i r = tbind (json_at (before r) ''resc_id'')
     (\<lambda>s. tbind (lexical_cast_long env s) (\<lambda>v. Inr (i = v)))"

fun index_loop :: "(replica_state \<Rightarrow> bool throws) \<Rightarrow> nat \<Rightarrow> replica_state list \<Rightarrow> nat option throws" where
  "index_loop p i [] = Inr None"
| "index_loop p i (r # rs) = tbind (p r) (\<lambda>b. if b then Inr (Some i) else index_loop p (Suc i) rs)"

definition index_in :: "(replica_state \<Rightarrow> bool throws) \<Rightarrow> rst_entry \<Rightarrow> nat throws" where
  "index_in p e = tbind (index_loop p 0 (replicas e)) (from_option (irods_exception KEY_NOT_FOUND))"

definition index_of_number :: "rst_env \<Rightarrow> int \<Rightarrow> int \<Rightarrow> rst \<Rightarrow> nat throws" where
  "index_of_number env key n m = (case map_find m key of
      Some e \<Rightarrow> index_in (has_number env n) e
    | None \<Rightarrow> Inl (irods_exception KEY_NOT_FOUND))"

definition index_of_resource_id :: "rst_env \<Rightarrow> int \<Rightarrow> int \<Rightarrow> rst \<Rightarrow> nat throws" where
  "index_of_resource_id env key i m = (case map_find m key of
      Some e \<Rightarrow> index_in (has_resource_id env i) e
    | None \<Rightarrow> Inl (irods_exception KEY_NOT_FOUND))"

definition index_of_name :: "rst_env \<Rightarrow> int \<Rightarrow> string \<Rightarrow> rst \<Rightarrow> nat throws" where
  "index_of_name env key name m = (case map_find m key of
      Some e \<Rightarrow> tbind (leaf_id env name) (\<lambda>i. index_in (has_resource_id env i) e)
    | None \<Rightarrow> Inl (irods_exception KEY_NOT_FOUND))"

section \<open>Creating, erasing and testing entries\<close>

text \<open>\<open>rst_init\<close> stands for \<^verbatim>\<open>init\<close> and \<^verbatim>\<open>deinit\<close>, which do the same.\<close>

definition rst_init :: "rst \<Rightarrow> rst" where
  "rst_init m = []"

definition rst_contains :: "int \<Rightarrow> rst \<Rightarrow> bool" where
  "rst_contains key m = (map_find m key \<noteq> None)"

fun any_replica :: "(replica_state \<Rightarrow> bool throws) \<Rightarrow> replica_state list \<Rightarrow> bool throws" where
  "any_replica p [] = Inr False"
| "any_replica p (r # rs) = tbind (p r) (\<lambda>b. if b then Inr True else any_replica p rs)"

definition rst_contains_number :: "rst_env \<Rightarrow> int \<Rightarrow> int \<Rightarrow> rst \<Rightarrow> bool throws" where
  "rst_contains_number env key n m = (case map_find m key of
      None \<Rightarrow> Inr False
    | Some e \<Rightarrow> any_replica (has_number env n) (replicas e))"

definition rst_contains_name :: "rst_env \<Rightarrow> int \<Rightarrow> string \<Rightarrow> rst \<Rightarrow> bool throws" where
  "rst_contains_name env key name m = (case map_find m key of
      None \<Rightarrow> Inr False
    | Some e \<Rightarrow> tbind (leaf_id env name) (\<lambda>i. any_replica (has_resource_id env i) (replicas e)))"

definition new_replica_state :: "DataObjInfo \<Rightarrow> replica_state throws" where
  "new_replica_state r = tbind (to_json r) (\<lambda>j. Inr \<lparr>before = j, after = j, file_modified = None\<rparr>)"

fun new_replica_states :: "DataObjInfo list \<Rightarrow> replica_state list throws" where
  "new_replica_states [] = Inr []"
| "new_replica_states (r # rs) = tbind (new_replica_state r)
     (\<lambda>x. tbind (new_replica_states rs) (\<lambda>xs. Inr (x # xs)))"

text \<open>\<^verbatim>\<open>catch (const json::exception&)\<close> of the two insertions; other exceptions leave the function.\<close>

definition catch_json :: "('s, int) stm \<Rightarrow> ('s, int) stm" where
  "catch_json f s = (case f s of
      (Inl json_exception, s') \<Rightarrow> (Inr SYS_LIBRARY_ERROR, s')
    | other \<Rightarrow> other)"

definition rst_insert_object :: "DataObjInfo list \<Rightarrow> (rst, int) stm" where
  "rst_insert_object obj = catch_json (\<lambda>m.
     if map_find m (dataId (hd obj)) \<noteq> None then (Inr 0, m)
     else (case new_replica_states obj of
         Inl e \<Rightarrow> (Inl e, m)
       | Inr rs \<Rightarrow> (Inr 0, map_set (dataId (hd obj)) \<lparr>replicas = rs, entry_path = objPath (hd obj)\<rparr> m)))"

text \<open>The replica is a node of the linked list: \<open>hd rs\<close> and the replicas after it.\<close>

definition rst_insert_replica :: "DataObjInfo list \<Rightarrow> (rst, int) stm" where
  "rst_insert_replica rs = catch_json (\<lambda>m.
     case map_find m (dataId (hd rs)) of
       None \<Rightarrow> rst_insert_object rs m
     | Some e \<Rightarrow> (case new_replica_state (hd rs) of
           Inl x \<Rightarrow> (Inl x, m)
         | Inr r \<Rightarrow> (Inr 0, map_set (dataId (hd rs)) (e\<lparr>replicas := replicas e @ [r]\<rparr>) m)))"

definition rst_erase :: "int \<Rightarrow> (rst, unit) stm" where
  "rst_erase key m = (if \<not> rst_contains key m then (Inl (irods_exception KEY_NOT_FOUND), m)
     else (Inr (), map_erase key m))"

definition remove_index :: "nat \<Rightarrow> 'a list \<Rightarrow> 'a list" where
  "remove_index i xs = take i xs @ drop (Suc i) xs"

definition erase_at :: "int \<Rightarrow> nat throws \<Rightarrow> (rst, unit) stm" where
  "erase_at key index m = (case index of
      Inl e \<Rightarrow> (Inl e, m)
    | Inr i \<Rightarrow> (case map_find m key of
        None \<Rightarrow> (Inl std_exception, m)
      | Some e \<Rightarrow> if i < length (replicas e)
          then (Inr (), map_set key (e\<lparr>replicas := remove_index i (replicas e)\<rparr>) m)
          else (Inl json_exception, m)))"

definition rst_erase_name :: "rst_env \<Rightarrow> int \<Rightarrow> string \<Rightarrow> (rst, unit) stm" where
  "rst_erase_name env key name m = erase_at key (index_of_name env key name m) m"

definition rst_erase_number :: "rst_env \<Rightarrow> int \<Rightarrow> int \<Rightarrow> (rst, unit) stm" where
  "rst_erase_number env key n m = erase_at key (index_of_number env key n m) m"

section \<open>Reading\<close>

definition rst_at :: "int \<Rightarrow> rst \<Rightarrow> replica_state list throws" where
  "rst_at key m = (case map_find m key of
      None \<Rightarrow> Inl (irods_exception KEY_NOT_FOUND)
    | Some e \<Rightarrow> Inr (replicas e))"

fun find_replica_state :: "(replica_state \<Rightarrow> bool throws) \<Rightarrow> replica_state list \<Rightarrow> replica_state throws" where
  "find_replica_state p [] = Inl (irods_exception KEY_NOT_FOUND)"
| "find_replica_state p (r # rs) = tbind (p r) (\<lambda>b. if b then Inr r else find_replica_state p rs)"

fun select_state :: "state_type \<Rightarrow> replica_state \<Rightarrow> rst_value" where
  "select_state before_state r = Attributes (before r)"
| "select_state after_state r = Attributes (after r)"
| "select_state both_states r = Replica r"

definition rst_at_number :: "rst_env \<Rightarrow> int \<Rightarrow> int \<Rightarrow> state_type \<Rightarrow> rst \<Rightarrow> rst_value throws" where
  "rst_at_number env key n st m = (case map_find m key of
      None \<Rightarrow> Inl std_exception
    | Some e \<Rightarrow> tbind (find_replica_state (has_number env n) (replicas e)) (\<lambda>r. Inr (select_state st r)))"

definition rst_at_name :: "rst_env \<Rightarrow> int \<Rightarrow> string \<Rightarrow> state_type \<Rightarrow> rst \<Rightarrow> rst_value throws" where
  "rst_at_name env key name st m = tbind (leaf_id env name) (\<lambda>i. case map_find m key of
      None \<Rightarrow> Inl std_exception
    | Some e \<Rightarrow> tbind (find_replica_state (has_resource_id env i) (replicas e)) (\<lambda>r. Inr (select_state st r)))"

fun property_of :: "string \<Rightarrow> rst_value \<Rightarrow> string throws" where
  "property_of name (Attributes a) = json_at a name"
| "property_of name (Replica r) = Inl json_exception"

definition get_property_number :: "rst_env \<Rightarrow> int \<Rightarrow> int \<Rightarrow> string \<Rightarrow> state_type \<Rightarrow> rst \<Rightarrow> string throws" where
  "get_property_number env key n name st m =
     (if st = both_states then Inl (irods_exception SYS_INVALID_INPUT_PARAM)
      else tbind (rst_at_number env key n st m) (property_of name))"

definition get_property_name :: "rst_env \<Rightarrow> int \<Rightarrow> string \<Rightarrow> string \<Rightarrow> state_type \<Rightarrow> rst \<Rightarrow> string throws" where
  "get_property_name env key resc name st m =
     (if st = both_states then Inl (irods_exception SYS_INVALID_INPUT_PARAM)
      else tbind (rst_at_name env key resc st m) (property_of name))"

definition get_logical_path :: "int \<Rightarrow> rst \<Rightarrow> string throws" where
  "get_logical_path key m = (case map_find m key of
      None \<Rightarrow> Inl std_exception
    | Some e \<Rightarrow> Inr (entry_path e))"

section \<open>Updating\<close>

text \<open>An exception of the JSON library becomes \<^verbatim>\<open>SYS_LIBRARY_ERROR\<close>; \<^verbatim>\<open>std::out_of_range\<close> of the map does not.\<close>

definition update_impl :: "int \<Rightarrow> nat \<Rightarrow> attrs \<Rightarrow> (rst, unit) stm" where
  "update_impl key i u m = (case map_find m key of
      None \<Rightarrow> (Inl std_exception, m)
    | Some e \<Rightarrow> if i < length (replicas e)
        then (Inr (), map_set key (e\<lparr>replicas :=
          (replicas e)[i := (replicas e ! i)\<lparr>after := attrs_update (after (replicas e ! i)) u\<rparr>]\<rparr>) m)
        else (Inl (irods_exception SYS_LIBRARY_ERROR), m))"

definition rst_update_name :: "rst_env \<Rightarrow> int \<Rightarrow> string \<Rightarrow> attrs \<Rightarrow> (rst, unit) stm" where
  "rst_update_name env key name u = sbind (sget (index_of_name env key name)) (\<lambda>i. update_impl key i u)"

definition rst_update_number :: "rst_env \<Rightarrow> int \<Rightarrow> int \<Rightarrow> attrs \<Rightarrow> (rst, unit) stm" where
  "rst_update_number env key n u = sbind (sget (index_of_number env key n)) (\<lambda>i. update_impl key i u)"

definition rst_update_replica :: "rst_env \<Rightarrow> int \<Rightarrow> DataObjInfo \<Rightarrow> (rst, unit) stm" where
  "rst_update_replica env key r = sbind (sget (index_of_resource_id env key (rescId r)))
     (\<lambda>i. sbind (sget (\<lambda>_. to_json r)) (\<lambda>u. update_impl key i u))"

section \<open>Publishing\<close>

record finalize_input =
  bytes_written :: string
  irods_admin :: bool
  input_logical_path :: string
  input_replicas :: "replica_state list"
  trigger_file_modified :: bool

type_synonym finalize = "finalize_input \<Rightarrow> (rst, int \<times> string) stm"

definition insert_entry :: "int \<Rightarrow> rst_entry \<Rightarrow> rst \<Rightarrow> rst" where
  "insert_entry key entry m = map_set key entry m"

text \<open>The entry with the \<^verbatim>\<open>file_modified\<close> parameters of the replica at an index.\<close>

definition set_file_modified :: "int \<Rightarrow> attrs \<Rightarrow> rst_entry \<Rightarrow> rst_entry throws" where
  "set_file_modified i fmp e =
     (if 0 \<le> i \<and> nat i < length (replicas e)
      then Inr (e\<lparr>replicas := (replicas e)[nat i := (replicas e ! nat i)\<lparr>file_modified := Some fmp\<rparr>]\<rparr>)
      else Inl json_exception)"

definition publish_prepare :: "int \<Rightarrow> int \<Rightarrow> attrs \<Rightarrow> bool \<Rightarrow> int \<Rightarrow> (rst, finalize_input) stm" where
  "publish_prepare key i fmp privileged bytes m = (case get_logical_path key m of
      Inl x \<Rightarrow> (Inl x, m)
    | Inr lp \<Rightarrow> (case map_find m key of
        None \<Rightarrow> (Inl std_exception, m)
      | Some e \<Rightarrow> (case (if fmp \<noteq> [] then set_file_modified i fmp e else Inr e) of
          Inl x \<Rightarrow> (Inl x, m)
        | Inr e' \<Rightarrow> (Inr \<lparr>bytes_written = to_string bytes, irods_admin = privileged, input_logical_path = lp,
              input_replicas = replicas e', trigger_file_modified = (fmp \<noteq> [])\<rparr>,
            (if fmp \<noteq> [] then map_set key e' m else m)))))"

text \<open>\<open>parse\<close> is \<^verbatim>\<open>json::parse\<close>. The entry is restored when the scope is left, before the result or an exception
  of \<open>parse\<close> reaches the caller; the code \<^verbatim>\<open>ec\<close> is still 0 when the finalization itself throws.\<close>

definition publish_to_catalog_impl ::
  "finalize \<Rightarrow> (string \<Rightarrow> 'j throws) \<Rightarrow> int \<Rightarrow> int \<Rightarrow> attrs \<Rightarrow> bool \<Rightarrow> int \<Rightarrow> (rst, 'j \<times> int) stm" where
  "publish_to_catalog_impl finalize_fun parse key i fmp privileged bytes m =
     (case publish_prepare key i fmp privileged bytes m of
        (Inl x, m1) \<Rightarrow> (Inl x, m1)
      | (Inr input, m1) \<Rightarrow> (case map_find m1 key of
          None \<Rightarrow> (Inl std_exception, m1)
        | Some backup_entry \<Rightarrow>
            (let m2 = (if fmp \<noteq> [] then map_erase key m1 else m1) in
             case finalize_fun input m2 of
               (Inl x, m3) \<Rightarrow> (Inl x, m3)
             | (Inr (ec, msg), m3) \<Rightarrow>
                 (tbind (parse msg) (\<lambda>ret. Inr (ret, ec)),
                  if ec < 0 \<and> fmp \<noteq> [] then insert_entry key backup_entry m3 else m3))))"

record publish_context =
  ctx_key :: int
  ctx_replica_id :: replica_id
  file_modified_parameters :: attrs
  privileged :: bool
  ctx_bytes_written :: int

text \<open>The exception handlers of \<^verbatim>\<open>to_catalog\<close>; an \<^verbatim>\<open>irods::exception\<close> is a \<^verbatim>\<open>std::exception\<close>.\<close>

definition rethrow :: "exn \<Rightarrow> exn" where
  "rethrow x = (if x = json_exception then irods_exception SYS_LIBRARY_ERROR else irods_exception SYS_INTERNAL_ERR)"

definition to_catalog :: "rst_env \<Rightarrow> finalize \<Rightarrow> (string \<Rightarrow> 'j throws) \<Rightarrow> publish_context \<Rightarrow> (rst, 'j \<times> int) stm" where
  "to_catalog env finalize_fun parse ctx m =
     (let fmp = file_modified_parameters ctx;
          publish = (\<lambda>i. publish_to_catalog_impl finalize_fun parse (ctx_key ctx) i fmp (privileged ctx) (ctx_bytes_written ctx) m);
          result = (if fmp = [] then publish (-1)
            else (case (case ctx_replica_id ctx of
                By_Number n \<Rightarrow> index_of_number env (ctx_key ctx) n m
              | By_Name name \<Rightarrow> index_of_name env (ctx_key ctx) name m) of
                Inl x \<Rightarrow> (Inl x, m)
              | Inr i \<Rightarrow> publish (int i)))
      in (case result of
            (Inl x, m') \<Rightarrow> (Inl (rethrow x), m')
          | (Inr r, m') \<Rightarrow> (Inr r, m')))"

section \<open>Replica numbers\<close>

text \<open>\<^verbatim>\<open>boost::lexical_cast\<close> reads the decimal text of a number that fits.\<close>

definition lexical_cast_ok :: "rst_env \<Rightarrow> bool" where
  "lexical_cast_ok env = (\<forall>i. int32 i \<longrightarrow> lexical_cast_int env (to_string i) = Inr i)"

text \<open>The replicas of an entry carry the numbers \<open>ns\<close>.\<close>

definition numbered :: "replica_state list \<Rightarrow> int list \<Rightarrow> bool" where
  "numbered rs ns = list_all2 (\<lambda>a n. map_find a ''data_repl_num'' = Some (to_string n) \<and> int32 n) (map before rs) ns"

lemma numbered_Cons [simp]:
  "numbered (r # rs) (n # ns) \<longleftrightarrow>
     map_find (before r) ''data_repl_num'' = Some (to_string n) \<and> int32 n \<and> numbered rs ns"
  "numbered [] ns \<longleftrightarrow> ns = []" "numbered rs [] \<longleftrightarrow> rs = []"
  by (auto simp: numbered_def)

lemma numbered_length: "numbered rs ns \<Longrightarrow> length rs = length ns"
  by (auto simp: numbered_def dest: list_all2_lengthD)

lemma numbered_cong: "map before rs = map before rs' \<Longrightarrow> numbered rs ns = numbered rs' ns"
  by (simp only: numbered_def)

lemma has_number_eq:
  "lexical_cast_ok env \<Longrightarrow> map_find (before r) ''data_repl_num'' = Some (to_string n) \<Longrightarrow> int32 n \<Longrightarrow>
    has_number env k r = Inr (k = n)"
  by (simp add: has_number_def json_at_def lexical_cast_ok_def)

lemma find_numbered:
  assumes "lexical_cast_ok env" "numbered rs ns" "distinct ns" "i < length ns"
  shows "index_loop (has_number env (ns ! i)) k rs = Inr (Some (k + i))"
    and "find_replica_state (has_number env (ns ! i)) rs = Inr (rs ! i)"
proof -
  have len: "length rs = length ns" using assms(2) by (rule numbered_length)
  show "index_loop (has_number env (ns ! i)) k rs = Inr (Some (k + i))"
    using len assms
  proof (induction rs ns arbitrary: i k rule: list_induct2)
    case (Cons r rs n ns)
    then show ?case by (cases i) (auto simp: has_number_eq)
  qed simp
  show "find_replica_state (has_number env (ns ! i)) rs = Inr (rs ! i)"
    using len assms
  proof (induction rs ns arbitrary: i rule: list_induct2)
    case (Cons r rs n ns)
    then show ?case by (cases i) (auto simp: has_number_eq)
  qed simp
qed

text \<open>\<open>known m key e ns\<close>: the table has the entry \<open>e\<close>, whose replicas have the distinct numbers \<open>ns\<close>.\<close>

definition known :: "rst \<Rightarrow> int \<Rightarrow> rst_entry \<Rightarrow> int list \<Rightarrow> bool" where
  "known m key e ns = (map_find m key = Some e \<and> numbered (replicas e) ns \<and> distinct ns)"

lemma known_length: "known m key e ns \<Longrightarrow> length (replicas e) = length ns"
  by (simp add: known_def numbered_length)

lemma index_of_number_known:
  "lexical_cast_ok env \<Longrightarrow> known m key e ns \<Longrightarrow> i < length ns \<Longrightarrow> index_of_number env key (ns ! i) m = Inr i"
  by (simp add: known_def index_of_number_def index_in_def find_numbered)

lemma at_number_known:
  "lexical_cast_ok env \<Longrightarrow> known m key e ns \<Longrightarrow> i < length ns \<Longrightarrow>
    rst_at_number env key (ns ! i) st m = Inr (select_state st (replicas e ! i))"
  by (simp add: known_def rst_at_number_def find_numbered)

lemma get_property_known:
  assumes "lexical_cast_ok env" "known m key e ns" "i < length ns"
  shows "get_property_number env key (ns ! i) p after_state m = json_at (after (replicas e ! i)) p"
    and "get_property_number env key (ns ! i) p before_state m = json_at (before (replicas e ! i)) p"
  by (simp_all add: get_property_number_def at_number_known [OF assms])

definition update_after :: "nat \<Rightarrow> attrs \<Rightarrow> rst_entry \<Rightarrow> rst_entry" where
  "update_after i u e = e\<lparr>replicas :=
     (replicas e)[i := (replicas e ! i)\<lparr>after := attrs_update (after (replicas e ! i)) u\<rparr>]\<rparr>"

lemma update_number_known:
  assumes "lexical_cast_ok env" "known m key e ns" "i < length ns"
  shows "rst_update_number env key (ns ! i) u m = (Inr (), map_set key (update_after i u e) m)"
  using assms(2,3) known_length [OF assms(2)] index_of_number_known [OF assms]
  by (simp add: rst_update_number_def sbind_def update_impl_def update_after_def known_def)

lemma update_after_before [simp]: "map before (replicas (update_after i u e)) = map before (replicas e)"
  by (cases "i < length (replicas e)")
    (simp_all add: update_after_def map_update list_update_same_conv list_update_beyond)

lemma update_after_nth:
  "j < length (replicas e) \<Longrightarrow> after (replicas (update_after i u e) ! j) =
     (if j = i then attrs_update (after (replicas e ! j)) u else after (replicas e ! j))"
  "j < length (replicas e) \<Longrightarrow> before (replicas (update_after i u e) ! j) = before (replicas e ! j)"
  by (cases "j = i"; simp add: update_after_def)+

lemma known_update: "known m key e ns \<Longrightarrow> known (map_set key (update_after i u e) m) key (update_after i u e) ns"
  using numbered_cong [OF update_after_before [of i u e]] by (simp add: known_def map_of_map_set)

lemma attrs_update_find: "map_inv u \<Longrightarrow> map_find (attrs_update a u) = map_find a ++ map_find u"
proof (induction u arbitrary: a)
  case (Cons e u)
  then have "map_find u (fst e) = None"
    by (metis list.simps(9) distinct.simps(2) map_inv_distinct map_of_eq_None_iff set_map)
  with Cons show ?case
    by (cases e) (auto simp: attrs_update_def map_of_map_set map_inv_Cons fun_eq_iff map_add_def split: option.splits)
qed (simp add: attrs_update_def)

text \<open>C31 (functional). Updating a replica is seen exactly where it should be: the properties in the update read as
  updated in the \<^verbatim>\<open>after\<close> state of that replica, and every other property, replica and \<^verbatim>\<open>before\<close> state of the
  data object, and every other data object, is as it was.\<close>

theorem rst_update_then_read:
  assumes "lexical_cast_ok env" "known m key e ns" "map_inv u" "n \<in> set ns" "n' \<in> set ns"
  shows "\<exists>m'. rst_update_number env key n u m = (Inr (), m') \<and>
    get_property_number env key n' p after_state m' =
      (if n' = n \<and> map_find u p \<noteq> None then Inr (the (map_find u p)) else get_property_number env key n' p after_state m) \<and>
    get_property_number env key n' p before_state m' = get_property_number env key n' p before_state m \<and>
    (\<forall>k. k \<noteq> key \<longrightarrow> map_find m' k = map_find m k)"
proof -
  from assms(4,5) obtain i j where ij: "i < length ns" "n = ns ! i" "j < length ns" "n' = ns ! j"
    by (metis in_set_conv_nth)
  let ?e = "update_after i u e" and ?m = "map_set key (update_after i u e) m"
  have same: "n' = n \<longleftrightarrow> j = i" using assms(2) ij by (auto simp: known_def nth_eq_iff_index_eq)
  have len: "length (replicas e) = length ns" using assms(2) by (rule known_length)
  note read = get_property_known [OF assms(1) known_update [OF assms(2)] ij(3)] get_property_known [OF assms(1,2) ij(3)]
  have "get_property_number env key n' p after_state ?m =
      (if n' = n \<and> map_find u p \<noteq> None then Inr (the (map_find u p)) else get_property_number env key n' p after_state m)"
    unfolding ij(4) read using ij len same attrs_update_find [OF assms(3), of "after (replicas e ! i)"]
    by (auto simp: update_after_nth json_at_def map_add_def)
  moreover have "get_property_number env key n' p before_state ?m = get_property_number env key n' p before_state m"
    unfolding ij(4) read using ij len by (simp add: update_after_nth)
  ultimately show ?thesis
    using update_number_known [OF assms(1,2) ij(1), of u] ij(2) by (simp add: map_of_map_set)
qed

text \<open>A small environment and a table with one entry, for the witnesses.\<close>

definition sample_env :: rst_env where
  "sample_env = \<lparr>lexical_cast_int = stoi, lexical_cast_long = (\<lambda>s. tbind (stoul s) (\<lambda>w. Inr (sint w))),
     leaf_id = (\<lambda>_. Inl (irods_exception KEY_NOT_FOUND))\<rparr>"

definition sample_replica :: "int \<Rightarrow> string \<Rightarrow> replica_state" where
  "sample_replica n dirty = (let a = json_object
     [(''data_repl_num'', to_string n), (''data_is_dirty'', dirty), (''data_status'', [])]
     in \<lparr>before = a, after = a, file_modified = None\<rparr>)"

definition sample_entry :: rst_entry where
  "sample_entry = \<lparr>replicas = [sample_replica 0 (to_string 1), sample_replica 1 (to_string 0)], entry_path = ''/z/o''\<rparr>"

lemma sample_env_ok: "lexical_cast_ok sample_env"
  by (simp add: lexical_cast_ok_def sample_env_def int32_def)

lemma sample_replica_find:
  "map_find (before (sample_replica n d)) = [''data_repl_num'' \<mapsto> to_string n, ''data_is_dirty'' \<mapsto> d, ''data_status'' \<mapsto> []]"
  "after (sample_replica n d) = before (sample_replica n d)"
  by (auto simp: sample_replica_def Let_def json_object_find fun_eq_iff)

lemma sample_known: "known [(7, sample_entry)] 7 sample_entry [0, 1]"
  by (simp add: known_def sample_entry_def numbered_def sample_replica_find int32_def)

theorem rst_update_then_read_witness:
  "\<exists>m'. rst_update_number sample_env 7 0 [(''data_is_dirty'', ''4'')] [(7, sample_entry)] = (Inr (), m') \<and>
     get_property_number sample_env 7 0 ''data_is_dirty'' after_state m' = Inr ''4''"
  using rst_update_then_read [OF sample_env_ok sample_known, of "[(''data_is_dirty'', ''4'')]" 0 0 "''data_is_dirty''"]
  by (auto simp: map_inv_def)

section \<open>Insertion\<close>

lemma to_json_returns: "\<exists>j. to_json r = Inr j"
proof -
  obtain n where "object_name (objPath r) = Some n" using object_name_returns by blast
  then show ?thesis by (simp add: to_json_def)
qed

lemma to_json_number: "to_json r = Inr j \<Longrightarrow> map_find j ''data_repl_num'' = Some (to_string (replNum r))"
  using object_name_returns [of "objPath r"] by (auto simp: to_json_def json_object_find)

lemma new_replica_states_eq:
  "\<exists>js. list_all2 (\<lambda>r j. to_json r = Inr j) obj js \<and>
     new_replica_states obj = Inr (map (\<lambda>j. \<lparr>before = j, after = j, file_modified = None\<rparr>) js)"
proof (induction obj)
  case (Cons r obj)
  moreover obtain j where "to_json r = Inr j" using to_json_returns by blast
  ultimately obtain js where "list_all2 (\<lambda>r j. to_json r = Inr j) (r # obj) (j # js)"
    "new_replica_states (r # obj) = Inr (map (\<lambda>j. \<lparr>before = j, after = j, file_modified = None\<rparr>) (j # js))"
    by (auto simp: new_replica_state_def)
  then show ?case by blast
qed simp

text \<open>Inserting a data object that is not in the table succeeds and makes every replica readable
  under its number, with its JSON form both as the \<^verbatim>\<open>before\<close> and the \<^verbatim>\<open>after\<close> state; inserting it again changes
  nothing.\<close>

lemma rst_insert_then_read:
  assumes "lexical_cast_ok env" "map_find m key = None" "obj \<noteq> []" "key = dataId (hd obj)"
    "distinct (map replNum obj)" "list_all (\<lambda>r. int32 (replNum r)) obj" "r \<in> set obj"
  shows "\<exists>m' j. rst_insert_object obj m = (Inr 0, m') \<and> to_json r = Inr j \<and>
    rst_at_number env key (replNum r) before_state m' = Inr (Attributes j) \<and>
    rst_at_number env key (replNum r) after_state m' = Inr (Attributes j) \<and>
    rst_insert_object obj m' = (Inr 0, m')"
proof -
  from new_replica_states_eq obtain js where js: "list_all2 (\<lambda>r j. to_json r = Inr j) obj js"
    "new_replica_states obj = Inr (map (\<lambda>j. \<lparr>before = j, after = j, file_modified = None\<rparr>) js)" by blast
  let ?e = "\<lparr>replicas = map (\<lambda>j. \<lparr>before = j, after = j, file_modified = None\<rparr>) js, entry_path = objPath (hd obj)\<rparr>"
  let ?m = "map_set key ?e m"
  have ins: "rst_insert_object obj m = (Inr 0, ?m)" "rst_insert_object obj ?m = (Inr 0, ?m)"
    using assms(2,4) js(2) by (simp_all add: rst_insert_object_def catch_json_def map_of_map_set)
  have len: "length obj = length js" using js(1) by (rule list_all2_lengthD)
  have "numbered (replicas ?e) (map replNum obj)"
    using js(1) assms(6) by (auto simp: numbered_def list_all2_conv_all_nth list_all_length to_json_number)
  then have kn: "known ?m key ?e (map replNum obj)"
    using assms(5) by (simp add: known_def map_of_map_set)
  from assms(7) obtain i where i: "i < length obj" "r = obj ! i" by (metis in_set_conv_nth)
  then have "to_json r = Inr (js ! i)" using js(1) by (simp add: list_all2_conv_all_nth)
  with ins i len at_number_known [OF assms(1) kn, of i] show ?thesis by auto
qed

section \<open>Publication\<close>

text \<open>Two entries with the same states; the \<^verbatim>\<open>file_modified\<close> parameters may differ.\<close>

definition same_states :: "rst_entry \<Rightarrow> rst_entry \<Rightarrow> bool" where
  "same_states e e' = (map before (replicas e) = map before (replicas e') \<and>
     map after (replicas e) = map after (replicas e') \<and> entry_path e = entry_path e')"

lemma set_file_modified_states: "set_file_modified i fmp e = Inr e' \<Longrightarrow> same_states e e'"
  by (auto simp: set_file_modified_def same_states_def map_update split: if_splits) (metis list_update_id nth_map)+

text \<open>C32 (safety). A publication with \<^verbatim>\<open>file_modified\<close> parameters that the finalization reports as failed keeps the
  entry: whatever the finalization did to the table, the data object is still in it afterwards, with
  the states its replicas had, so that the caller can retry or unlock.\<close>

theorem rst_failed_publish_keeps_entry:
  assumes "map_find m (ctx_key ctx) = Some e" "file_modified_parameters ctx \<noteq> []"
    "\<forall>input s. \<exists>ec msg s'. finalize_fun input s = (Inr (ec, msg), s') \<and> ec < 0"
  shows "\<exists>e'. map_find (snd (to_catalog env finalize_fun parse ctx m)) (ctx_key ctx) = Some e' \<and> same_states e e'"
proof -
  have refl: "same_states e e" by (simp add: same_states_def)
  have impl: "\<exists>e'. map_find (snd (publish_to_catalog_impl finalize_fun parse (ctx_key ctx) i
      (file_modified_parameters ctx) (privileged ctx) (ctx_bytes_written ctx) m)) (ctx_key ctx) = Some e' \<and> same_states e e'" for i
  proof (cases "set_file_modified i (file_modified_parameters ctx) e")
    case (Inl x)
    with assms refl show ?thesis
      by (auto simp: publish_to_catalog_impl_def publish_prepare_def get_logical_path_def)
  next
    case (Inr e')
    let ?input = "\<lparr>bytes_written = to_string (ctx_bytes_written ctx), irods_admin = privileged ctx,
      input_logical_path = entry_path e, input_replicas = replicas e', trigger_file_modified = True\<rparr>"
    obtain ec msg s' where "finalize_fun ?input (map_erase (ctx_key ctx) (map_set (ctx_key ctx) e' m)) = (Inr (ec, msg), s')" "ec < 0"
      using assms(3) by blast
    with assms Inr set_file_modified_states [OF Inr] show ?thesis
      by (simp add: publish_to_catalog_impl_def publish_prepare_def get_logical_path_def insert_entry_def
          map_of_map_set Let_def)
  qed
  then show ?thesis
    using assms(1,2) refl
    by (auto simp: to_catalog_def Let_def split: sum.splits prod.splits replica_id.splits) (metis snd_conv)+
qed

theorem rst_failed_publish_keeps_entry_witness:
  "\<exists>e'. map_find (snd (to_catalog sample_env (\<lambda>input s. (Inr (-1, []), [])) (\<lambda>s. Inr s)
     \<lparr>ctx_key = 7, ctx_replica_id = By_Number 0, file_modified_parameters = [(''a'', ''b'')], privileged = False, ctx_bytes_written = 0\<rparr>
     [(7, sample_entry)])) 7 = Some e' \<and> same_states sample_entry e'"
  using rst_failed_publish_keeps_entry [of "[(7, sample_entry)]"
      "\<lparr>ctx_key = 7, ctx_replica_id = By_Number 0, file_modified_parameters = [(''a'', ''b'')], privileged = False, ctx_bytes_written = 0\<rparr>"
      sample_entry "\<lambda>input s. (Inr (-1, []), [])" sample_env "\<lambda>s. Inr s"]
  by simp

end
