(* ===== verification/Logical_Locking.thy ===== *)
theory Logical_Locking
  imports Replica_State_Table Replica_Access_Table
begin

text \<open>
  Logical locking, \<^verbatim>\<open>server/core/src/logical_locking.cpp\<close>: the statuses of the replicas of an open data object are
  saved and overwritten in the replica state table, and restored when the object is closed.

  A data id is the key of the table; the conversion between \<^verbatim>\<open>std::uint64_t\<close> and the signed key type changes no
  id the catalog hands out. Writing JSON as text and reading it are parameters (\<open>json_text\<close>): \<open>jparse\<close> gives the
  string members of the value, none when the value is not an object, and throws when the text is not
  JSON or the member that is read is not a string.
\<close>

section \<open>Operations\<close>

datatype lock_type = read_lock | write_lock

fun lock_type_to_repl_status :: "lock_type \<Rightarrow> int" where
  "lock_type_to_repl_status read_lock = READ_LOCKED"
| "lock_type_to_repl_status write_lock = WRITE_LOCKED"

abbreviation (input) restore_status :: int where "restore_status \<equiv> -1"

record json_text =
  jdump :: "attrs \<Rightarrow> string"
  jparse :: "string \<Rightarrow> attrs throws"

definition get_original_replica_status_impl :: "json_text \<Rightarrow> replica_state \<Rightarrow> int throws" where
  "get_original_replica_status_impl J r = tbind (json_at (after r) ''data_status'') (\<lambda>data_status_str.
     if data_status_str = [] then Inr (-1)
     else tbind (jparse J data_status_str) (\<lambda>a.
       case map_find a ''original_status'' of
         Some s \<Rightarrow> stoi s
       | None \<Rightarrow> Inr (-1)))"

definition replica_number_of :: "replica_state \<Rightarrow> int throws" where
  "replica_number_of r = tbind (json_at (before r) ''data_repl_num'') stoi"

definition insert_one_status :: "rst_env \<Rightarrow> json_text \<Rightarrow> int \<Rightarrow> replica_state \<Rightarrow> (rst, unit) stm" where
  "insert_one_status env J key r =
     sbind (sget (\<lambda>_. replica_number_of r)) (\<lambda>n.
     sbind (sget (\<lambda>_. get_original_replica_status_impl J r)) (\<lambda>os.
     if -1 \<noteq> os then sreturn ()
     else sbind (sget (get_property_number env key n ''data_is_dirty'' before_state)) (\<lambda>old_status.
       rst_update_number env key n [(''data_status'', jdump J [(''original_status'', old_status)])])))"

definition insert_data_status :: "rst_env \<Rightarrow> json_text \<Rightarrow> int \<Rightarrow> (rst, unit) stm" where
  "insert_data_status env J key =
     sbind (sget (rst_at key)) (\<lambda>entry.
     sbind (sget (get_logical_path key)) (\<lambda>_.
     sfor entry (insert_one_status env J key)))"

definition remove_data_status :: "rst_env \<Rightarrow> int \<Rightarrow> (rst, unit) stm" where
  "remove_data_status env key =
     sbind (sget (rst_at key)) (\<lambda>entry.
     sfor entry (\<lambda>r. sbind (sget (\<lambda>_. replica_number_of r)) (\<lambda>n.
       rst_update_number env key n [(''data_status'', [])])))"

definition restore_one_status :: "rst_env \<Rightarrow> json_text \<Rightarrow> int \<Rightarrow> int \<Rightarrow> replica_state \<Rightarrow> (rst, unit) stm" where
  "restore_one_status env J key target r =
     sbind (sget (\<lambda>_. replica_number_of r)) (\<lambda>n.
     if target = n then sreturn ()
     else sbind (sget (\<lambda>_. get_original_replica_status_impl J r)) (\<lambda>os.
       if -1 = os then sreturn ()
       else rst_update_number env key n [(''data_is_dirty'', to_string os)]))"

definition restore_replica_statuses :: "rst_env \<Rightarrow> json_text \<Rightarrow> int \<Rightarrow> int \<Rightarrow> (rst, unit) stm" where
  "restore_replica_statuses env J key target =
     sbind (sget (rst_at key)) (\<lambda>entry.
     sbind (sget (get_logical_path key)) (\<lambda>_.
     sfor entry (restore_one_status env J key target)))"

text \<open>The call that writes the log reads the property \<^verbatim>\<open>data_status\<close>, and may throw.\<close>

definition set_one_status :: "rst_env \<Rightarrow> int \<Rightarrow> int \<Rightarrow> int \<Rightarrow> replica_state \<Rightarrow> (rst, unit) stm" where
  "set_one_status env key target st r =
     sbind (sget (\<lambda>_. replica_number_of r)) (\<lambda>n.
     sbind (sget (get_property_number env key n ''data_status'' before_state)) (\<lambda>_.
     if target \<noteq> n then rst_update_number env key n [(''data_is_dirty'', to_string st)]
     else sreturn ()))"

definition set_replica_statuses :: "rst_env \<Rightarrow> int \<Rightarrow> int \<Rightarrow> int \<Rightarrow> (rst, unit) stm" where
  "set_replica_statuses env key target st =
     sbind (sget (rst_at key)) (\<lambda>entry. sfor entry (set_one_status env key target st))"

text \<open>The exception handlers of \<^verbatim>\<open>lock_impl\<close> and \<^verbatim>\<open>unlock_impl\<close>.\<close>

fun error_code :: "unit throws \<Rightarrow> int" where
  "error_code (Inr ()) = 0"
| "error_code (Inl (irods_exception c)) = c"
| "error_code (Inl _) = SYS_INTERNAL_ERR"

definition catch_all :: "(rst, unit) stm \<Rightarrow> rst \<Rightarrow> int \<times> rst" where
  "catch_all f m = (case f m of (r, m') \<Rightarrow> (error_code r, m'))"

definition lock_impl :: "rst_env \<Rightarrow> json_text \<Rightarrow> int \<Rightarrow> int \<Rightarrow> lock_type \<Rightarrow> rst \<Rightarrow> int \<times> rst" where
  "lock_impl env J key target lt = catch_all (
     sbind (insert_data_status env J key) (\<lambda>_.
     let lock_status = lock_type_to_repl_status lt in
     sbind (if unknown_replica_id \<noteq> target
            then rst_update_number env key target
              [(''data_is_dirty'', to_string (if lt = write_lock then INTERMEDIATE_REPLICA else lock_status))]
            else sreturn ()) (\<lambda>_.
     set_replica_statuses env key target lock_status)))"

definition get_original_replica_status :: "rst_env \<Rightarrow> json_text \<Rightarrow> int \<Rightarrow> int \<Rightarrow> rst \<Rightarrow> int throws" where
  "get_original_replica_status env J key n m = tbind (rst_at_number env key n both_states m) (\<lambda>v.
     case v of Replica r \<Rightarrow> get_original_replica_status_impl J r | Attributes a \<Rightarrow> Inl json_exception)"

definition unlock_target :: "rst_env \<Rightarrow> json_text \<Rightarrow> int \<Rightarrow> int \<Rightarrow> int \<Rightarrow> (rst, unit) stm" where
  "unlock_target env J key target st =
     sbind (if restore_status = st
            then sbind (sget (get_original_replica_status env J key target))
              (\<lambda>os. sreturn (if -1 = os then STALE_REPLICA else os))
            else sreturn st)
       (\<lambda>s. rst_update_number env key target [(''data_is_dirty'', to_string s)])"

definition unlock_impl :: "rst_env \<Rightarrow> json_text \<Rightarrow> int \<Rightarrow> int \<Rightarrow> int \<Rightarrow> int \<Rightarrow> rst \<Rightarrow> int \<times> rst" where
  "unlock_impl env J key target st others = catch_all (
     sbind (if unknown_replica_id \<noteq> target then unlock_target env J key target st else sreturn ()) (\<lambda>_.
     sbind (if restore_status = others then restore_replica_statuses env J key target
            else set_replica_statuses env key target others) (\<lambda>_.
     remove_data_status env key)))"

definition ctx_number :: "publish_context \<Rightarrow> int throws" where
  "ctx_number ctx = (case ctx_replica_id ctx of By_Number n \<Rightarrow> Inr n | By_Name s \<Rightarrow> Inl std_exception)"

text \<open>What follows the (un)locking in the two functions that publish.\<close>

definition then_publish ::
  "rst_env \<Rightarrow> finalize \<Rightarrow> (string \<Rightarrow> 'j throws) \<Rightarrow> publish_context \<Rightarrow> int \<times> rst \<Rightarrow> int throws \<times> rst" where
  "then_publish env finalize_fun parse ctx result = (case result of (ec, m) \<Rightarrow>
     if ec < 0 then (Inr ec, m)
     else (case to_catalog env finalize_fun parse ctx m of
         (Inl x, m') \<Rightarrow> (Inl x, m')
       | (Inr (ret, ec'), m') \<Rightarrow> (Inr (if ec' < 0 then ec' else 0), m')))"

definition lock_and_publish ::
  "rst_env \<Rightarrow> json_text \<Rightarrow> finalize \<Rightarrow> (string \<Rightarrow> 'j throws) \<Rightarrow> publish_context \<Rightarrow> lock_type \<Rightarrow> (rst, int) stm" where
  "lock_and_publish env J finalize_fun parse ctx lt m = (case ctx_number ctx of
      Inl x \<Rightarrow> (Inl x, m)
    | Inr n \<Rightarrow> then_publish env finalize_fun parse ctx (lock_impl env J (ctx_key ctx) n lt m))"

definition unlock_and_publish ::
  "rst_env \<Rightarrow> json_text \<Rightarrow> finalize \<Rightarrow> (string \<Rightarrow> 'j throws) \<Rightarrow> publish_context \<Rightarrow> int \<Rightarrow> int \<Rightarrow> (rst, int) stm" where
  "unlock_and_publish env J finalize_fun parse ctx st others m = (case ctx_number ctx of
      Inl x \<Rightarrow> (Inl x, m)
    | Inr n \<Rightarrow> then_publish env finalize_fun parse ctx (unlock_impl env J (ctx_key ctx) n st others m))"

section \<open>Asking for a lock\<close>

definition try_lock_for_intermediate_replica_access :: "access_map \<Rightarrow> DataObjInfo \<Rightarrow> string \<Rightarrow> int" where
  "try_lock_for_intermediate_replica_access rat r token =
     (let replica_access_granted =
        (if at_rest r then True
         else if token = [] then False
         else rat_contains_token token (word_of_int (dataId r)) (word_of_int (replNum r)) rat)
      in if \<not> replica_access_granted then INTERMEDIATE_REPLICA_ACCESS else 0)"

fun try_lock_for_locked_data_object :: "bool \<Rightarrow> DataObjInfo list \<Rightarrow> int" where
  "try_lock_for_locked_data_object check [] = 0"
| "try_lock_for_locked_data_object check (r # rs) =
     (if replStatus r = INTERMEDIATE_REPLICA \<and> \<not> check then try_lock_for_locked_data_object check rs
      else if replStatus r = INTERMEDIATE_REPLICA \<or> replStatus r = WRITE_LOCKED then LOCKED_DATA_OBJECT_ACCESS
      else try_lock_for_locked_data_object check rs)"

definition try_lock_for_specific_replica :: "access_map \<Rightarrow> DataObjInfo \<Rightarrow> string \<Rightarrow> int" where
  "try_lock_for_specific_replica rat r token =
     (let ec = try_lock_for_intermediate_replica_access rat r token in
      if ec < 0 then ec
      else if replica_locked r then LOCKED_DATA_OBJECT_ACCESS
      else 0)"

definition try_lock :: "DataObjInfo list \<Rightarrow> int" where
  "try_lock obj = try_lock_for_locked_data_object True obj"

definition try_lock_hierarchy :: "access_map \<Rightarrow> DataObjInfo list \<Rightarrow> string \<Rightarrow> string \<Rightarrow> int" where
  "try_lock_hierarchy rat obj hier token = (case find_replica_hier hier obj of
      None \<Rightarrow> try_lock_for_locked_data_object True obj
    | Some r \<Rightarrow> try_lock_for_specific_replica rat r token)"

definition try_lock_number :: "access_map \<Rightarrow> DataObjInfo list \<Rightarrow> int \<Rightarrow> string \<Rightarrow> int" where
  "try_lock_number rat obj n token = (case find_replica_number n obj of
      None \<Rightarrow> try_lock_for_locked_data_object True obj
    | Some r \<Rightarrow> try_lock_for_specific_replica rat r token)"

end
