(* ===== verification/Locking_Refinement.thy ===== *)
theory Locking_Refinement
  imports Logical_Locking
begin

text \<open>
  What locking does, abstractly: a data object is a list of \<open>lock_view\<close>s (the number of a replica, the status
  it had when the object was opened, its current status and the status saved for it, if any), and locking
  and unlocking are functions on such lists. The operations on the replica state table refine them, and
  change nothing else in the table.
\<close>

section \<open>The abstract object\<close>

record lock_view =
  num :: int
  orig :: int
  dirty :: int
  saved :: "int option"

definition abs_save :: "lock_view \<Rightarrow> lock_view" where
  "abs_save v = v\<lparr>saved := (case saved v of None \<Rightarrow> Some (orig v) | Some s \<Rightarrow> Some s)\<rparr>"

definition abs_lock :: "int \<Rightarrow> lock_type \<Rightarrow> lock_view list \<Rightarrow> lock_view list" where
  "abs_lock target lt vs = map (\<lambda>v. (abs_save v)\<lparr>dirty :=
     (if num v = target \<and> lt = write_lock then INTERMEDIATE_REPLICA else lock_type_to_repl_status lt)\<rparr>) vs"

definition abs_unlock :: "int \<Rightarrow> int \<Rightarrow> int \<Rightarrow> lock_view list \<Rightarrow> lock_view list" where
  "abs_unlock target st others vs = map (\<lambda>v. v\<lparr>saved := None, dirty :=
     (if num v = target
      then (if st = restore_status then (case saved v of None \<Rightarrow> STALE_REPLICA | Some s \<Rightarrow> s) else st)
      else (if others = restore_status then (case saved v of None \<Rightarrow> dirty v | Some s \<Rightarrow> s) else others))\<rparr>) vs"

section \<open>The table shows the abstract object\<close>

text \<open>What the JSON library is relied on for: the text of an object is not empty and reads back.\<close>

definition json_text_ok :: "json_text \<Rightarrow> bool" where
  "json_text_ok J = (\<forall>v. jdump J [(''original_status'', v)] \<noteq> [] \<and>
     jparse J (jdump J [(''original_status'', v)]) = Inr [(''original_status'', v)])"

definition status_text :: "json_text \<Rightarrow> int option \<Rightarrow> string" where
  "status_text J s = (case s of None \<Rightarrow> [] | Some i \<Rightarrow> jdump J [(''original_status'', to_string i)])"

definition view_ok :: "lock_view \<Rightarrow> bool" where
  "view_ok v = (int32 (num v) \<and> num v \<noteq> unknown_replica_id \<and> int32 (orig v) \<and> orig v \<noteq> -1 \<and>
     (case saved v of None \<Rightarrow> True | Some s \<Rightarrow> int32 s \<and> s \<noteq> -1))"

definition shows_view :: "json_text \<Rightarrow> replica_state \<Rightarrow> lock_view \<Rightarrow> bool" where
  "shows_view J r v = (
     map_find (before r) ''data_repl_num'' = Some (to_string (num v)) \<and>
     map_find (before r) ''data_is_dirty'' = Some (to_string (orig v)) \<and>
     map_find (before r) ''data_status'' \<noteq> None \<and>
     map_find (after r) ''data_is_dirty'' = Some (to_string (dirty v)) \<and>
     map_find (after r) ''data_status'' = Some (status_text J (saved v)) \<and> view_ok v)"

text \<open>Everything but the two status properties of the entry's replicas is as in \<open>m0\<close>.\<close>

definition same_elsewhere :: "replica_state \<Rightarrow> replica_state \<Rightarrow> bool" where
  "same_elsewhere r0 r = (before r = before r0 \<and> file_modified r = file_modified r0 \<and>
     (\<forall>p. p \<noteq> ''data_is_dirty'' \<longrightarrow> p \<noteq> ''data_status'' \<longrightarrow> map_find (after r) p = map_find (after r0) p))"

definition frame :: "rst \<Rightarrow> int \<Rightarrow> rst \<Rightarrow> bool" where
  "frame m0 key m = ((\<forall>k. k \<noteq> key \<longrightarrow> map_find m k = map_find m0 k) \<and>
     rel_option (\<lambda>e0 e. entry_path e = entry_path e0 \<and> list_all2 same_elsewhere (replicas e0) (replicas e))
       (map_find m0 key) (map_find m key))"

definition displays :: "json_text \<Rightarrow> int \<Rightarrow> rst \<Rightarrow> lock_view list \<Rightarrow> bool" where
  "displays J key m vs = (distinct (map num vs) \<and>
     (\<exists>e. map_find m key = Some e \<and> list_all2 (shows_view J) (replicas e) vs))"

definition lock_rel :: "json_text \<Rightarrow> rst \<Rightarrow> int \<Rightarrow> rst \<Rightarrow> lock_view list \<Rightarrow> bool" where
  "lock_rel J m0 key m vs = (displays J key m vs \<and> frame m0 key m)"

lemma frame_refl: "frame m key m"
  by (auto simp: frame_def same_elsewhere_def intro!: option.rel_refl list_all2_refl)

lemma displays_known:
  assumes "displays J key m vs"
  obtains e where "known m key e (map num vs)" "list_all2 (shows_view J) (replicas e) vs"
proof -
  from assms obtain e where e: "map_find m key = Some e" "list_all2 (shows_view J) (replicas e) vs" "distinct (map num vs)"
    by (auto simp: displays_def)
  moreover from e(2) have "numbered (replicas e) (map num vs)"
    unfolding numbered_def list_all2_map1 list_all2_map2
    by (rule list_all2_mono) (simp add: shows_view_def view_ok_def)
  ultimately show ?thesis using that by (simp add: known_def)
qed

lemma same_elsewhere_set:
  assumes "same_elsewhere r0 r" "p = ''data_is_dirty'' \<or> p = ''data_status''"
  shows "same_elsewhere r0 (r\<lparr>after := map_set p x (after r)\<rparr>)"
proof -
  have "map_find (map_set p x (after r)) q = map_find (after r0) q"
    if q: "q \<noteq> ''data_is_dirty''" "q \<noteq> ''data_status''" for q
  proof -
    have "q \<noteq> p" using q assms(2) by blast
    with assms(1) q show ?thesis unfolding same_elsewhere_def map_of_map_set by simp
  qed
  with assms(1) show ?thesis unfolding same_elsewhere_def by simp
qed

text \<open>One update of one replica's status properties.\<close>

lemma update_step:
  assumes "lexical_cast_ok env" "lock_rel J m0 key m vs" "i < length vs" "num v' = num (vs ! i)"
    and p: "p = ''data_is_dirty'' \<or> p = ''data_status''"
    and v': "\<And>r. shows_view J r (vs ! i) \<Longrightarrow> shows_view J (r\<lparr>after := map_set p x (after r)\<rparr>) v'"
  shows "\<exists>m'. rst_update_number env key (num (vs ! i)) [(p, x)] m = (Inr (), m') \<and> lock_rel J m0 key m' (vs[i := v'])"
proof -
  from assms(2) obtain e where e: "known m key e (map num vs)" "list_all2 (shows_view J) (replicas e) vs"
    by (auto simp: lock_rel_def elim: displays_known)
  let ?r = "(replicas e ! i)\<lparr>after := map_set p x (after (replicas e ! i))\<rparr>"
  let ?m = "map_set key (update_after i [(p, x)] e) m"
  have len: "length (replicas e) = length vs" using e(2) by (rule list_all2_lengthD)
  have upd: "replicas (update_after i [(p, x)] e) = (replicas e)[i := ?r]"
    "entry_path (update_after i [(p, x)] e) = entry_path e"
    by (simp_all add: update_after_def attrs_update_def)
  have nums: "map num (vs[i := v']) = map num vs"
    using assms(3,4) by (metis list_update_id map_update nth_map)
  have "shows_view J ?r v'" using e(2) assms(3) len by (intro v') (simp add: list_all2_conv_all_nth)
  with e(2) have "list_all2 (shows_view J) ((replicas e)[i := ?r]) (vs[i := v'])"
    by (rule list_all2_update_cong)
  moreover have "distinct (map num vs)" using e(1) by (simp add: known_def)
  ultimately have sh: "displays J key ?m (vs[i := v'])"
    unfolding displays_def nums by (simp add: map_of_map_set upd)
  from assms(2) obtain e0 where e0: "map_find m0 key = Some e0" "entry_path e = entry_path e0"
      "list_all2 same_elsewhere (replicas e0) (replicas e)" "\<forall>k. k \<noteq> key \<longrightarrow> map_find m k = map_find m0 k"
    using e(1) by (auto simp: lock_rel_def frame_def known_def option_rel_Some2)
  have "same_elsewhere (replicas e0 ! i) (replicas e ! i)"
    using e0(3) assms(3) len by (simp add: list_all2_conv_all_nth)
  then have "same_elsewhere (replicas e0 ! i) ?r" by (rule same_elsewhere_set [OF _ p])
  with e0(3) have "list_all2 same_elsewhere ((replicas e0)[i := replicas e0 ! i]) ((replicas e)[i := ?r])"
    by (rule list_all2_update_cong)
  with e0 have fr: "frame m0 key ?m"
    by (simp add: frame_def map_of_map_set upd)
  have "rst_update_number env key (num (vs ! i)) [(p, x)] m = (Inr (), ?m)"
    using update_number_known [OF assms(1) e(1), of i "[(p, x)]"] assms(3) by simp
  with sh fr show ?thesis by (auto simp: lock_rel_def)
qed

lemma shows_view_dirty:
  "shows_view J r v \<Longrightarrow> shows_view J (r\<lparr>after := map_set ''data_is_dirty'' (to_string d) (after r)\<rparr>) (v\<lparr>dirty := d\<rparr>)"
  by (simp add: shows_view_def map_of_map_set view_ok_def)

lemma shows_view_status:
  "shows_view J r v \<Longrightarrow> view_ok (v\<lparr>saved := s\<rparr>) \<Longrightarrow>
    shows_view J (r\<lparr>after := map_set ''data_status'' (status_text J s) (after r)\<rparr>) (v\<lparr>saved := s\<rparr>)"
  by (simp add: shows_view_def map_of_map_set)

lemma update_dirty:
  assumes "lexical_cast_ok env" "lock_rel J m0 key m vs" "i < length vs"
  shows "\<exists>m'. rst_update_number env key (num (vs ! i)) [(''data_is_dirty'', to_string d)] m = (Inr (), m') \<and>
    lock_rel J m0 key m' (vs[i := (vs ! i)\<lparr>dirty := d\<rparr>])"
  by (rule update_step [OF assms]) (simp_all add: shows_view_dirty)

lemma update_status:
  assumes "lexical_cast_ok env" "lock_rel J m0 key m vs" "i < length vs" "view_ok ((vs ! i)\<lparr>saved := s\<rparr>)"
  shows "\<exists>m'. rst_update_number env key (num (vs ! i)) [(''data_status'', status_text J s)] m = (Inr (), m') \<and>
    lock_rel J m0 key m' (vs[i := (vs ! i)\<lparr>saved := s\<rparr>])"
  by (rule update_step [OF assms(1-3)]) (simp_all add: shows_view_status assms(4))

section \<open>Reading a replica and looping over the replicas\<close>

lemma read_view:
  assumes "json_text_ok J" "shows_view J r v"
  shows "replica_number_of r = Inr (num v)"
    and "get_original_replica_status_impl J r = Inr (case saved v of None \<Rightarrow> -1 | Some s \<Rightarrow> s)"
proof -
  from assms(2) show "replica_number_of r = Inr (num v)"
    by (simp add: shows_view_def replica_number_of_def json_at_def view_ok_def int32_def)
  have st: "map_find (after r) ''data_status'' = Some (status_text J (saved v))" "view_ok v"
    using assms(2) by (simp_all add: shows_view_def)
  show "get_original_replica_status_impl J r = Inr (case saved v of None \<Rightarrow> -1 | Some s \<Rightarrow> s)"
  proof (cases "saved v")
    case (Some s)
    with st(2) have "int32 s" by (simp add: view_ok_def)
    with Some assms(1) show ?thesis
      by (simp add: get_original_replica_status_impl_def json_at_def st(1) status_text_def json_text_ok_def int32_def)
  qed (simp add: get_original_replica_status_impl_def json_at_def st(1) status_text_def)
qed

lemma read_property:
  assumes "lexical_cast_ok env" "lock_rel J m0 key m vs" "i < length vs"
  shows "get_property_number env key (num (vs ! i)) ''data_is_dirty'' before_state m = Inr (to_string (orig (vs ! i)))"
    and "\<exists>s. get_property_number env key (num (vs ! i)) ''data_status'' before_state m = Inr s"
proof -
  from assms(2) obtain e where e: "known m key e (map num vs)" "list_all2 (shows_view J) (replicas e) vs"
    by (auto simp: lock_rel_def elim: displays_known)
  then have "shows_view J (replicas e ! i) (vs ! i)" using assms(3) by (simp add: list_all2_conv_all_nth)
  with get_property_known(2) [OF assms(1) e(1), of i] assms(3)
  show "get_property_number env key (num (vs ! i)) ''data_is_dirty'' before_state m = Inr (to_string (orig (vs ! i)))"
    and "\<exists>s. get_property_number env key (num (vs ! i)) ''data_status'' before_state m = Inr s"
    by (auto simp: shows_view_def json_at_def)
qed

lemma at_displayed:
  assumes "displays J key m vs"
  obtains rs path where "rst_at key m = Inr rs" "get_logical_path key m = Inr path" "list_all2 (shows_view J) rs vs"
  using assms by (auto simp: displays_def rst_at_def get_logical_path_def)

text \<open>A loop over the replicas whose body treats each by \<open>f\<close> treats the object by \<open>map f\<close>.\<close>

lemma sfor_views:
  assumes step: "\<And>i m. i < length vs \<Longrightarrow> R m (map f (take i vs) @ drop i vs) \<Longrightarrow>
      \<exists>m'. body (rs ! i) m = (Inr (), m') \<and> R m' ((map f (take i vs) @ drop i vs)[i := f (vs ! i)])"
    and "R m vs" "length rs = length vs"
  shows "\<exists>m'. sfor rs body m = (Inr (), m') \<and> R m' (map f vs)"
proof -
  have "j \<le> length vs \<Longrightarrow> R m (map f (take j vs) @ drop j vs) \<Longrightarrow>
      \<exists>m'. sfor (drop j rs) body m = (Inr (), m') \<and> R m' (map f vs)" for j m
  proof (induction "length vs - j" arbitrary: j m)
    case 0 then show ?case using assms(3) by simp
  next
    case (Suc n)
    then have j: "j < length vs" by simp
    from step [OF j Suc.prems(2)] obtain m' where m': "body (rs ! j) m = (Inr (), m')"
      "R m' ((map f (take j vs) @ drop j vs)[j := f (vs ! j)])" by blast
    have "(map f (take j vs) @ drop j vs)[j := f (vs ! j)] = map f (take (Suc j) vs) @ drop (Suc j) vs"
      using j by (simp add: list_update_append take_Suc_conv_app_nth Cons_nth_drop_Suc [symmetric])
    moreover have "n = length vs - Suc j" using Suc.hyps(2) by simp
    ultimately obtain m'' where "sfor (drop (Suc j) rs) body m' = (Inr (), m'')" "R m'' (map f vs)"
      using m' Suc.hyps(1) [of "Suc j" m'] j by auto
    moreover have "drop j rs = rs ! j # drop (Suc j) rs" using j assms(3) by (simp add: Cons_nth_drop_Suc)
    ultimately show ?case using m'(1) by (simp add: sbind_def)
  qed
  from this [of 0 m] assms(2) show ?thesis by simp
qed

text \<open>The object inside such a loop: the current replica is still as it was.\<close>

lemma loop_nth:
  "i < length vs \<Longrightarrow> (map f (take i vs) @ drop i vs) ! i = vs ! i"
  "length (map f (take i vs) @ drop i vs) = length vs"
  by (simp_all add: nth_append)

section \<open>The loops\<close>

lemma insert_data_status_refines:
  assumes "lexical_cast_ok env" "json_text_ok J" "lock_rel J m0 key m vs"
  shows "\<exists>m'. insert_data_status env J key m = (Inr (), m') \<and> lock_rel J m0 key m' (map abs_save vs)"
proof -
  from assms(3) obtain rs path where rs: "rst_at key m = Inr rs" "get_logical_path key m = Inr path"
    "list_all2 (shows_view J) rs vs"
    by (auto simp: lock_rel_def elim: at_displayed)
  have len: "length rs = length vs" using rs(3) by (rule list_all2_lengthD)
  have "\<exists>m'. sfor rs (insert_one_status env J key) m = (Inr (), m') \<and> lock_rel J m0 key m' (map abs_save vs)"
  proof (rule sfor_views [where R = "lock_rel J m0 key", OF _ assms(3) len])
    fix i m assume i: "i < length vs" and R: "lock_rel J m0 key m (map abs_save (take i vs) @ drop i vs)"
    have v: "shows_view J (rs ! i) (vs ! i)" using rs(3) i len by (simp add: list_all2_conv_all_nth)
    then have ok: "view_ok (vs ! i)" by (simp add: shows_view_def)
    note here = read_view [OF assms(2) v] read_property(1) [OF assms(1) R, of i]
      update_status [OF assms(1) R, of i "Some (orig (vs ! i))"]
    show "\<exists>m'. insert_one_status env J key (rs ! i) m = (Inr (), m') \<and>
        lock_rel J m0 key m' ((map abs_save (take i vs) @ drop i vs)[i := abs_save (vs ! i)])"
    proof (cases "saved (vs ! i)")
      case None
      with here ok i show ?thesis
        by (simp add: insert_one_status_def sbind_def loop_nth status_text_def view_ok_def abs_save_def)
    next
      case (Some s)
      then have "abs_save (vs ! i) = vs ! i" by (simp add: abs_save_def)
      moreover have "(map abs_save (take i vs) @ drop i vs)[i := vs ! i] = map abs_save (take i vs) @ drop i vs"
        using i loop_nth(1) [OF i, of abs_save] list_update_id [of "map abs_save (take i vs) @ drop i vs" i] by simp
      ultimately show ?thesis
        using here ok Some R by (simp add: insert_one_status_def sbind_def view_ok_def)
    qed
  qed
  then show ?thesis by (simp add: insert_data_status_def sbind_def rs)
qed

text \<open>The three other loops change the current replica in one step or leave it alone.\<close>

lemma loop_keep:
  "i < length vs \<Longrightarrow> (map f (take i vs) @ drop i vs)[i := vs ! i] = map f (take i vs) @ drop i vs"
  using loop_nth(1) [of i vs f] list_update_id [of "map f (take i vs) @ drop i vs" i] by simp

lemma set_replica_statuses_refines:
  assumes "lexical_cast_ok env" "json_text_ok J" "lock_rel J m0 key m vs"
  shows "\<exists>m'. set_replica_statuses env key target st m = (Inr (), m') \<and>
    lock_rel J m0 key m' (map (\<lambda>v. if num v = target then v else v\<lparr>dirty := st\<rparr>) vs)"
proof -
  let ?f = "\<lambda>v. if num v = target then v else v\<lparr>dirty := st\<rparr>"
  from assms(3) obtain rs path where rs: "rst_at key m = Inr rs" "list_all2 (shows_view J) rs vs"
    by (auto simp: lock_rel_def elim: at_displayed)
  have len: "length rs = length vs" using rs(2) by (rule list_all2_lengthD)
  have "\<exists>m'. sfor rs (set_one_status env key target st) m = (Inr (), m') \<and> lock_rel J m0 key m' (map ?f vs)"
  proof (rule sfor_views [where R = "lock_rel J m0 key", OF _ assms(3) len])
    fix i m assume i: "i < length vs" and R: "lock_rel J m0 key m (map ?f (take i vs) @ drop i vs)"
    have v: "shows_view J (rs ! i) (vs ! i)" using rs(2) i len by (simp add: list_all2_conv_all_nth)
    obtain s where "get_property_number env key (num (vs ! i)) ''data_status'' before_state m = Inr s"
      using read_property(2) [OF assms(1) R, of i] i by (auto simp: loop_nth)
    with read_view(1) [OF assms(2) v] update_dirty [OF assms(1) R, of i st] i R
    show "\<exists>m'. set_one_status env key target st (rs ! i) m = (Inr (), m') \<and>
        lock_rel J m0 key m' ((map ?f (take i vs) @ drop i vs)[i := ?f (vs ! i)])"
      by (auto simp: set_one_status_def sbind_def loop_nth loop_keep simp del: map_append)
  qed
  then show ?thesis by (simp add: set_replica_statuses_def sbind_def rs)
qed

lemma restore_replica_statuses_refines:
  assumes "lexical_cast_ok env" "json_text_ok J" "lock_rel J m0 key m vs"
  shows "\<exists>m'. restore_replica_statuses env J key target m = (Inr (), m') \<and>
    lock_rel J m0 key m' (map (\<lambda>v. if num v = target then v else v\<lparr>dirty := (case saved v of None \<Rightarrow> dirty v | Some s \<Rightarrow> s)\<rparr>) vs)"
proof -
  let ?f = "\<lambda>v. if num v = target then v else v\<lparr>dirty := (case saved v of None \<Rightarrow> dirty v | Some s \<Rightarrow> s)\<rparr>"
  from assms(3) obtain rs path where rs: "rst_at key m = Inr rs" "get_logical_path key m = Inr path" "list_all2 (shows_view J) rs vs"
    by (auto simp: lock_rel_def elim: at_displayed)
  have len: "length rs = length vs" using rs(3) by (rule list_all2_lengthD)
  have "\<exists>m'. sfor rs (restore_one_status env J key target) m = (Inr (), m') \<and> lock_rel J m0 key m' (map ?f vs)"
  proof (rule sfor_views [where R = "lock_rel J m0 key", OF _ assms(3) len])
    fix i m assume i: "i < length vs" and R: "lock_rel J m0 key m (map ?f (take i vs) @ drop i vs)"
    have v: "shows_view J (rs ! i) (vs ! i)" using rs(3) i len by (simp add: list_all2_conv_all_nth)
    then have ok: "view_ok (vs ! i)" by (simp add: shows_view_def)
    show "\<exists>m'. restore_one_status env J key target (rs ! i) m = (Inr (), m') \<and>
        lock_rel J m0 key m' ((map ?f (take i vs) @ drop i vs)[i := ?f (vs ! i)])"
    proof (cases "num (vs ! i) = target \<or> saved (vs ! i) = None")
      case True
      then have "?f (vs ! i) = vs ! i" by auto
      then show ?thesis
        using True i R read_view [OF assms(2) v]
        by (auto simp: restore_one_status_def sbind_def loop_keep simp del: map_append)
    next
      case False
      then obtain s where "saved (vs ! i) = Some s" by auto
      then show ?thesis
        using False ok i read_view [OF assms(2) v] update_dirty [OF assms(1) R, of i s]
        by (simp add: restore_one_status_def sbind_def loop_nth view_ok_def eq_commute [of target] del: map_append)
    qed
  qed
  then show ?thesis by (simp add: restore_replica_statuses_def sbind_def rs)
qed

lemma remove_data_status_refines:
  assumes "lexical_cast_ok env" "json_text_ok J" "lock_rel J m0 key m vs"
  shows "\<exists>m'. remove_data_status env key m = (Inr (), m') \<and> lock_rel J m0 key m' (map (\<lambda>v. v\<lparr>saved := None\<rparr>) vs)"
proof -
  let ?f = "\<lambda>v. v\<lparr>saved := None\<rparr>"
  let ?body = "\<lambda>r. sbind (sget (\<lambda>_. replica_number_of r)) (\<lambda>n. rst_update_number env key n [(''data_status'', [])])"
  from assms(3) obtain rs where rs: "rst_at key m = Inr rs" "list_all2 (shows_view J) rs vs"
    by (auto simp: lock_rel_def elim: at_displayed)
  have len: "length rs = length vs" using rs(2) by (rule list_all2_lengthD)
  have "\<exists>m'. sfor rs ?body m = (Inr (), m') \<and> lock_rel J m0 key m' (map ?f vs)"
  proof (rule sfor_views [where R = "lock_rel J m0 key", OF _ assms(3) len])
    fix i m assume i: "i < length vs" and R: "lock_rel J m0 key m (map ?f (take i vs) @ drop i vs)"
    have v: "shows_view J (rs ! i) (vs ! i)" using rs(2) i len by (simp add: list_all2_conv_all_nth)
    then have "view_ok ((vs ! i)\<lparr>saved := None\<rparr>)" by (simp add: shows_view_def view_ok_def)
    with read_view(1) [OF assms(2) v] update_status [OF assms(1) R, of i None] i
    show "\<exists>m'. ?body (rs ! i) m = (Inr (), m') \<and> lock_rel J m0 key m' ((map ?f (take i vs) @ drop i vs)[i := ?f (vs ! i)])"
      by (simp add: sbind_def loop_nth status_text_def del: map_append)
  qed
  then show ?thesis by (simp add: remove_data_status_def sbind_def rs)
qed

section \<open>Locking and unlocking\<close>

text \<open>The update of the target replica itself.\<close>

lemma target_update:
  assumes "lexical_cast_ok env" "lock_rel J m0 key m vs" "target \<in> num ` set vs"
  shows "\<exists>m'. rst_update_number env key target [(''data_is_dirty'', to_string d)] m = (Inr (), m') \<and>
    lock_rel J m0 key m' (map (\<lambda>v. if num v = target then v\<lparr>dirty := d\<rparr> else v) vs)"
proof -
  from assms(3) obtain t where t: "t < length vs" "target = num (vs ! t)" by (auto simp: in_set_conv_nth)
  have d: "distinct (map num vs)" using assms(2) by (simp add: lock_rel_def displays_def)
  have "num (vs ! j) = target \<longleftrightarrow> j = t" if "j < length vs" for j
    using d t that nth_eq_iff_index_eq [of "map num vs" j t] by simp
  then have "map (\<lambda>v. if num v = target then v\<lparr>dirty := d\<rparr> else v) vs = vs[t := (vs ! t)\<lparr>dirty := d\<rparr>]"
    using t by (intro nth_equalityI) (auto simp: nth_list_update)
  with update_dirty [OF assms(1,2) t(1), of d] t(2) show ?thesis by simp
qed

lemma lock_rel_start: "displays J key m vs \<Longrightarrow> lock_rel J m key m vs"
  by (simp add: lock_rel_def frame_refl)

lemma nums_ok: "lock_rel J m0 key m vs \<Longrightarrow> -1 \<notin> num ` set vs"
  by (auto simp: lock_rel_def displays_def list_all2_conv_all_nth shows_view_def view_ok_def in_set_conv_nth)

lemma lock_refines:
  assumes "lexical_cast_ok env" "json_text_ok J" "lock_rel J m0 key m vs" "target \<in> insert unknown_replica_id (num ` set vs)"
  shows "\<exists>m'. lock_impl env J key target lt m = (0, m') \<and> lock_rel J m0 key m' (abs_lock target lt vs)"
proof -
  from insert_data_status_refines [OF assms(1-3)] obtain m1 where m1: "insert_data_status env J key m = (Inr (), m1)"
    "lock_rel J m0 key m1 (map abs_save vs)" by blast
  let ?d = "if lt = write_lock then INTERMEDIATE_REPLICA else lock_type_to_repl_status lt"
  let ?g = "\<lambda>v. if num v = target then v\<lparr>dirty := ?d\<rparr> else v"
  have nums: "num ` set (map abs_save vs) = num ` set vs"
    by (auto simp: abs_save_def image_iff split: option.splits)
  have "\<exists>m2. (if unknown_replica_id \<noteq> target then rst_update_number env key target [(''data_is_dirty'', to_string ?d)]
      else sreturn ()) m1 = (Inr (), m2) \<and> lock_rel J m0 key m2 (map ?g (map abs_save vs))"
  proof (cases "target = unknown_replica_id")
    case True
    with nums_ok [OF m1(2)] have "\<And>d. map (\<lambda>v. if num v = target then v\<lparr>dirty := d\<rparr> else v) (map abs_save vs) = map abs_save vs" by (intro map_idI) force
    with True m1(2) show ?thesis by (simp del: map_map)
  next
    case False
    with target_update [OF assms(1) m1(2), of target ?d] assms(4) nums show ?thesis by auto
  qed
  then obtain m2 where m2: "(if unknown_replica_id \<noteq> target then rst_update_number env key target [(''data_is_dirty'', to_string ?d)]
      else sreturn ()) m1 = (Inr (), m2)" "lock_rel J m0 key m2 (map ?g (map abs_save vs))" by blast
  from set_replica_statuses_refines [OF assms(1,2) m2(2), of target "lock_type_to_repl_status lt"]
  obtain m3 where m3: "set_replica_statuses env key target (lock_type_to_repl_status lt) m2 = (Inr (), m3)"
    "lock_rel J m0 key m3 (map (\<lambda>v. if num v = target then v else v\<lparr>dirty := lock_type_to_repl_status lt\<rparr>)
       (map ?g (map abs_save vs)))" by blast
  have "map (\<lambda>v. if num v = target then v else v\<lparr>dirty := lock_type_to_repl_status lt\<rparr>) (map ?g (map abs_save vs)) = abs_lock target lt vs"
    by (cases lt) (simp_all add: abs_lock_def abs_save_def)
  with m1(1) m2(1) m3 show ?thesis
    by (simp add: lock_impl_def catch_all_def sbind_def Let_def)
qed

lemma unlock_target_refines:
  assumes "lexical_cast_ok env" "json_text_ok J" "lock_rel J m0 key m vs" "target \<in> num ` set vs"
  shows "\<exists>m'. unlock_target env J key target st m = (Inr (), m') \<and>
    lock_rel J m0 key m' (map (\<lambda>v. if num v = target then v\<lparr>dirty :=
      (if st = restore_status then (case saved v of None \<Rightarrow> STALE_REPLICA | Some s \<Rightarrow> s) else st)\<rparr> else v) vs)"
proof -
  from assms(4) obtain t where t: "t < length vs" "target = num (vs ! t)" by (auto simp: in_set_conv_nth)
  from assms(3) obtain e where e: "known m key e (map num vs)" "list_all2 (shows_view J) (replicas e) vs"
    by (auto simp: lock_rel_def elim: displays_known)
  have v: "shows_view J (replicas e ! t) (vs ! t)" using e(2) t(1) by (simp add: list_all2_conv_all_nth)
  then have ok: "view_ok (vs ! t)" by (simp add: shows_view_def)
  have os: "get_original_replica_status env J key target m = Inr (case saved (vs ! t) of None \<Rightarrow> -1 | Some s \<Rightarrow> s)"
    using at_number_known [OF assms(1) e(1), of t both_states] t read_view(2) [OF assms(2) v]
    by (simp add: get_original_replica_status_def)
  let ?s = "if st = restore_status then (case saved (vs ! t) of None \<Rightarrow> STALE_REPLICA | Some s \<Rightarrow> s) else st"
  have "unlock_target env J key target st m = rst_update_number env key target [(''data_is_dirty'', to_string ?s)] m"
    using os ok by (auto simp: unlock_target_def sbind_def view_ok_def split: option.splits)
  moreover have "v = vs ! t" if "v \<in> set vs" "num v = target" for v
    using that t e(1) nth_eq_iff_index_eq [of "map num vs"] by (auto simp: known_def in_set_conv_nth)
  then have "map (\<lambda>v. if num v = target then v\<lparr>dirty := ?s\<rparr> else v) vs = map (\<lambda>v. if num v = target then v\<lparr>dirty :=
      (if st = restore_status then (case saved v of None \<Rightarrow> STALE_REPLICA | Some s \<Rightarrow> s) else st)\<rparr> else v) vs"
    by (intro map_cong) auto
  ultimately show ?thesis using target_update [OF assms(1,3,4), of ?s] by (simp only:)
qed

lemma unlock_refines:
  assumes "lexical_cast_ok env" "json_text_ok J" "lock_rel J m0 key m vs" "target \<in> insert unknown_replica_id (num ` set vs)"
  shows "\<exists>m'. unlock_impl env J key target st others m = (0, m') \<and> lock_rel J m0 key m' (abs_unlock target st others vs)"
proof -
  let ?g = "\<lambda>v. if num v = target then v\<lparr>dirty :=
      (if st = restore_status then (case saved v of None \<Rightarrow> STALE_REPLICA | Some s \<Rightarrow> s) else st)\<rparr> else v"
  let ?h = "\<lambda>v. if num v = target then v
     else v\<lparr>dirty := (if others = restore_status then (case saved v of None \<Rightarrow> dirty v | Some s \<Rightarrow> s) else others)\<rparr>"
  have "\<exists>m1. (if unknown_replica_id \<noteq> target then unlock_target env J key target st else sreturn ()) m = (Inr (), m1) \<and>
      lock_rel J m0 key m1 (map ?g vs)"
  proof (cases "target = unknown_replica_id")
    case True
    with nums_ok [OF assms(3)] have "map ?g vs = vs" by (intro map_idI) force
    with True assms(3) show ?thesis by simp
  next
    case False
    with unlock_target_refines [OF assms(1-3), of target st] assms(4) show ?thesis by auto
  qed
  then obtain m1 where m1: "(if unknown_replica_id \<noteq> target then unlock_target env J key target st else sreturn ()) m = (Inr (), m1)"
    "lock_rel J m0 key m1 (map ?g vs)" by blast
  obtain m2 where m2: "(if restore_status = others then restore_replica_statuses env J key target
      else set_replica_statuses env key target others) m1 = (Inr (), m2)" "lock_rel J m0 key m2 (map ?h (map ?g vs))"
  proof (cases "restore_status = others")
    case True
    with that restore_replica_statuses_refines [OF assms(1,2) m1(2), of target] show thesis by (simp only: if_True refl) blast
  next
    case False
    with that set_replica_statuses_refines [OF assms(1,2) m1(2), of target others] show thesis
      by (simp only: if_False eq_commute [of others]) blast
  qed
  from remove_data_status_refines [OF assms(1,2) m2(2)]
  obtain m3 where m3: "remove_data_status env key m2 = (Inr (), m3)"
    "lock_rel J m0 key m3 (map (\<lambda>v. v\<lparr>saved := None\<rparr>) (map ?h (map ?g vs)))" by blast
  have "map (\<lambda>v. v\<lparr>saved := None\<rparr>) (map ?h (map ?g vs)) = abs_unlock target st others vs"
    by (simp add: abs_unlock_def)
  with m1(1) m2(1) m3 show ?thesis by (simp add: unlock_impl_def catch_all_def sbind_def)
qed

text \<open>A concrete JSON text for the objects of this component, and the views of the sample entry.\<close>

definition sample_json :: json_text where
  "sample_json = \<lparr>jdump = (\<lambda>a. CHR ''{'' # concat (map (\<lambda>(k, v). v) a)),
     jparse = (\<lambda>s. case s of [] \<Rightarrow> Inl json_exception | c # cs \<Rightarrow> Inr [(''original_status'', cs)])\<rparr>"

definition sample_views :: "lock_view list" where
  "sample_views = [\<lparr>num = 0, orig = 1, dirty = 1, saved = None\<rparr>, \<lparr>num = 1, orig = 0, dirty = 0, saved = None\<rparr>]"

lemma sample_json_ok: "json_text_ok sample_json"
  by (simp add: json_text_ok_def sample_json_def)

lemma sample_displays: "displays sample_json 7 [(7, sample_entry)] sample_views"
  by (simp add: displays_def sample_views_def sample_entry_def shows_view_def sample_replica_find view_ok_def
      status_text_def int32_def)

text \<open>C2 (refinement). On an object whose replicas have distinct numbers, \<open>lock_impl\<close> implements the
  abstract lock: it returns 0, every replica remembers the status it had before the first lock, the
  target of a write lock becomes intermediate and every other replica gets the status of the lock; no
  other property, replica or object of the table changes. The target is one of the replicas or the
  unknown replica, and the JSON text of a saved status reads back.\<close>

theorem lock_impl_refines:
  assumes "lexical_cast_ok env" "json_text_ok J" "displays J key m vs"
    "target = unknown_replica_id \<or> target \<in> num ` set vs"
  shows "\<exists>m'. lock_impl env J key target lt m = (0, m') \<and> displays J key m' (abs_lock target lt vs) \<and> frame m key m'"
  using lock_refines [OF assms(1,2) lock_rel_start [OF assms(3)], of target lt] assms(4)
  by (simp only: lock_rel_def insert_iff)

theorem lock_impl_refines_witness:
  "\<exists>m'. lock_impl sample_env sample_json 7 1 write_lock [(7, sample_entry)] = (0, m') \<and>
     displays sample_json 7 m' [\<lparr>num = 0, orig = 1, dirty = WRITE_LOCKED, saved = Some 1\<rparr>,
       \<lparr>num = 1, orig = 0, dirty = INTERMEDIATE_REPLICA, saved = Some 0\<rparr>]"
  using lock_impl_refines [OF sample_env_ok sample_json_ok sample_displays, of 1 write_lock]
  by (auto simp: sample_views_def abs_lock_def abs_save_def)

text \<open>C3 (refinement). \<open>unlock_impl\<close> implements the abstract unlock: it returns 0, the target gets the
  given status and its siblings the status given for them, where -1 stands for the saved status (a
  target without one becomes stale, a sibling without one keeps its status), and no saved status
  remains; nothing else of the table changes.\<close>

theorem unlock_impl_refines:
  assumes "lexical_cast_ok env" "json_text_ok J" "displays J key m vs"
    "target = unknown_replica_id \<or> target \<in> num ` set vs"
  shows "\<exists>m'. unlock_impl env J key target st others m = (0, m') \<and>
    displays J key m' (abs_unlock target st others vs) \<and> frame m key m'"
  using unlock_refines [OF assms(1,2) lock_rel_start [OF assms(3)], of target st others] assms(4)
  by (simp only: lock_rel_def insert_iff)

theorem unlock_impl_refines_witness:
  "\<exists>m'. unlock_impl sample_env sample_json 7 0 restore_status STALE_REPLICA [(7, sample_entry)] = (0, m') \<and>
     displays sample_json 7 m' [\<lparr>num = 0, orig = 1, dirty = STALE_REPLICA, saved = None\<rparr>,
       \<lparr>num = 1, orig = 0, dirty = STALE_REPLICA, saved = None\<rparr>]"
  using unlock_impl_refines [OF sample_env_ok sample_json_ok sample_displays, of 0 restore_status STALE_REPLICA]
  by (auto simp: sample_views_def abs_unlock_def)

section \<open>Locks and their release\<close>

definition lock_all :: "rst_env \<Rightarrow> json_text \<Rightarrow> int \<Rightarrow> (int \<times> lock_type) list \<Rightarrow> rst \<Rightarrow> rst" where
  "lock_all env J key ops m = fold (\<lambda>(t, lt) m. snd (lock_impl env J key t lt m)) ops m"

definition abs_lock_all :: "(int \<times> lock_type) list \<Rightarrow> lock_view list \<Rightarrow> lock_view list" where
  "abs_lock_all ops vs = fold (\<lambda>(t, lt). abs_lock t lt) ops vs"

lemma num_abs_lock [simp]: "num ` set (abs_lock t lt vs) = num ` set vs"
  by (simp add: abs_lock_def abs_save_def image_image)

lemma lock_all_refines:
  assumes "lexical_cast_ok env" "json_text_ok J"
  shows "lock_rel J m0 key m vs \<Longrightarrow> fst ` set ops \<subseteq> insert unknown_replica_id (num ` set vs) \<Longrightarrow>
    lock_rel J m0 key (lock_all env J key ops m) (abs_lock_all ops vs)"
proof (induction ops arbitrary: m vs)
  case Nil then show ?case by (simp add: lock_all_def abs_lock_all_def)
next
  case (Cons op ops)
  obtain t lt where op: "op = (t, lt)" by (cases op)
  with Cons.prems lock_refines [OF assms Cons.prems(1), of t lt] obtain m'
    where m': "lock_impl env J key t lt m = (0, m')" "lock_rel J m0 key m' (abs_lock t lt vs)" by auto
  with Cons.IH [OF m'(2)] Cons.prems(2) op show ?case by (simp add: lock_all_def abs_lock_all_def)
qed

lemma abs_lock_all_saved:
  "\<forall>v\<in>set vs. saved v = Some (orig v) \<Longrightarrow>
    map (\<lambda>v. v\<lparr>dirty := orig v\<rparr>) (abs_lock_all ops vs) = map (\<lambda>v. v\<lparr>dirty := orig v\<rparr>) vs \<and>
    (\<forall>v\<in>set (abs_lock_all ops vs). saved v = Some (orig v))"
proof (induction ops arbitrary: vs)
  case Nil then show ?case by (simp add: abs_lock_all_def)
next
  case (Cons op ops)
  obtain t lt where op: "op = (t, lt)" by (cases op)
  have s: "\<forall>v\<in>set (abs_lock t lt vs). saved v = Some (orig v)"
    using Cons.prems by (auto simp: abs_lock_def abs_save_def)
  have "map (\<lambda>v. v\<lparr>dirty := orig v\<rparr>) (abs_lock t lt vs) = map (\<lambda>v. v\<lparr>dirty := orig v\<rparr>) vs"
    using Cons.prems by (auto simp: abs_lock_def abs_save_def)
  with Cons.IH [OF s] op show ?case by (simp add: abs_lock_all_def)
qed

lemma abs_lock_unlock:
  assumes "\<forall>v\<in>set vs. saved v = None \<and> dirty v = orig v" "ops \<noteq> []"
  shows "abs_unlock t restore_status restore_status (abs_lock_all ops vs) = vs"
proof -
  obtain t1 lt1 ops' where ops: "ops = (t1, lt1) # ops'" using assms(2) by (cases ops) auto
  let ?vs = "abs_lock t1 lt1 vs"
  have s: "\<forall>v\<in>set ?vs. saved v = Some (orig v)" using assms(1) by (auto simp: abs_lock_def abs_save_def)
  from abs_lock_all_saved [OF s, of ops']
  have k: "map (\<lambda>v. v\<lparr>dirty := orig v\<rparr>) (abs_lock_all ops vs) = map (\<lambda>v. v\<lparr>dirty := orig v\<rparr>) ?vs"
    "\<forall>v\<in>set (abs_lock_all ops vs). saved v = Some (orig v)"
    by (simp_all add: ops abs_lock_all_def)
  have "abs_unlock t restore_status restore_status (abs_lock_all ops vs) =
      map (\<lambda>v. v\<lparr>saved := None\<rparr>) (map (\<lambda>v. v\<lparr>dirty := orig v\<rparr>) (abs_lock_all ops vs))"
    using k(2) by (auto simp: abs_unlock_def)
  also have "\<dots> = vs" unfolding k(1) using assms(1) by (auto simp: abs_lock_def abs_save_def intro!: map_idI)
  finally show ?thesis .
qed

text \<open>C33 (roundtrip). Any number of locks of one object, of any replicas and kinds, followed by one unlock that
  restores the target and its siblings brings every replica back to the status it had at rest, with no
  saved status left, and changes nothing else of the table.\<close>

theorem lock_unlock_roundtrip:
  assumes "lexical_cast_ok env" "json_text_ok J" "displays J key m vs"
    "\<forall>v\<in>set vs. saved v = None \<and> dirty v = orig v"
    "ops \<noteq> []" "insert target (fst ` set ops) \<subseteq> insert unknown_replica_id (num ` set vs)"
  shows "\<exists>m'. unlock_impl env J key target restore_status restore_status (lock_all env J key ops m) = (0, m') \<and>
    displays J key m' vs \<and> frame m key m'"
proof -
  have l: "lock_rel J m key (lock_all env J key ops m) (abs_lock_all ops vs)"
    using lock_all_refines [OF assms(1,2) lock_rel_start [OF assms(3)]] assms(6) by simp
  have "num ` set (abs_lock_all ops vs) = num ` set vs"
    by (induction ops arbitrary: vs) (simp_all add: abs_lock_all_def case_prod_beta)
  with assms(6) unlock_refines [OF assms(1,2) l, of target restore_status restore_status]
  show ?thesis unfolding abs_lock_unlock [OF assms(4,5)] by (simp add: lock_rel_def)
qed

theorem lock_unlock_roundtrip_witness:
  "\<exists>m'. unlock_impl sample_env sample_json 7 1 restore_status restore_status
       (lock_all sample_env sample_json 7 [(1, write_lock), (0, read_lock)] [(7, sample_entry)]) = (0, m') \<and>
     displays sample_json 7 m' sample_views"
  using lock_unlock_roundtrip [OF sample_env_ok sample_json_ok sample_displays, of "[(1, write_lock), (0, read_lock)]" 1]
  by (auto simp: sample_views_def)

section \<open>Opening an intermediate replica\<close>

lemma try_lock_intermediate:
  assumes "find_replica_number n obj = Some r" "replStatus r = INTERMEDIATE_REPLICA"
  shows "try_lock_number rat obj n token =
    (if token \<noteq> [] \<and> rat_contains_token token (word_of_int (dataId r)) (word_of_int (replNum r)) rat
     then 0 else INTERMEDIATE_REPLICA_ACCESS)"
  using assms by (simp add: try_lock_number_def try_lock_for_specific_replica_def
      try_lock_for_intermediate_replica_access_def at_rest_def replica_locked_def)

text \<open>C4 (safety). In every state of the replica access table that executions without restorations reach, all
  agents that are granted an intermediate replica present the same token: the lock check and the
  table together never let two unrelated agents into a replica that is being written.\<close>

theorem intermediate_replica_one_token:
  assumes "reach rat_step no_restore [] rat"
    "find_replica_number n obj = Some r" "replStatus r = INTERMEDIATE_REPLICA"
    "try_lock_number rat obj n token1 = 0" "try_lock_number rat obj n token2 = 0"
  shows "token1 = token2"
proof -
  have "one_token rat" using rat_single.reach_keeps [OF assms(1)] by simp
  moreover have "rat_contains_token t (word_of_int (dataId r)) (word_of_int (replNum r)) rat"
    if "try_lock_number rat obj n t = 0" for t
    using that unfolding try_lock_intermediate [OF assms(2,3)] by (simp split: if_splits)
  ultimately show ?thesis using assms(4,5) unfolding one_token_contains by blast
qed

lemma sample_reach: "reach rat_step no_restore [] (map_set ''u'' \<lparr>data_id = 1, replica_number = 2, agent_pids = [7]\<rparr> [])"
proof -
  have "rat_step [] (Create 1 2 7) (map_set ''u'' \<lparr>data_id = 1, replica_number = 2, agent_pids = [7]\<rparr> [])"
    by (rule rat_step.create [where gen = "\<lambda>_. ''u''" and t = "''u''"])
      (simp add: create_new_entry_def generate_replica_token.simps)
  then show ?thesis by (meson no_restore.simps reach.intros)
qed

theorem intermediate_replica_one_token_witness:
  "\<not> try_lock_number (map_set ''u'' \<lparr>data_id = 1, replica_number = 2, agent_pids = [7]\<rparr> [])
      [empty_doi\<lparr>dataId := 1, replNum := 2, replStatus := INTERMEDIATE_REPLICA\<rparr>] 2 ''v'' = 0"
  using intermediate_replica_one_token [OF sample_reach, of 2
      "[empty_doi\<lparr>dataId := 1, replNum := 2, replStatus := INTERMEDIATE_REPLICA\<rparr>]"
      "empty_doi\<lparr>dataId := 1, replNum := 2, replStatus := INTERMEDIATE_REPLICA\<rparr>" "''u''" "''v''"]
  by (auto simp: find_replica_number_def try_lock_number_def try_lock_for_specific_replica_def
      try_lock_for_intermediate_replica_access_def at_rest_def replica_locked_def rat_contains_token_def)

text \<open>C34 (liveness). An agent that holds a replica's token is granted that replica for as long as it does not
  give the token up itself: whatever the other agents do with the table, the lock check of the overload that
  targets a replica number returns 0 for the token while the replica is intermediate. The check looks at the
  targeted replica only, so this holds whatever the status of the sibling replicas; the documentation of the
  overload in \<^verbatim>\<open>logical_locking.hpp\<close> says that a locked or intermediate sibling trips the lock, which the code
  does not do.\<close>

theorem token_holder_granted:
  assumes "run rat_step rat as rat'" "rat_inv rat" "list_all (\<lambda>a. op_pid a \<noteq> p) as"
    "p \<in> set (holders token rat)" "token \<noteq> []"
    "rat_contains_token token (word_of_int (dataId r)) (word_of_int (replNum r)) rat"
    "find_replica_number n obj = Some r" "replStatus r = INTERMEDIATE_REPLICA"
  shows "try_lock_number rat' obj n token = 0"
  using rat_held.run_grant [of rat as rat' p token "word_of_int (dataId r)" "word_of_int (replNum r)"] assms
  by (simp add: list_all_iff try_lock_intermediate)

theorem token_holder_granted_witness:
  "try_lock_number (map_set ''u'' \<lparr>data_id = 1, replica_number = 2, agent_pids = [7]\<rparr> [])
      [empty_doi\<lparr>dataId := 1, replNum := 2, replStatus := INTERMEDIATE_REPLICA\<rparr>] 2 ''u'' = 0"
proof -
  let ?m1 = "map_set ''u'' \<lparr>data_id = 1, replica_number = 2, agent_pids = [8, 7]\<rparr> []"
  let ?m2 = "map_set ''u'' \<lparr>data_id = 1, replica_number = 2, agent_pids = [7]\<rparr> []"
  have "rat_step ?m1 (Erase ''u'' 8) ?m2"
    by (simp add: rat_step_Erase erase_pid_token_def Let_def)
  then have "run rat_step ?m1 [Erase ''u'' 8] ?m2" by (rule run_Cons) (rule run_Nil)
  then show ?thesis
    using token_holder_granted [of ?m1 "[Erase ''u'' 8]" ?m2 7 "''u''"
        "empty_doi\<lparr>dataId := 1, replNum := 2, replStatus := INTERMEDIATE_REPLICA\<rparr>" 2
        "[empty_doi\<lparr>dataId := 1, replNum := 2, replStatus := INTERMEDIATE_REPLICA\<rparr>]"]
    by (simp add: rat_inv_def map_inv_def holders_def rat_contains_token_def find_replica_number_def)
qed

end
