(* ===== verification/Fixed_Buffer.thy ===== *)
theory Fixed_Buffer
  imports Std_Map
begin

text \<open>
  The first-fit allocator \<^verbatim>\<open>fixed_buffer_resource\<close> (\<^verbatim>\<open>lib/core/include/irods/fixed_buffer_resource.hpp\<close>) and the counting
  allocator \<^verbatim>\<open>capped_memory_resource\<close>. Addresses and sizes are naturals; \<^verbatim>\<open>std::size_t\<close> arithmetic that can wrap around
  is taken modulo \<open>2 ^ 64\<close>. The headers that the program links through the buffer are a list in link
  order, and the pointers that it stores in front of the blocks are a map from their address to the
  address they hold. The sizes are those of a 64-bit platform: a pointer has 8 bytes, a header 32, and
  both are aligned to 8.
\<close>

section \<open>The allocator\<close>

record hdr =
  h_addr :: nat
  h_size :: nat
  h_used :: bool

type_synonym stored = "(nat, nat) std_map"

record fbr =
  fb_buffer :: nat
  fb_size :: nat
  fb_allocated :: nat
  fb_headers :: "hdr list"
  fb_stored :: stored

text \<open>\<^verbatim>\<open>std::align\<close>: the next aligned address and the space left from there, if the size fits.\<close>

definition std_align :: "nat \<Rightarrow> nat \<Rightarrow> nat \<Rightarrow> nat \<Rightarrow> (nat \<times> nat) option" where
  "std_align alignment sz ptr space =
     (let pad = (alignment - ptr mod alignment) mod alignment in
      if sz + pad \<le> space then Some (ptr + pad, space - pad) else None)"

definition fixed_buffer_resource :: "nat \<Rightarrow> int \<Rightarrow> fbr throws" where
  "fixed_buffer_resource buffer sz =
     (if buffer = 0 \<or> sz \<le> 0 then Inl std_exception
      else case std_align 8 8 buffer (nat sz) of
        None \<Rightarrow> Inl std_exception
      | Some (aligned, space_remaining) \<Rightarrow>
          if space_remaining \<le> 32 then Inl std_exception
          else Inr \<lparr>fb_buffer = aligned, fb_size = nat sz, fb_allocated = 0,
            fb_headers = [\<lparr>h_addr = buffer, h_size = space_remaining - 32, h_used = False\<rparr>], fb_stored = []\<rparr>)"

definition address_of_data_segment :: "hdr \<Rightarrow> nat" where
  "address_of_data_segment h = h_addr h + 32"

definition sub64 :: "nat \<Rightarrow> nat \<Rightarrow> nat" where
  "sub64 a b = (a + 2 ^ 64 - b) mod 2 ^ 64"

text \<open>The aligned address, the space left from there and the store with the address of the data segment in
  front of it.\<close>

definition aligned_pointer :: "nat \<Rightarrow> nat \<Rightarrow> hdr \<Rightarrow> stored \<Rightarrow> (nat \<times> nat \<times> stored) option" where
  "aligned_pointer bytes alignment h s =
     (let data = address_of_data_segment h in
      case std_align alignment bytes (data + 8) (sub64 (h_size h) 8) of
        None \<Rightarrow> None
      | Some (aligned_ptr, space_remaining) \<Rightarrow>
          if bytes > space_remaining then None
          else Some (aligned_ptr, space_remaining, map_set (aligned_ptr - 8) data s))"

text \<open>The result, the headers that replace the given one, the allocated bytes and the stored pointers.\<close>

definition allocate_block :: "nat \<Rightarrow> nat \<Rightarrow> hdr \<Rightarrow> nat \<Rightarrow> stored \<Rightarrow> nat option \<times> hdr list \<times> nat \<times> stored" where
  "allocate_block bytes alignment h a s =
     (if h_used h then (None, [h], a, s)
      else if bytes = h_size h then
        (case aligned_pointer bytes alignment h s of
           None \<Rightarrow> (None, [h], a, s)
         | Some (p, _, s') \<Rightarrow> (Some p, [h\<lparr>h_used := True\<rparr>], (a + bytes) mod 2 ^ 64, s'))
      else if (8 + bytes + alignment - 1) mod 2 ^ 64 \<le> h_size h then
        (case aligned_pointer bytes alignment h s of
           None \<Rightarrow> (None, [h], a, s)
         | Some (p, space, s') \<Rightarrow>
             (let space_remaining = space - bytes; a' = (a + bytes) mod 2 ^ 64 in
              if space_remaining \<le> 32 + 8 - 1 then (Some p, [h\<lparr>h_size := bytes, h_used := True\<rparr>], a', s')
              else (case std_align 8 32 (p + bytes) space_remaining of
                 None \<Rightarrow> (None, [h], a', s')
               | Some (q, space_remaining') \<Rightarrow>
                   (Some p, [h\<lparr>h_size := bytes, h_used := True\<rparr>,
                      \<lparr>h_addr = q, h_size = space_remaining' - 32, h_used = False\<rparr>], a', s'))))
      else (None, [h], a, s))"

fun allocate_loop :: "nat \<Rightarrow> nat \<Rightarrow> hdr list \<Rightarrow> nat \<Rightarrow> stored \<Rightarrow> nat option \<times> hdr list \<times> nat \<times> stored" where
  "allocate_loop bytes alignment [] a s = (None, [], a, s)"
| "allocate_loop bytes alignment (h # hs) a s =
     (case allocate_block bytes alignment h a s of
        (Some p, hs', a', s') \<Rightarrow> (Some p, hs' @ hs, a', s')
      | (None, hs', a', s') \<Rightarrow>
          (case allocate_loop bytes alignment hs a' s' of (r, hs'', a'', s'') \<Rightarrow> (r, hs' @ hs'', a'', s'')))"

definition do_allocate :: "nat \<Rightarrow> nat \<Rightarrow> (fbr, nat) stm" where
  "do_allocate bytes alignment st =
     (case allocate_loop bytes alignment (fb_headers st) (fb_allocated st) (fb_stored st) of
        (r, hs, a, s) \<Rightarrow> (from_option std_exception r, st\<lparr>fb_headers := hs, fb_allocated := a, fb_stored := s\<rparr>))"

definition calculate_size_for_coalescing :: "nat \<Rightarrow> hdr \<Rightarrow> hdr list \<Rightarrow> nat" where
  "calculate_size_for_coalescing buffer_end h1 after_h2 =
     (case after_h2 of
        header_after_h2 # _ \<Rightarrow> h_addr header_after_h2 - address_of_data_segment h1
      | [] \<Rightarrow> buffer_end - address_of_data_segment h1)"

text \<open>The headers from the given one on.\<close>

fun coalesce_with_next_unused_block :: "nat \<Rightarrow> hdr list \<Rightarrow> hdr list" where
  "coalesce_with_next_unused_block buffer_end (h # header_to_remove # hs) =
     (if h_used h then h # header_to_remove # hs
      else if \<not> h_used header_to_remove
      then h\<lparr>h_size := calculate_size_for_coalescing buffer_end h hs\<rparr> # hs
      else h # header_to_remove # hs)"
| "coalesce_with_next_unused_block buffer_end hs = hs"

text \<open>\<open>None\<close>: the pointer in front of the block does not lead to a header, which is undefined in the program.\<close>

definition do_deallocate :: "nat \<Rightarrow> nat \<Rightarrow> fbr \<Rightarrow> fbr option" where
  "do_deallocate p bytes st =
     (let buffer_end = fb_buffer st + fb_size st in
      case map_find (fb_stored st) (p - 8) of
        None \<Rightarrow> None
      | Some data \<Rightarrow>
          (case dropWhile (\<lambda>h. h_addr h \<noteq> data - 32) (fb_headers st) of
             [] \<Rightarrow> None
           | h # hs \<Rightarrow>
               (let before_h = takeWhile (\<lambda>h. h_addr h \<noteq> data - 32) (fb_headers st);
                    from_h = coalesce_with_next_unused_block buffer_end (h\<lparr>h_used := False\<rparr> # hs);
                    hs' = (if before_h = [] then from_h
                           else butlast before_h @ coalesce_with_next_unused_block buffer_end (last before_h # from_h))
                in Some (st\<lparr>fb_headers := hs', fb_allocated := sub64 (fb_allocated st) bytes\<rparr>))))"

section \<open>The counting allocator\<close>

record capped = max_size :: nat  allocated_bytes :: nat

definition capped_memory_resource :: "int \<Rightarrow> capped throws" where
  "capped_memory_resource n = (if n \<le> 0 then Inl std_exception else Inr \<lparr>max_size = nat n, allocated_bytes = 0\<rparr>)"

text \<open>\<open>new_op\<close> is \<^verbatim>\<open>operator new\<close>, which throws when there is no memory.\<close>

definition capped_allocate :: "(nat \<Rightarrow> nat \<Rightarrow> nat throws) \<Rightarrow> nat \<Rightarrow> nat \<Rightarrow> (capped, nat) stm" where
  "capped_allocate new_op bytes alignment st =
     (if (allocated_bytes st + bytes) mod 2 ^ 64 \<ge> max_size st then (Inl std_exception, st)
      else case new_op bytes alignment of
        Inl e \<Rightarrow> (Inl e, st)
      | Inr p \<Rightarrow> (Inr p, st\<lparr>allocated_bytes := (allocated_bytes st + bytes) mod 2 ^ 64\<rparr>))"

definition capped_deallocate :: "nat \<Rightarrow> capped \<Rightarrow> capped" where
  "capped_deallocate bytes st = st\<lparr>allocated_bytes := sub64 (allocated_bytes st) bytes\<rparr>"

section \<open>The layout of the buffer\<close>

text \<open>A header with the address it handed out (meaningful when it is in use). Within the space up to the next
  header, a used header has its stored pointer and its block, a free one its free bytes.\<close>

type_synonym block = "hdr \<times> nat"

fun next_addr :: "nat \<Rightarrow> block list \<Rightarrow> nat" where
  "next_addr e [] = e"
| "next_addr e (b # bs) = h_addr (fst b)"

fun blocks_ok :: "nat \<Rightarrow> stored \<Rightarrow> block list \<Rightarrow> bool" where
  "blocks_ok e s [] = True"
| "blocks_ok e s ((h, p) # bs) =
     ((if h_used h then h_addr h + 40 \<le> p \<and> p + h_size h \<le> next_addr e bs \<and> map_find s (p - 8) = Some (h_addr h + 32)
       else h_addr h + 32 + h_size h \<le> next_addr e bs) \<and> blocks_ok e s bs)"

definition in_use :: "block list \<Rightarrow> (nat \<times> nat) set" where
  "in_use bs = {(p, h_size h) | h p. (h, p) \<in> set bs \<and> h_used h}"

lemma in_use_simps [simp]:
  "in_use [] = {}"
  "in_use ((h, p) # bs) = (if h_used h then insert (p, h_size h) (in_use bs) else in_use bs)"
  "in_use (bs @ cs) = in_use bs \<union> in_use cs"
  by (auto simp: in_use_def)

lemma in_use_finite [simp]: "finite (in_use bs)"
  by (induction bs) auto

lemma next_addr_append: "next_addr e (bs @ cs) = next_addr (next_addr e cs) bs"
  by (cases bs) auto

lemma blocks_ok_append:
  "blocks_ok e s (bs @ cs) \<longleftrightarrow> blocks_ok (next_addr e cs) s bs \<and> blocks_ok e s cs"
proof (induction bs)
  case (Cons b bs) then show ?case by (cases b) (simp add: next_addr_append)
qed simp

lemma blocks_ok_next: "blocks_ok e s bs \<Longrightarrow> bs \<noteq> [] \<Longrightarrow> next_addr e bs + 32 \<le> e"
proof (induction e s bs rule: blocks_ok.induct)
  case (2 e s h p bs) then show ?case by (cases bs) (auto split: if_splits)
qed simp

lemma next_addr_le: "blocks_ok e s bs \<Longrightarrow> next_addr e bs \<le> e"
  using blocks_ok_next [of e s bs] by (cases bs) auto

text \<open>Every block lies between the first header and the end.\<close>

lemma in_use_bounds:
  "blocks_ok e s bs \<Longrightarrow> (p, n) \<in> in_use bs \<Longrightarrow> next_addr e bs + 40 \<le> p \<and> p + n \<le> e"
proof (induction e s bs rule: blocks_ok.induct)
  case (2 e s h q bs)
  have "h_addr h + 32 \<le> next_addr e bs" using 2(2) by (auto split: if_splits)
  with 2 next_addr_le [of e s bs] show ?case by (auto split: if_splits)
qed simp

lemma header_bounds:
  "blocks_ok e s bs \<Longrightarrow> b \<in> set bs \<Longrightarrow> next_addr e bs \<le> h_addr (fst b) \<and> h_addr (fst b) + 32 \<le> e"
proof (induction e s bs rule: blocks_ok.induct)
  case (2 e s h q bs)
  have "h_addr h + 32 \<le> next_addr e bs" using 2(2) by (auto split: if_splits)
  with 2 next_addr_le [of e s bs] show ?case by auto
qed simp

text \<open>A change of the stored pointers that does not touch the ones of the blocks.\<close>

lemma blocks_ok_store:
  "blocks_ok e s bs \<Longrightarrow> (\<And>p n. (p, n) \<in> in_use bs \<Longrightarrow> map_find s' (p - 8) = map_find s (p - 8)) \<Longrightarrow> blocks_ok e s' bs"
proof (induction e s bs rule: blocks_ok.induct)
  case (2 e s h q bs)
  have "blocks_ok e s' bs" using 2 by (auto split: if_splits)
  moreover have "map_find s' (q - 8) = map_find s (q - 8)" if "h_used h" using 2(3) [of q "h_size h"] that by simp
  ultimately show ?case using 2(2) by (simp split: if_splits)
qed simp

text \<open>Two blocks, with their stored pointers, do not overlap; nor does a block and a header.\<close>

definition apart :: "nat \<Rightarrow> nat \<Rightarrow> nat \<Rightarrow> nat \<Rightarrow> bool" where
  "apart p n q m = (p + n \<le> q \<or> q + m \<le> p)"

lemma blocks_apart:
  "blocks_ok e s bs \<Longrightarrow> (p, n) \<in> in_use bs \<Longrightarrow> (q, m) \<in> in_use bs \<Longrightarrow> (p, n) = (q, m) \<or> apart (p - 8) (n + 8) (q - 8) (m + 8)"
proof (induction e s bs rule: blocks_ok.induct)
  case (2 e s h r bs)
  have later: "apart (r - 8) (h_size h + 8) (x - 8) (k + 8)" "apart (x - 8) (k + 8) (r - 8) (h_size h + 8)"
    if "h_used h" "(x, k) \<in> in_use bs" for x k
    using 2(2) that in_use_bounds [of e s bs x k] by (auto simp: apart_def)
  have ok: "blocks_ok e s bs" using 2(2) by simp
  from 2(3,4) consider "(p, n) \<in> in_use bs" "(q, m) \<in> in_use bs" | "h_used h" "(p, n) = (r, h_size h)" "(q, m) \<in> in_use bs"
    | "h_used h" "(q, m) = (r, h_size h)" "(p, n) \<in> in_use bs" | "(p, n) = (q, m)"
    by (auto split: if_splits)
  then show ?case
  proof cases
    case 1 then show ?thesis by (rule 2(1) [OF ok])
  next
    case 2 with later(1) [OF 2(1,3)] show ?thesis by simp
  next
    case 3 with later(2) [OF 3(1,3)] show ?thesis by simp
  qed simp
qed simp

lemma block_header_apart:
  "blocks_ok e s bs \<Longrightarrow> (p, n) \<in> in_use bs \<Longrightarrow> b \<in> set bs \<Longrightarrow> apart (p - 8) (n + 8) (h_addr (fst b)) 32"
proof (induction e s bs rule: blocks_ok.induct)
  case (2 e s h r bs)
  have "h_addr h + 32 \<le> next_addr e bs" using 2(2) by (auto split: if_splits)
  moreover have "b \<in> set bs \<Longrightarrow> next_addr e bs \<le> h_addr (fst b)" using header_bounds [of e s bs b] 2(2) by simp
  moreover have "(p, n) \<in> in_use bs \<Longrightarrow> next_addr e bs + 40 \<le> p" using in_use_bounds [of e s bs p n] 2(2) by simp
  moreover have "blocks_ok e s bs" using 2(2) by simp
  ultimately show ?case using 2 by (auto split: if_splits simp: apart_def)
qed simp

section \<open>Allocation\<close>

lemma std_align_Some:
  assumes "std_align al n p space = Some (q, space')" "0 < al"
  shows "q mod al = 0" "p \<le> q" "q < p + al" "n \<le> space'" "space' + (q - p) = space"
proof -
  let ?pad = "(al - p mod al) mod al"
  have q: "q = p + ?pad" "space' = space - ?pad" "n + ?pad \<le> space"
    using assms(1) by (auto simp: std_align_def Let_def split: if_splits)
  have "(p + ?pad) mod al = 0"
  proof (cases "p mod al = 0")
    case False
    have "p mod al + (al - p mod al) = al" using assms(2) by (simp add: less_imp_le)
    moreover have "?pad = al - p mod al" using False assms(2) by (simp add: mod_less)
    ultimately have "(p mod al + ?pad) mod al = 0" by simp
    then show ?thesis by (simp add: mod_add_left_eq)
  qed simp
  then show "q mod al = 0" "p \<le> q" "q < p + al" "n \<le> space'" "space' + (q - p) = space"
    using q assms(2) by auto
qed

lemma std_align_fits: "0 < al \<Longrightarrow> n + al - 1 \<le> space \<Longrightarrow> std_align al n p space \<noteq> None"
proof -
  assume a: "0 < al" "n + al - 1 \<le> space"
  have "(al - p mod al) mod al < al" using a(1) by simp
  with a(2) have "n + (al - p mod al) mod al \<le> space" by linarith
  then show ?thesis by (simp add: std_align_def Let_def)
qed

lemma sub64_le: "b \<le> a \<Longrightarrow> a < 2 ^ 64 \<Longrightarrow> sub64 a b = a - b"
proof -
  assume "b \<le> a" "a < 2 ^ 64"
  then have "a + 2 ^ 64 - b = (a - b) + 2 ^ 64" "a - b < 2 ^ 64" by linarith+
  then show ?thesis unfolding sub64_def by (simp only: mod_add_self2 mod_less)
qed

text \<open>A request of at least 8 bytes whose size does not wrap around is granted by exactly the free headers
  that have room for it, its stored pointer and its alignment; otherwise the header is left alone.\<close>

definition request_ok :: "nat \<Rightarrow> nat \<Rightarrow> bool" where
  "request_ok bytes alignment = (8 \<le> bytes \<and> 0 < alignment \<and> 7 + bytes + alignment < 2 ^ 64)"

definition has_room :: "nat \<Rightarrow> nat \<Rightarrow> hdr \<Rightarrow> bool" where
  "has_room bytes alignment h = (\<not> h_used h \<and> 7 + bytes + alignment \<le> h_size h)"

lemma aligned_pointer_exact:
  "8 \<le> h_size h \<Longrightarrow> h_size h < 2 ^ 64 \<Longrightarrow> aligned_pointer (h_size h) al h s = None"
  by (simp add: aligned_pointer_def Let_def sub64_le std_align_def)

lemma aligned_pointer_room:
  assumes "request_ok b al" "has_room b al h" "h_size h < 2 ^ 64"
  obtains p space where "aligned_pointer b al h s = Some (p, space, map_set (p - 8) (h_addr h + 32) s)"
    "h_addr h + 40 \<le> p" "p mod al = 0" "b \<le> space" "p + space = h_addr h + 32 + h_size h"
proof -
  have al: "0 < al" and le: "b + al - 1 \<le> h_size h - 8" and s8: "8 \<le> h_size h"
    using assms by (auto simp: request_ok_def has_room_def)
  from std_align_fits [OF al le, of "40 + h_addr h"] obtain p space
    where p: "std_align al b (40 + h_addr h) (h_size h - 8) = Some (p, space)" by force
  note q = std_align_Some [OF p al]
  have ap: "aligned_pointer b al h s = Some (p, space, map_set (p - 8) (h_addr h + 32) s)"
    using p q(4) s8 assms(3) by (simp add: aligned_pointer_def address_of_data_segment_def Let_def sub64_le)
  have "h_addr h + 40 \<le> p" "p + space = h_addr h + 32 + h_size h" using q(2,5) s8 by linarith+
  then show thesis by (rule that [OF ap _ q(1) q(4)])
qed

lemma required_space: "request_ok b al \<Longrightarrow> (8 + b + al - 1) mod 2 ^ 64 = 7 + b + al"
  by (simp add: request_ok_def)

lemma allocate_block_None:
  assumes "request_ok b al" "\<not> has_room b al h" "h_size h < 2 ^ 64"
  shows "allocate_block b al h a s = (None, [h], a, s)"
proof -
  consider "h_used h" | "\<not> h_used h" "b = h_size h" | "\<not> h_used h" "b \<noteq> h_size h" by blast
  then show ?thesis
  proof cases
    case 1 then show ?thesis by (simp only: allocate_block_def if_True)
  next
    case 2
    with assms have "aligned_pointer b al h s = None" by (auto intro: aligned_pointer_exact simp: request_ok_def)
    with 2 show ?thesis by (simp only: allocate_block_def if_False if_True option.case refl)
  next
    case 3
    have "\<not> (8 + b + al - 1) mod 2 ^ 64 \<le> h_size h"
      unfolding required_space [OF assms(1)] using 3 assms(2) by (simp add: has_room_def)
    with 3 show ?thesis by (simp only: allocate_block_def if_False)
  qed
qed

lemma size_bound: "blocks_ok e s bs \<Longrightarrow> (h, p) \<in> set bs \<Longrightarrow> h_size h \<le> e"
proof (induction e s bs rule: blocks_ok.induct)
  case (2 e s h' q bs)
  then show ?case using next_addr_le [of e s bs] by (auto split: if_splits)
qed simp

lemma allocate_block_Some:
  assumes "request_ok b al" "has_room b al h" "h_size h < 2 ^ 64" "h_addr h + 32 + h_size h \<le> n"
  obtains p bs where "allocate_block b al h a s = (Some p, map fst bs, (a + b) mod 2 ^ 64, map_set (p - 8) (h_addr h + 32) s)"
    "blocks_ok n (map_set (p - 8) (h_addr h + 32) s) bs" "next_addr n bs = h_addr h" "in_use bs = {(p, b)}"
    "p mod al = 0" "h_addr h + 40 \<le> p" "p + b \<le> n"
proof -
  from aligned_pointer_room [OF assms(1-3)] obtain p space
    where ap: "aligned_pointer b al h s = Some (p, space, map_set (p - 8) (h_addr h + 32) s)"
      "h_addr h + 40 \<le> p" "p mod al = 0" "b \<le> space" "p + space = h_addr h + 32 + h_size h" .
  have c: "\<not> h_used h" "b \<noteq> h_size h" "(8 + b + al - 1) mod 2 ^ 64 \<le> h_size h"
    using assms(2) unfolding required_space [OF assms(1)] by (auto simp: has_room_def)
  note block = allocate_block_def c if_True if_False ap(1) option.case prod.case Let_def
  let ?h = "h\<lparr>h_size := b, h_used := True\<rparr>"
  show thesis
  proof (cases "space - b \<le> 32 + 8 - 1")
    case True
    have "allocate_block b al h a s = (Some p, map fst [(?h, p)], (a + b) mod 2 ^ 64, map_set (p - 8) (h_addr h + 32) s)"
      by (simp only: block True) simp
    then show thesis by (rule that) (use ap assms(4) in \<open>auto simp: map_of_map_set\<close>)
  next
    case False
    have al: "(0::nat) < 8" "32 + 8 - 1 \<le> space - b" using False by auto
    from std_align_fits [OF this, of "p + b"] obtain q space'
      where q: "std_align 8 32 (p + b) (space - b) = Some (q, space')" by force
    note r = std_align_Some [OF q al(1)]
    let ?new = "\<lparr>h_addr = q, h_size = space' - 32, h_used = False\<rparr>"
    have eq: "allocate_block b al h a s = (Some p, map fst [(?h, p), (?new, 0)], (a + b) mod 2 ^ 64, map_set (p - 8) (h_addr h + 32) s)"
      by (simp only: block False q) simp
    have "q + space' \<le> n" "p + b \<le> q" using r(2,5) ap(4,5) assms(4) False by linarith+
    then show thesis by (intro that [OF eq]) (use ap assms(4) r(4) in \<open>auto simp: map_of_map_set\<close>)
  qed
qed

lemma allocate_loop_Some:
  assumes "request_ok b al" "e < 2 ^ 64"
  shows "blocks_ok e s bs \<Longrightarrow> \<exists>x\<in>set bs. has_room b al (fst x) \<Longrightarrow>
    \<exists>p d bs'. allocate_loop b al (map fst bs) a s = (Some p, map fst bs', (a + b) mod 2 ^ 64, map_set (p - 8) d s) \<and>
      blocks_ok e (map_set (p - 8) d s) bs' \<and> next_addr e bs' = next_addr e bs \<and>
      in_use bs' = insert (p, b) (in_use bs) \<and> p mod al = 0 \<and> next_addr e bs + 40 \<le> p \<and> p \<notin> fst ` in_use bs"
proof (induction bs)
  case (Cons x bs)
  obtain h q where x: "x = (h, q)" by (cases x)
  have bs: "blocks_ok e s bs" and size: "h_size h < 2 ^ 64"
    using Cons.prems(1) size_bound [OF Cons.prems(1), of h q] assms(2) x by auto
  have hn: "h_addr h + 32 \<le> next_addr e bs" using Cons.prems(1) x by (auto split: if_splits)
  show ?case
  proof (cases "has_room b al h")
    case True
    then have "h_addr h + 32 + h_size h \<le> next_addr e bs" using Cons.prems(1) x by (simp add: has_room_def)
    from allocate_block_Some [OF assms(1) True size this] obtain p cs
      where cs: "allocate_block b al h a s = (Some p, map fst cs, (a + b) mod 2 ^ 64, map_set (p - 8) (h_addr h + 32) s)"
        "blocks_ok (next_addr e bs) (map_set (p - 8) (h_addr h + 32) s) cs" "next_addr (next_addr e bs) cs = h_addr h"
        "in_use cs = {(p, b)}" "p mod al = 0" "h_addr h + 40 \<le> p" "p + b \<le> next_addr e bs" .
    have far: "p + b + 40 \<le> r" if "(r, k) \<in> in_use bs" for r k using in_use_bounds [OF bs that] cs(7) by simp
    have "blocks_ok e (map_set (p - 8) (h_addr h + 32) s) bs"
    proof (rule blocks_ok_store [OF bs])
      fix r k assume "(r, k) \<in> in_use bs"
      with far cs(6) have "r - 8 \<noteq> p - 8" by force
      then show "map_find (map_set (p - 8) (h_addr h + 32) s) (r - 8) = map_find s (r - 8)" by (simp add: map_of_map_set)
    qed
    moreover have "p \<notin> fst ` in_use bs" using far by force
    ultimately show ?thesis using cs True x
      by (intro exI [of _ p] exI [of _ "h_addr h + 32"] exI [of _ "cs @ bs"])
        (simp add: blocks_ok_append next_addr_append has_room_def)
  next
    case False
    with Cons.prems(2) x have "\<exists>x\<in>set bs. has_room b al (fst x)" by auto
    from Cons.IH [OF bs this] obtain p d bs' where p: "allocate_loop b al (map fst bs) a s = (Some p, map fst bs', (a + b) mod 2 ^ 64, map_set (p - 8) d s)"
      "blocks_ok e (map_set (p - 8) d s) bs'" "next_addr e bs' = next_addr e bs" "in_use bs' = insert (p, b) (in_use bs)"
      "p mod al = 0" "next_addr e bs + 40 \<le> p" "p \<notin> fst ` in_use bs" by (elim exE conjE) iprover
    have "q \<noteq> p \<and> q - 8 \<noteq> p - 8" if "h_used h" using that Cons.prems(1) x p(6) by auto
    with p hn Cons.prems(1) x allocate_block_None [OF assms(1) False size, of a s] show ?thesis
      by (intro exI [of _ p] exI [of _ d] exI [of _ "x # bs'"]) (auto simp: map_of_map_set)
  qed
qed simp

lemma allocate_loop_None:
  assumes "request_ok b al" "\<forall>h\<in>set hs. \<not> has_room b al h \<and> h_size h < 2 ^ 64"
  shows "allocate_loop b al hs a s = (None, hs, a, s)"
  using assms(2) by (induction hs) (simp_all add: allocate_block_None [OF assms(1)])

section \<open>Deallocation\<close>

lemma coalesce_same:
  "coalesce_with_next_unused_block e hs = hs \<or> (\<exists>h1 h2 r. hs = h1 # h2 # r \<and> \<not> h_used h1 \<and> \<not> h_used h2)"
  by (cases "(e, hs)" rule: coalesce_with_next_unused_block.cases) auto

lemma coalesce_ok:
  assumes "blocks_ok e s bs"
  obtains bs' where "coalesce_with_next_unused_block e (map fst bs) = map fst bs'"
    "blocks_ok e s bs'" "next_addr e bs' = next_addr e bs" "in_use bs' = in_use bs" "bs' = [] \<longleftrightarrow> bs = []"
proof -
  consider "\<exists>h1 p1 h2 p2 r. bs = (h1, p1) # (h2, p2) # r \<and> \<not> h_used h1 \<and> \<not> h_used h2"
    | "coalesce_with_next_unused_block e (map fst bs) = map fst bs"
    using coalesce_same [of e "map fst bs"] by (auto simp: map_eq_Cons_conv)
  then show thesis
  proof cases
    case 1
    then obtain h1 p1 h2 p2 r where bs: "bs = (h1, p1) # (h2, p2) # r" "\<not> h_used h1" "\<not> h_used h2" by blast
    have eq: "calculate_size_for_coalescing e h1 (map fst r) = next_addr e r - (h_addr h1 + 32)"
      by (cases r) (auto simp: calculate_size_for_coalescing_def address_of_data_segment_def)
    let ?h = "h1\<lparr>h_size := next_addr e r - (h_addr h1 + 32)\<rparr>"
    show thesis by (rule that [of "(?h, p1) # r"]) (use bs assms in \<open>auto simp: eq\<close>)
  qed (use assms that in blast)
qed

lemma sum_in_use:
  "blocks_ok e s bs \<Longrightarrow> (\<Sum>x\<in>in_use bs. snd x) + next_addr e bs \<le> e"
proof (induction e s bs rule: blocks_ok.induct)
  case (2 e s h p bs)
  have "(p, h_size h) \<notin> in_use bs" if "h_used h" using 2(2) that in_use_bounds [of e s bs p "h_size h"] by auto
  with 2 show ?case by (auto split: if_splits)
qed simp

text \<open>The headers in front of a block have smaller addresses.\<close>

lemma find_header:
  assumes "blocks_ok e s (pre @ (h, p) # post)"
  shows "takeWhile (\<lambda>x. h_addr x \<noteq> h_addr h) (map fst (pre @ (h, p) # post)) = map fst pre"
    "dropWhile (\<lambda>x. h_addr x \<noteq> h_addr h) (map fst (pre @ (h, p) # post)) = h # map fst post"
proof -
  have "h_addr x \<noteq> h_addr h" if "x \<in> set (map fst pre)" for x
    using that header_bounds [of "h_addr h" s pre] assms by (force simp: blocks_ok_append)
  then show "takeWhile (\<lambda>x. h_addr x \<noteq> h_addr h) (map fst (pre @ (h, p) # post)) = map fst pre"
    "dropWhile (\<lambda>x. h_addr x \<noteq> h_addr h) (map fst (pre @ (h, p) # post)) = h # map fst post"
    by (auto simp: takeWhile_append dropWhile_append)
qed

lemma release_ok:
  assumes "blocks_ok e s (pre @ (h, p) # post)" "h_used h"
  shows "blocks_ok e s (pre @ (h\<lparr>h_used := False\<rparr>, p) # post)"
    "in_use (pre @ (h\<lparr>h_used := False\<rparr>, p) # post) = in_use (pre @ (h, p) # post) - {(p, h_size h)}"
proof -
  have "(p, h_size h) \<notin> in_use pre" "(p, h_size h) \<notin> in_use post"
    using in_use_bounds [of "h_addr h" s pre p "h_size h"] in_use_bounds [of e s post p "h_size h"] assms
    by (auto simp: blocks_ok_append)
  with assms show "blocks_ok e s (pre @ (h\<lparr>h_used := False\<rparr>, p) # post)"
    "in_use (pre @ (h\<lparr>h_used := False\<rparr>, p) # post) = in_use (pre @ (h, p) # post) - {(p, h_size h)}"
    by (auto simp: blocks_ok_append)
qed

text \<open>Coalescing the released header with its successor and its predecessor with the result.\<close>

lemma coalesce_both:
  assumes "blocks_ok e s (pre @ b # post)"
  obtains bs' where "(let from_h = coalesce_with_next_unused_block e (map fst (b # post)) in
      if map fst pre = [] then from_h
      else butlast (map fst pre) @ coalesce_with_next_unused_block e (last (map fst pre) # from_h)) = map fst bs'"
    "blocks_ok e s bs'" "next_addr e bs' = next_addr e (pre @ b # post)" "in_use bs' = in_use (pre @ b # post)"
proof -
  have tail: "blocks_ok e s (b # post)" using assms by (simp add: blocks_ok_append)
  from coalesce_ok [OF this] obtain cs where cs: "coalesce_with_next_unused_block e (map fst (b # post)) = map fst cs"
    "blocks_ok e s cs" "next_addr e cs = next_addr e (b # post)" "in_use cs = in_use (b # post)" "cs \<noteq> []" by blast
  show thesis
  proof (cases pre rule: rev_cases)
    case Nil
    then show thesis using cs that [of cs] by simp
  next
    case (snoc pre' c)
    with assms cs(2,3) have "blocks_ok e s (c # cs)" by (cases c) (simp add: blocks_ok_append split: if_splits)
    from coalesce_ok [OF this] obtain ds where ds: "coalesce_with_next_unused_block e (map fst (c # cs)) = map fst ds"
      "blocks_ok e s ds" "next_addr e ds = next_addr e (c # cs)" "in_use ds = in_use (c # cs)" by blast
    have "blocks_ok (h_addr (fst c)) s pre'" using assms snoc by (simp add: blocks_ok_append)
    then show thesis using snoc cs ds
      by (intro that [of "pre' @ ds"]) (cases c; simp add: blocks_ok_append next_addr_append)+
  qed
qed

section \<open>Executions\<close>

text \<open>The state of the allocator with what its client holds: address, size and alignment of every allocation
  that it has not given back.\<close>

datatype fbr_op = Allocate nat nat | Deallocate nat nat

type_synonym held = "(nat \<times> nat \<times> nat) set"

inductive fbr_step :: "fbr \<times> held \<Rightarrow> fbr_op \<Rightarrow> fbr \<times> held \<Rightarrow> bool" where
  grant: "do_allocate b al st = (Inr p, st') \<Longrightarrow> fbr_step (st, live) (Allocate b al) (st', insert (p, b, al) live)"
| refuse: "do_allocate b al st = (Inl x, st') \<Longrightarrow> fbr_step (st, live) (Allocate b al) (st', live)"
| give_back: "(p, b, al) \<in> live \<Longrightarrow> do_deallocate p b st = Some st' \<Longrightarrow>
    fbr_step (st, live) (Deallocate p b) (st', live - {(p, b, al)})"

inductive_simps fbr_step_Allocate: "fbr_step s (Allocate b al) s'"
inductive_simps fbr_step_Deallocate: "fbr_step s (Deallocate p b) s'"

fun fbr_allowed :: "fbr_op \<Rightarrow> bool" where
  "fbr_allowed (Allocate b al) = request_ok b al"
| "fbr_allowed (Deallocate p b) = True"

definition held_blocks :: "held \<Rightarrow> (nat \<times> nat) set" where
  "held_blocks live = (\<lambda>(p, b, al). (p, b)) ` live"

definition fbr_inv_for :: "block list \<Rightarrow> fbr \<Rightarrow> held \<Rightarrow> bool" where
  "fbr_inv_for bs st live = (let e = fb_buffer st + fb_size st in
     fb_headers st = map fst bs \<and> blocks_ok e (fb_stored st) bs \<and> next_addr e bs = fb_buffer st \<and> e < 2 ^ 64 \<and>
     in_use bs = held_blocks live \<and> inj_on fst live \<and> (\<forall>(p, b, al)\<in>live. p mod al = 0) \<and>
     fb_allocated st = (\<Sum>x\<in>in_use bs. snd x))"

definition fbr_inv :: "fbr \<times> held \<Rightarrow> bool" where
  "fbr_inv s = (\<exists>bs. fbr_inv_for bs (fst s) (snd s))"

lemma fst_held_blocks: "fst ` held_blocks live = fst ` live"
  by (force simp: held_blocks_def)

lemma held_inj: "inj_on fst live \<Longrightarrow> inj_on (\<lambda>(p, b, al). (p, b)) live"
  by (rule inj_onI, erule inj_onD) (auto split: prod.splits)

lemma held_blocks_remove:
  assumes "inj_on fst live" "(p, b, al) \<in> live"
  shows "held_blocks (live - {(p, b, al)}) = held_blocks live - {(p, b)}"
proof -
  show ?thesis unfolding held_blocks_def using inj_on_image_set_diff [OF held_inj [OF assms(1)], of live "{(p, b, al)}"] assms(2) by simp
qed

lemma fbr_inv_for_iff:
  "fbr_inv_for bs st live \<longleftrightarrow> fb_headers st = map fst bs \<and> blocks_ok (fb_buffer st + fb_size st) (fb_stored st) bs \<and>
     next_addr (fb_buffer st + fb_size st) bs = fb_buffer st \<and> fb_buffer st + fb_size st < 2 ^ 64 \<and>
     in_use bs = held_blocks live \<and> inj_on fst live \<and> (\<forall>(p, b, al)\<in>live. p mod al = 0) \<and>
     fb_allocated st = (\<Sum>x\<in>in_use bs. snd x)"
  by (simp only: fbr_inv_for_def Let_def)

lemma do_allocate_cases:
  assumes "fbr_inv_for bs st live" "request_ok b al"
  shows "if \<exists>h\<in>set (fb_headers st). has_room b al h
    then \<exists>p st' bs'. do_allocate b al st = (Inr p, st') \<and> fbr_inv_for bs' st' (insert (p, b, al) live) \<and>
      fb_buffer st' = fb_buffer st \<and> fb_size st' = fb_size st
    else do_allocate b al st = (Inl std_exception, st)"
proof -
  let ?e = "fb_buffer st + fb_size st"
  have inv: "fb_headers st = map fst bs" "blocks_ok ?e (fb_stored st) bs" "next_addr ?e bs = fb_buffer st" "?e < 2 ^ 64"
    "in_use bs = held_blocks live" "inj_on fst live" "\<forall>(p, b, al)\<in>live. p mod al = 0" "fb_allocated st = (\<Sum>x\<in>in_use bs. snd x)"
    using assms(1) unfolding fbr_inv_for_iff by iprover+
  show ?thesis
  proof (cases "\<exists>h\<in>set (fb_headers st). has_room b al h")
    case True
    then have "\<exists>x\<in>set bs. has_room b al (fst x)" using inv(1) by auto
    from allocate_loop_Some [OF assms(2) inv(4) inv(2) this, of "fb_allocated st"] obtain p d bs'
      where p: "allocate_loop b al (map fst bs) (fb_allocated st) (fb_stored st) =
          (Some p, map fst bs', (fb_allocated st + b) mod 2 ^ 64, map_set (p - 8) d (fb_stored st))"
        "blocks_ok ?e (map_set (p - 8) d (fb_stored st)) bs'" "next_addr ?e bs' = next_addr ?e bs"
        "in_use bs' = insert (p, b) (in_use bs)" "p mod al = 0" "p \<notin> fst ` in_use bs" by (elim exE conjE) iprover
    have "(p, b) \<notin> in_use bs" using p(6) by force
    then have sum: "(\<Sum>x\<in>in_use bs'. snd x) = fb_allocated st + b" unfolding p(4) inv(8) by simp
    then have mod: "(fb_allocated st + b) mod 2 ^ 64 = fb_allocated st + b" using sum_in_use [OF p(2)] inv(4) by (intro mod_less) linarith
    have "p \<notin> fst ` live" using p(6) by (simp add: inv(5) fst_held_blocks)
    then have inj: "inj_on fst (insert (p, b, al) live)" using inv(6) by (force simp: inj_on_def)
    let ?st = "st\<lparr>fb_headers := map fst bs', fb_allocated := (fb_allocated st + b) mod 2 ^ 64,
      fb_stored := map_set (p - 8) d (fb_stored st)\<rparr>"
    have "fbr_inv_for bs' ?st (insert (p, b, al) live)"
      using p(2-5) inv(3-5,7) sum mod inj unfolding fbr_inv_for_iff by (simp add: held_blocks_def)
    moreover have "do_allocate b al st = (Inr p, ?st)" by (simp add: do_allocate_def inv(1) p(1))
    ultimately show ?thesis using True by auto
  next
    case False
    have "h_size h < 2 ^ 64" if "h \<in> set (map fst bs)" for h using that size_bound [OF inv(2)] inv(4) by force
    then have "allocate_loop b al (fb_headers st) a s = (None, fb_headers st, a, s)" for a s
      using False inv(1) by (intro allocate_loop_None assms(2)) auto
    then show ?thesis using False by (simp add: do_allocate_def)
  qed
qed

lemma do_deallocate_inv:
  assumes "fbr_inv_for bs st live" "(p, b, al) \<in> live"
  shows "\<exists>st' bs'. do_deallocate p b st = Some st' \<and> fbr_inv_for bs' st' (live - {(p, b, al)}) \<and>
    fb_buffer st' = fb_buffer st \<and> fb_size st' = fb_size st"
proof -
  let ?e = "fb_buffer st + fb_size st" and ?s = "fb_stored st"
  have inv: "fb_headers st = map fst bs" "blocks_ok ?e ?s bs" "next_addr ?e bs = fb_buffer st" "?e < 2 ^ 64"
    "in_use bs = held_blocks live" "inj_on fst live" "\<forall>(p, b, al)\<in>live. p mod al = 0" "fb_allocated st = (\<Sum>x\<in>in_use bs. snd x)"
    using assms(1) unfolding fbr_inv_for_iff by iprover+
  have use: "(p, b) \<in> in_use bs" using assms(2) inv(5) by (force simp: held_blocks_def)
  then obtain h pre post where bs: "bs = pre @ (h, p) # post" "h_used h" "h_size h = b"
    by (auto simp: in_use_def dest: split_list)
  have s: "map_find ?s (p - 8) = Some (h_addr h + 32)" using inv(2) bs by (simp add: blocks_ok_append)
  note rel = release_ok [OF inv(2) [unfolded bs(1)] bs(2)]
  from coalesce_both [OF rel(1)] obtain bs' where bs': "(let from_h = coalesce_with_next_unused_block ?e (map fst ((h\<lparr>h_used := False\<rparr>, p) # post)) in
      if map fst pre = [] then from_h
      else butlast (map fst pre) @ coalesce_with_next_unused_block ?e (last (map fst pre) # from_h)) = map fst bs'"
    "blocks_ok ?e ?s bs'" "next_addr ?e bs' = next_addr ?e (pre @ (h\<lparr>h_used := False\<rparr>, p) # post)"
    "in_use bs' = in_use (pre @ (h\<lparr>h_used := False\<rparr>, p) # post)" by blast
  let ?st = "st\<lparr>fb_headers := map fst bs', fb_allocated := sub64 (fb_allocated st) b\<rparr>"
  have "do_deallocate p b st = Some ?st"
    using bs'(1) find_header [OF inv(2) [unfolded bs(1)]] s inv(1) bs(1)
    by (simp add: do_deallocate_def Let_def)
  moreover have na: "next_addr ?e bs' = fb_buffer st" using bs'(3) inv(3) bs(1) by (simp add: next_addr_append)
  have rem: "in_use bs' = in_use bs - {(p, b)}" unfolding bs'(4) rel(2) bs(1,3) ..
  have iu: "in_use bs' = held_blocks (live - {(p, b, al)})"
    unfolding rem inv(5) held_blocks_remove [OF inv(6) assms(2)] ..
  have sum: "(\<Sum>x\<in>in_use bs. snd x) = (\<Sum>x\<in>in_use bs'. snd x) + b"
    unfolding rem using sum.remove [OF in_use_finite use, of snd] by simp
  have "sub64 (fb_allocated st) b = (\<Sum>x\<in>in_use bs'. snd x)"
    using sum inv(4,8) sum_in_use [OF inv(2)] by (subst sub64_le) linarith+
  then have "fbr_inv_for bs' ?st (live - {(p, b, al)})"
    using inv(4,6,7) bs'(2) na iu unfolding fbr_inv_for_iff by (simp add: inj_on_diff)
  ultimately show ?thesis by auto
qed

lemma fbr_step_inv:
  assumes "fbr_step (st, live) a (st', live')" "fbr_allowed a" "fbr_inv (st, live)"
  shows "fbr_inv (st', live') \<and> fb_buffer st' = fb_buffer st \<and> fb_size st' = fb_size st"
proof -
  from assms(3) obtain bs where bs: "fbr_inv_for bs st live" by (auto simp: fbr_inv_def)
  from assms(1) show ?thesis
  proof cases
    case (grant b al p)
    with do_allocate_cases [OF bs, of b al] assms(2) show ?thesis by (auto simp: fbr_inv_def split: if_splits)
  next
    case (refuse b al x)
    with do_allocate_cases [OF bs, of b al] assms(2) bs show ?thesis by (auto simp: fbr_inv_def split: if_splits)
  next
    case (give_back p b al)
    with do_deallocate_inv [OF bs, of p b al] show ?thesis by (auto simp: fbr_inv_def)
  qed
qed

interpretation fbr_keep: component fbr_step fbr_allowed "\<lambda>s. fbr_inv s \<and> fb_buffer (fst s) = buf \<and> fb_size (fst s) = n" for buf n
  by unfold_locales (use fbr_step_inv in auto)

lemma fresh_buffer:
  assumes "fixed_buffer_resource buf n = Inr st" "buf mod 8 = 0"
  shows "st = \<lparr>fb_buffer = buf, fb_size = nat n, fb_allocated = 0,
      fb_headers = [\<lparr>h_addr = buf, h_size = nat n - 32, h_used = False\<rparr>], fb_stored = []\<rparr>" "32 < nat n"
  using assms by (auto simp: fixed_buffer_resource_def std_align_def split: if_splits)

lemma fixed_buffer_start:
  assumes "fixed_buffer_resource buf n = Inr st" "buf mod 8 = 0" "buf + nat n < 2 ^ 64"
  shows "fbr_inv (st, {}) \<and> fb_buffer st = buf \<and> fb_size st = nat n"
proof -
  note st = fresh_buffer [OF assms(1,2)]
  then have "fbr_inv_for [(\<lparr>h_addr = buf, h_size = nat n - 32, h_used = False\<rparr>, 0)] st {}"
    using assms(3) unfolding fbr_inv_for_iff by (simp add: held_blocks_def)
  with st show ?thesis by (auto simp: fbr_inv_def)
qed

lemma fbr_reach:
  assumes "fixed_buffer_resource buf n = Inr st0" "buf mod 8 = 0" "buf + nat n < 2 ^ 64"
    "reach fbr_step fbr_allowed (st0, {}) (st, live)"
  obtains bs where "fbr_inv_for bs st live" "fb_buffer st = buf" "fb_size st = nat n"
proof -
  have "fbr_inv (st, live) \<and> fb_buffer st = buf \<and> fb_size st = nat n"
    using fbr_keep.reach_keeps [OF assms(4), of buf "nat n"] fixed_buffer_start [OF assms(1-3)] by simp
  then show thesis using that by (auto simp: fbr_inv_def)
qed

text \<open>C9 (safety). On an aligned buffer that ends below \<open>2 ^ 64\<close> and for requests of at least 8 bytes, whatever the client allocates and
  gives back: every allocation it holds has the alignment it asked for and lies, with the pointer stored
  in front of it, inside the buffer; it overlaps no other allocation and no header; the byte counter is
  exactly what is held; and giving an allocation back is always defined.\<close>

theorem fixed_buffer_safe:
  assumes "fixed_buffer_resource buf n = Inr st0" "buf mod 8 = 0" "buf + nat n < 2 ^ 64"
    "reach fbr_step fbr_allowed (st0, {}) (st, live)" "(p, b, al) \<in> live"
  shows "p mod al = 0 \<and> buf \<le> p - 8 \<and> p + b \<le> buf + nat n \<and>
    (\<forall>(p', b', al')\<in>live. (p', b', al') = (p, b, al) \<or> apart (p - 8) (b + 8) (p' - 8) (b' + 8)) \<and>
    (\<forall>h\<in>set (fb_headers st). apart (p - 8) (b + 8) (h_addr h) 32) \<and>
    do_deallocate p b st \<noteq> None \<and> fb_allocated st = (\<Sum>(p, b, al)\<in>live. b)"
proof -
  from fbr_reach [OF assms(1-4)] obtain bs where inv': "fbr_inv_for bs st live" and st: "fb_buffer st = buf" "fb_size st = nat n" .
  let ?e = "buf + nat n"
  have inv: "fb_headers st = map fst bs" "blocks_ok ?e (fb_stored st) bs" "next_addr ?e bs = buf"
    "in_use bs = held_blocks live" "inj_on fst live" "\<forall>(p, b, al)\<in>live. p mod al = 0" "fb_allocated st = (\<Sum>x\<in>in_use bs. snd x)"
    using inv' unfolding fbr_inv_for_iff st by iprover+
  have use: "(q, c) \<in> in_use bs" if "(q, c, a) \<in> live" for q c a using that unfolding inv(4) held_blocks_def by force
  have "p mod al = 0" using inv(6) assms(5) by auto
  moreover have "buf \<le> p - 8" "p + b \<le> buf + nat n"
    using in_use_bounds [OF inv(2) use [OF assms(5)]] inv(3) by linarith+
  moreover have "(p', b', al') = (p, b, al) \<or> apart (p - 8) (b + 8) (p' - 8) (b' + 8)" if "(p', b', al') \<in> live" for p' b' al'
    using blocks_apart [OF inv(2) use [OF assms(5)] use [OF that]] inj_onD [OF inv(5) _ that assms(5)] by auto
  moreover have "apart (p - 8) (b + 8) (h_addr h) 32" if "h \<in> set (fb_headers st)" for h
    using block_header_apart [OF inv(2) use [OF assms(5)]] that inv(1) by auto
  moreover have "do_deallocate p b st \<noteq> None" using do_deallocate_inv [OF inv' assms(5)] by auto
  moreover have "fb_allocated st = (\<Sum>(p, b, al)\<in>live. b)"
    unfolding inv(4,7) held_blocks_def sum.reindex [OF held_inj [OF inv(5)]] by (simp add: case_prod_beta comp_def)
  ultimately show ?thesis by blast
qed

lemma sample_buffer:
  "fixed_buffer_resource 4096 200 = Inr \<lparr>fb_buffer = 4096, fb_size = 200, fb_allocated = 0,
     fb_headers = [\<lparr>h_addr = 4096, h_size = 168, h_used = False\<rparr>], fb_stored = []\<rparr>"
  by (simp add: fixed_buffer_resource_def std_align_def)

lemma sample_allocate:
  "do_allocate 16 16 \<lparr>fb_buffer = 4096, fb_size = 200, fb_allocated = 0,
     fb_headers = [\<lparr>h_addr = 4096, h_size = 168, h_used = False\<rparr>], fb_stored = []\<rparr> =
   (Inr 4144, \<lparr>fb_buffer = 4096, fb_size = 200, fb_allocated = 16,
     fb_headers = [\<lparr>h_addr = 4096, h_size = 16, h_used = True\<rparr>, \<lparr>h_addr = 4160, h_size = 104, h_used = False\<rparr>],
     fb_stored = [(4136, 4128)]\<rparr>)"
  by (simp add: do_allocate_def allocate_block_def aligned_pointer_def address_of_data_segment_def std_align_def sub64_def Let_def)

theorem fixed_buffer_safe_witness:
  "do_deallocate 4144 16 \<lparr>fb_buffer = 4096, fb_size = 200, fb_allocated = 16,
     fb_headers = [\<lparr>h_addr = 4096, h_size = 16, h_used = True\<rparr>, \<lparr>h_addr = 4160, h_size = 104, h_used = False\<rparr>],
     fb_stored = [(4136, 4128)]\<rparr> \<noteq> None"
proof -
  have "reach fbr_step fbr_allowed (\<lparr>fb_buffer = 4096, fb_size = 200, fb_allocated = 0,
      fb_headers = [\<lparr>h_addr = 4096, h_size = 168, h_used = False\<rparr>], fb_stored = []\<rparr>, {})
    (\<lparr>fb_buffer = 4096, fb_size = 200, fb_allocated = 16,
      fb_headers = [\<lparr>h_addr = 4096, h_size = 16, h_used = True\<rparr>, \<lparr>h_addr = 4160, h_size = 104, h_used = False\<rparr>],
      fb_stored = [(4136, 4128)]\<rparr>, insert (4144, 16, 16) {})"
    by (rule reach_step [where step = fbr_step, OF reach_start _ grant [OF sample_allocate]]) (simp add: request_ok_def)
  from fixed_buffer_safe [OF sample_buffer _ _ this, of 4144 16 16] show ?thesis by simp
qed

text \<open>C35 (functional). In every state that allocations of at least 8 bytes and their returns reach on an aligned buffer that
  ends below \<open>2 ^ 64\<close>, a request of at least 8 bytes is granted exactly when some free header
  has room for the bytes, the stored pointer and the worst alignment; a refused request throws and
  changes nothing.\<close>

theorem fixed_buffer_first_fit:
  assumes "fixed_buffer_resource buf n = Inr st0" "buf mod 8 = 0" "buf + nat n < 2 ^ 64"
    "reach fbr_step fbr_allowed (st0, {}) (st, live)" "request_ok b al"
  shows "if \<exists>h\<in>set (fb_headers st). \<not> h_used h \<and> 7 + b + al \<le> h_size h
    then \<exists>p st'. do_allocate b al st = (Inr p, st') else do_allocate b al st = (Inl std_exception, st)"
proof -
  from fbr_reach [OF assms(1-4)] obtain bs where inv: "fbr_inv_for bs st live" .
  from do_allocate_cases [OF inv assms(5)] show ?thesis unfolding has_room_def by (auto split: if_splits)
qed

theorem fixed_buffer_first_fit_witness:
  "\<exists>p st'. do_allocate 16 16 \<lparr>fb_buffer = 4096, fb_size = 200, fb_allocated = 0,
     fb_headers = [\<lparr>h_addr = 4096, h_size = 168, h_used = False\<rparr>], fb_stored = []\<rparr> = (Inr p, st')"
  using fixed_buffer_first_fit [OF sample_buffer _ _ reach_start, of 16 16] by (simp add: request_ok_def)





end
