(* ===== verification/Hashtable.thy ===== *)
theory Hashtable
  imports Prelude "HOL-Library.Word" "HOL-Library.Multiset"
begin

unbundle bit_operations_syntax

text \<open>
  The chained hash table of \<^verbatim>\<open>lib/core/src/hashtable.cpp\<close> that the rule engine keeps its functions, rules and variables
  in. A key may be bound several times: the table is a multimap whose bindings of one key are ordered by
  insertion. A table with \<^verbatim>\<open>dynamic\<close> set doubles its buckets when it is full. A chain of buckets is the list of
  its keys and values; a value is a pointer, with \<open>None\<close> for the null pointer. Allocation of memory is taken
  to succeed, and freeing memory has no effect in the model.
\<close>

section \<open>Hashing\<close>

abbreviation (input) HASH_BASE :: "64 word" where "HASH_BASE \<equiv> 5381"

definition B_hash :: "string \<Rightarrow> 64 word" where
  "B_hash s = foldl (\<lambda>hash c. (push_bit 5 hash + hash) + word_of_nat (of_char c)) HASH_BASE s"

text \<open>A \<^verbatim>\<open>char\<close> is signed: characters from 128 on are negative in the sum.\<close>

definition sdbm_hash :: "string \<Rightarrow> 64 word" where
  "sdbm_hash s = foldl (\<lambda>hash c. word_of_int (let n = of_char c in if n < 128 then n else n - 256)
     + push_bit 6 hash + push_bit 16 hash - hash) 0 s"

section \<open>The table\<close>

type_synonym 'v bucket = "string \<times> 'v option"

record 'v hashtable =
  buckets :: "'v bucket list list"
  hsize :: nat
  len :: nat
  dynamic :: bool

definition newHashTable :: "nat \<Rightarrow> 'v hashtable" where
  "newHashTable n = \<lparr>buckets = replicate n [], hsize = n, len = 0, dynamic = False\<rparr>"

definition newHashTable2 :: "nat \<Rightarrow> 'v hashtable" where
  "newHashTable2 n = \<lparr>buckets = replicate n [], hsize = n, len = 0, dynamic = True\<rparr>"

definition index_of_key :: "string \<Rightarrow> 'v hashtable \<Rightarrow> nat" where
  "index_of_key key h = unat (B_hash key mod word_of_nat (hsize h))"

text \<open>A new bucket goes to the end of its chain.\<close>

definition append_bucket :: "string \<Rightarrow> 'v option \<Rightarrow> 'v hashtable \<Rightarrow> 'v hashtable" where
  "append_bucket key v h = (let i = index_of_key key h in
     h\<lparr>buckets := (buckets h)[i := buckets h ! i @ [(key, v)]], len := len h + 1\<rparr>)"

text \<open>The insertion of a sequence of bindings. A full dynamic table is first replaced by one of twice the
  size, into which its bindings are inserted chain by chain; \<open>None\<close>: the size is not an \<^verbatim>\<open>int\<close> any more, or
  the insertion does not return.\<close>

partial_function (option) insert_all :: "'v bucket list \<Rightarrow> 'v hashtable \<Rightarrow> 'v hashtable option" where
  "insert_all es h = (case es of [] \<Rightarrow> Some h
     | e # es' \<Rightarrow> Option.bind
         (if dynamic h \<and> len h \<ge> hsize h
          then (if 2 * hsize h < 2 ^ 31 then insert_all (concat (buckets h)) (newHashTable2 (2 * hsize h)) else None)
          else Some h)
         (\<lambda>h1. insert_all es' (append_bucket (fst e) (snd e) h1)))"

declare insert_all.simps [code]

definition insertIntoHashTable :: "string \<Rightarrow> 'v option \<Rightarrow> 'v hashtable \<Rightarrow> 'v hashtable option" where
  "insertIntoHashTable key v h = insert_all [(key, v)] h"

fun update_chain :: "string \<Rightarrow> 'v option \<Rightarrow> 'v bucket list \<Rightarrow> 'v option \<times> 'v bucket list" where
  "update_chain key v [] = (None, [])"
| "update_chain key v (b # bs) =
     (if fst b = key then (snd b, (key, v) # bs)
      else case update_chain key v bs of (old, bs') \<Rightarrow> (old, b # bs'))"

definition updateInHashTable :: "string \<Rightarrow> 'v option \<Rightarrow> 'v hashtable \<Rightarrow> 'v option \<times> 'v hashtable" where
  "updateInHashTable key v h = (let i = index_of_key key h in
     case update_chain key v (buckets h ! i) of (old, c) \<Rightarrow> (old, h\<lparr>buckets := (buckets h)[i := c]\<rparr>))"

text \<open>The chain without its first bucket for the key, and the value of that bucket if there is one.\<close>

fun delete_chain :: "string \<Rightarrow> 'v bucket list \<Rightarrow> 'v option option \<times> 'v bucket list" where
  "delete_chain key [] = (None, [])"
| "delete_chain key (b # bs) =
     (if fst b = key then (Some (snd b), bs)
      else case delete_chain key bs of (old, bs') \<Rightarrow> (old, b # bs'))"

definition deleteFromHashTable :: "string \<Rightarrow> 'v hashtable \<Rightarrow> 'v option \<times> 'v hashtable" where
  "deleteFromHashTable key h = (let i = index_of_key key h in
     case delete_chain key (buckets h ! i) of
       (None, c) \<Rightarrow> (None, h\<lparr>buckets := (buckets h)[i := c]\<rparr>)
     | (Some old, c) \<Rightarrow> (old, h\<lparr>buckets := (buckets h)[i := c], len := len h - 1\<rparr>))"

text \<open>\<open>lookupBucketFromHashTable\<close> and \<open>nextBucket\<close> return the chain from the bucket on; the empty chain is the null
  pointer.\<close>

definition lookupBucketFromHashTable :: "string \<Rightarrow> 'v hashtable \<Rightarrow> 'v bucket list" where
  "lookupBucketFromHashTable key h = dropWhile (\<lambda>b. fst b \<noteq> key) (buckets h ! index_of_key key h)"

definition nextBucket :: "string \<Rightarrow> 'v bucket list \<Rightarrow> 'v bucket list" where
  "nextBucket key c = dropWhile (\<lambda>b. fst b \<noteq> key) (tl c)"

definition lookupFromHashTable :: "string \<Rightarrow> 'v hashtable \<Rightarrow> 'v option" where
  "lookupFromHashTable key h = (case dropWhile (\<lambda>b. fst b \<noteq> key) (buckets h ! index_of_key key h) of
     [] \<Rightarrow> None | b # _ \<Rightarrow> snd b)"

text \<open>Deletion of a table, as the sequence of values the function given by the caller is applied to. A dynamic table
  belongs to its region, and nothing is done.\<close>

fun deleteBucket :: "'v bucket list \<Rightarrow> 'v option list" where
  "deleteBucket [] = []"
| "deleteBucket (b # bs) = deleteBucket bs @ [snd b]"

definition deleteHashTable :: "'v hashtable \<Rightarrow> 'v option list" where
  "deleteHashTable h = (if \<not> dynamic h then concat (map deleteBucket (buckets h)) else [])"

text \<open>The walk over all bindings of a key that the rule engine makes with the two functions.\<close>

function bucket_values :: "string \<Rightarrow> 'v bucket list \<Rightarrow> 'v option list" where
  "bucket_values key c = (case c of [] \<Rightarrow> [] | b # _ \<Rightarrow> snd b # bucket_values key (nextBucket key c))"
  by pat_completeness auto
termination
  by (relation "measure (length \<circ> snd)") (auto simp: nextBucket_def le_imp_less_Suc length_dropWhile_le)

declare bucket_values.simps [simp del]

section \<open>Multimaps\<close>

text \<open>What the table is for: all bindings of a key, oldest first.\<close>

type_synonym 'v multimap = "string \<Rightarrow> 'v option list"

definition first :: "'v option list \<Rightarrow> 'v option" where
  "first vs = (case vs of [] \<Rightarrow> None | v # _ \<Rightarrow> v)"

definition replace_first :: "'v option \<Rightarrow> 'v option list \<Rightarrow> 'v option list" where
  "replace_first v vs = (case vs of [] \<Rightarrow> [] | _ # vs' \<Rightarrow> v # vs')"

datatype 'v ht_op = Insert string "'v option" | Update string "'v option" | Delete string | Lookup string

fun mm_step :: "'v ht_op \<Rightarrow> 'v multimap \<Rightarrow> 'v option \<times> 'v multimap" where
  "mm_step (Insert k v) m = (None, m(k := m k @ [v]))"
| "mm_step (Update k v) m = (first (m k), m(k := replace_first v (m k)))"
| "mm_step (Delete k) m = (first (m k), m(k := tl (m k)))"
| "mm_step (Lookup k) m = (first (m k), m)"

fun ht_step :: "'v ht_op \<Rightarrow> 'v hashtable \<Rightarrow> ('v option \<times> 'v hashtable) option" where
  "ht_step (Insert k v) h = map_option (Pair None) (insertIntoHashTable k v h)"
| "ht_step (Update k v) h = Some (updateInHashTable k v h)"
| "ht_step (Delete k) h = Some (deleteFromHashTable k h)"
| "ht_step (Lookup k) h = Some (lookupFromHashTable k h, h)"

text \<open>Sequences of operations, with the results of all of them.\<close>

fun run_spec :: "('a \<Rightarrow> 'm \<Rightarrow> 'r \<times> 'm) \<Rightarrow> 'a list \<Rightarrow> 'm \<Rightarrow> 'r list \<times> 'm" where
  "run_spec spec [] m = ([], m)"
| "run_spec spec (a # as) m = (let (r, m') = spec a m; (rs, m'') = run_spec spec as m' in (r # rs, m''))"

fun run_impl :: "('a \<Rightarrow> 'h \<Rightarrow> ('r \<times> 'h) option) \<Rightarrow> 'a list \<Rightarrow> 'h \<Rightarrow> ('r list \<times> 'h) option" where
  "run_impl step [] h = Some ([], h)"
| "run_impl step (a # as) h = Option.bind (step a h)
     (\<lambda>(r, h'). map_option (\<lambda>(rs, h''). (r # rs, h'')) (run_impl step as h'))"

text \<open>An implementation whose every step does what the specification does, as long as it holds fewer than
  \<open>limit\<close> bindings, does so in every sequence of steps.\<close>

locale multimap_refinement =
  fixes step :: "'a \<Rightarrow> 'h \<Rightarrow> ('r \<times> 'h) option" and spec :: "'a \<Rightarrow> 'm \<Rightarrow> 'r \<times> 'm"
    and inv :: "'h \<Rightarrow> bool" and view :: "'h \<Rightarrow> 'm" and count :: "'h \<Rightarrow> nat" and limit :: nat
  assumes step_refines: "inv h \<Longrightarrow> count h < limit \<Longrightarrow>
    \<exists>h'. step a h = Some (fst (spec a (view h)), h') \<and> inv h' \<and> view h' = snd (spec a (view h)) \<and> count h' \<le> Suc (count h)"
begin

lemma run_refines:
  "inv h \<Longrightarrow> count h + length as \<le> limit \<Longrightarrow> \<exists>h'. run_impl step as h = Some (fst (run_spec spec as (view h)), h') \<and>
    inv h' \<and> view h' = snd (run_spec spec as (view h))"
proof (induction as arbitrary: h)
  case (Cons a as)
  from Cons.prems step_refines [of h a] obtain h1 where h1: "step a h = Some (fst (spec a (view h)), h1)" "inv h1"
    "view h1 = snd (spec a (view h))" "count h1 \<le> Suc (count h)" by force
  with Cons.prems Cons.IH [of h1] obtain h2 where "run_impl step as h1 = Some (fst (run_spec spec as (view h1)), h2)"
    "inv h2" "view h2 = snd (run_spec spec as (view h1))" by auto
  with h1 show ?case by (auto simp: case_prod_beta Let_def)
qed simp

end

section \<open>The invariant\<close>

definition ht_ok :: "'v hashtable \<Rightarrow> bool" where
  "ht_ok h = (0 < hsize h \<and> hsize h < 2 ^ 31 \<and> length (buckets h) = hsize h \<and>
     (\<forall>i<hsize h. \<forall>b\<in>set (buckets h ! i). index_of_key (fst b) h = i) \<and>
     len h = length (concat (buckets h)) \<and> (dynamic h \<longrightarrow> len h \<le> hsize h))"

definition ht_view :: "'v hashtable \<Rightarrow> 'v multimap" where
  "ht_view h k = map snd (filter (\<lambda>b. fst b = k) (buckets h ! index_of_key k h))"

lemma index_lt: "0 < hsize h \<Longrightarrow> hsize h < 2 ^ 31 \<Longrightarrow> index_of_key k h < hsize h"
proof -
  assume h: "0 < hsize h" "hsize h < 2 ^ 31"
  have "unat (word_of_nat (hsize h) :: 64 word) = hsize h"
    using h(2) by (simp add: unsigned_of_nat take_bit_nat_eq_self)
  then show ?thesis using h(1) by (simp add: index_of_key_def unat_mod)
qed

lemma index_of_key_cong: "hsize h' = hsize h \<Longrightarrow> index_of_key k h' = index_of_key k h"
  by (simp add: index_of_key_def)

lemma length_concat_update:
  "i < length xss \<Longrightarrow> length (concat (xss[i := ys])) + length (xss ! i) = length (concat xss) + length ys"
proof (induction xss arbitrary: i)
  case (Cons xs xss) then show ?case by (cases i) (auto simp: algebra_simps)
qed simp

lemma chain_keys: "ht_ok h \<Longrightarrow> b \<in> set (buckets h ! index_of_key k h) \<Longrightarrow> index_of_key (fst b) h = index_of_key k h"
  using index_lt [of h k] by (auto simp: ht_ok_def)

text \<open>Replacing a chain by one whose buckets belong there.\<close>

lemma ht_ok_update:
  assumes "ht_ok h" "i = index_of_key k h" "\<forall>b\<in>set c. index_of_key (fst b) h = i"
    "n + length (buckets h ! i) = len h + length c" "dynamic h \<longrightarrow> n \<le> hsize h"
  shows "ht_ok (h\<lparr>buckets := (buckets h)[i := c], len := n\<rparr>)"
proof -
  have i: "i < length (buckets h)" using assms(1,2) index_lt [of h k] by (simp add: ht_ok_def)
  have "n = length (concat ((buckets h)[i := c]))"
    using length_concat_update [OF i, of c] assms(1,4) by (simp add: ht_ok_def)
  with assms(1,3,5) i show ?thesis by (auto simp: ht_ok_def index_of_key_def nth_list_update)
qed

lemma ht_view_update:
  assumes "ht_ok h" "i = index_of_key k h" "\<And>k'. k' \<noteq> k \<Longrightarrow> filter (\<lambda>b. fst b = k') c = filter (\<lambda>b. fst b = k') (buckets h ! i)"
  shows "ht_view (h\<lparr>buckets := (buckets h)[i := c], len := n\<rparr>) = (ht_view h)(k := map snd (filter (\<lambda>b. fst b = k) c))"
proof
  fix k'
  have i: "i < length (buckets h)" using assms(1,2) index_lt [of h k] by (simp add: ht_ok_def)
  have "index_of_key k' (h\<lparr>buckets := (buckets h)[i := c], len := n\<rparr>) = index_of_key k' h" by (simp add: index_of_key_def)
  then show "ht_view (h\<lparr>buckets := (buckets h)[i := c], len := n\<rparr>) k' = ((ht_view h)(k := map snd (filter (\<lambda>b. fst b = k) c))) k'"
    using i assms(2,3) by (cases "k' = k"; cases "index_of_key k' h = i") (simp_all add: ht_view_def)
qed

section \<open>The operations on the table\<close>

lemma append_bucket_ok:
  assumes "ht_ok h" "dynamic h \<longrightarrow> len h < hsize h"
  shows "ht_ok (append_bucket k v h)" "ht_view (append_bucket k v h) = (ht_view h)(k := ht_view h k @ [v])"
    "len (append_bucket k v h) = Suc (len h)" "hsize (append_bucket k v h) = hsize h" "dynamic (append_bucket k v h) = dynamic h"
proof -
  let ?i = "index_of_key k h"
  have c: "\<forall>b\<in>set (buckets h ! ?i @ [(k, v)]). index_of_key (fst b) h = ?i" using chain_keys [OF assms(1)] by auto
  show "ht_ok (append_bucket k v h)"
    using ht_ok_update [OF assms(1) refl c, of "Suc (len h)"] assms(2) by (auto simp: append_bucket_def Let_def)
  have "ht_view (append_bucket k v h) = (ht_view h)(k := map snd (filter (\<lambda>b. fst b = k) (buckets h ! ?i @ [(k, v)])))"
    unfolding append_bucket_def Let_def by (rule ht_view_update [OF assms(1) refl]) auto
  then show "ht_view (append_bucket k v h) = (ht_view h)(k := ht_view h k @ [v])" by (simp add: ht_view_def)
qed (simp_all add: append_bucket_def Let_def)

text \<open>Bindings that fit are appended one by one.\<close>

lemma insert_all_fits:
  assumes "ht_ok h" "dynamic h \<longrightarrow> len h + length es \<le> hsize h"
  shows "\<exists>h'. insert_all es h = Some h' \<and> ht_ok h' \<and> len h' = len h + length es \<and> hsize h' = hsize h \<and> dynamic h' = dynamic h \<and>
    ht_view h' = (\<lambda>k. ht_view h k @ map snd (filter (\<lambda>b. fst b = k) es))"
  using assms
proof (induction es arbitrary: h)
  case Nil then show ?case by (subst insert_all.simps) simp
next
  case (Cons e es)
  have room: "dynamic h \<longrightarrow> len h < hsize h" using Cons.prems by auto
  note a = append_bucket_ok [OF Cons.prems(1) room, of "fst e" "snd e"]
  from Cons.IH [OF a(1)] Cons.prems(2) a(3-5) obtain h' where h': "insert_all es (append_bucket (fst e) (snd e) h) = Some h'"
    "ht_ok h'" "len h' = Suc (len h) + length es" "hsize h' = hsize h" "dynamic h' = dynamic h"
    "ht_view h' = (\<lambda>k. ht_view (append_bucket (fst e) (snd e) h) k @ map snd (filter (\<lambda>b. fst b = k) es))" by auto
  have "insert_all (e # es) h = Some h'" using room h'(1) by (subst insert_all.simps) auto
  with h' a(2) show ?case by (auto simp: fun_eq_iff)
qed

text \<open>The chains together hold the bindings of a key in the order of its own chain.\<close>

lemma filter_concat_buckets:
  assumes "ht_ok h"
  shows "filter (\<lambda>b. fst b = k) (concat (buckets h)) = filter (\<lambda>b. fst b = k) (buckets h ! index_of_key k h)"
proof -
  let ?i = "index_of_key k h" and ?f = "filter (\<lambda>b. fst b = k)"
  have i: "?i < length (buckets h)" using assms index_lt [of h k] by (simp add: ht_ok_def)
  have none: "?f (buckets h ! j) = []" if "j < length (buckets h)" "j \<noteq> ?i" for j
    using assms that by (auto simp: ht_ok_def filter_empty_conv)
  have "concat (map ?f (take ?i (buckets h))) = []" "concat (map ?f (drop (Suc ?i) (buckets h))) = []"
    using none i by (auto simp: set_conv_nth)
  moreover have "concat (buckets h) = concat (take ?i (buckets h)) @ buckets h ! ?i @ concat (drop (Suc ?i) (buckets h))"
    by (subst id_take_nth_drop [OF i]) simp
  ultimately show ?thesis by (simp only: filter_append filter_concat append_Nil append_Nil2)
qed

lemma empty_table:
  assumes "buckets h = replicate (hsize h) []" "0 < hsize h" "hsize h < 2 ^ 31" "len h = 0"
  shows "ht_ok h \<and> ht_view h = (\<lambda>k. [])"
proof -
  have "buckets h ! i = []" if "i < hsize h" for i using assms(1) that by simp
  with assms index_lt [OF assms(2,3)] show ?thesis by (auto simp: ht_ok_def ht_view_def)
qed

lemma new_table_simps [simp]:
  "hsize (newHashTable n) = n" "len (newHashTable n) = 0" "dynamic (newHashTable n) = False"
  "hsize (newHashTable2 n) = n" "len (newHashTable2 n) = 0" "dynamic (newHashTable2 n) = True"
  "buckets (newHashTable n) = replicate n []" "buckets (newHashTable2 n) = replicate n []"
  by (simp_all add: newHashTable_def newHashTable2_def)

lemma new_table:
  assumes "0 < n" "n < 2 ^ 31"
  shows "ht_ok (newHashTable n) \<and> ht_view (newHashTable n) = (\<lambda>k. [])"
    "ht_ok (newHashTable2 n) \<and> ht_view (newHashTable2 n) = (\<lambda>k. [])"
  using assms by (auto intro!: empty_table [THEN conjunct1] empty_table [THEN conjunct2])

lemma insert_refines:
  assumes "ht_ok h" "len h < 2 ^ 30"
  shows "\<exists>h'. insertIntoHashTable k v h = Some h' \<and> ht_ok h' \<and> ht_view h' = (ht_view h)(k := ht_view h k @ [v]) \<and> len h' = Suc (len h)"
proof (cases "dynamic h \<and> len h \<ge> hsize h")
  case False
  then have room: "dynamic h \<longrightarrow> len h < hsize h" by linarith
  note a = append_bucket_ok [OF assms(1) room, of k v]
  have "insertIntoHashTable k v h = Some (append_bucket k v h)"
    unfolding insertIntoHashTable_def using False by (subst insert_all.simps, subst insert_all.simps) auto
  with a show ?thesis by simp
next
  case True
  with assms have n: "0 < 2 * hsize h" "2 * hsize h < 2 ^ 31" "len h \<le> 2 * hsize h" by (auto simp: ht_ok_def)
  note new = new_table(2) [OF n(1,2)]
  have l: "length (concat (buckets h)) = len h" using assms(1) by (simp add: ht_ok_def)
  have "\<exists>h1. insert_all (concat (buckets h)) (newHashTable2 (2 * hsize h)) = Some h1 \<and> ht_ok h1 \<and> len h1 = len h \<and>
      hsize h1 = 2 * hsize h \<and> ht_view h1 = (\<lambda>k. map snd (filter (\<lambda>b. fst b = k) (concat (buckets h))))"
    using insert_all_fits [OF conjunct1 [OF new], of "concat (buckets h)"] n(3) unfolding conjunct2 [OF new] l by auto
  then obtain h1 where h1: "insert_all (concat (buckets h)) (newHashTable2 (2 * hsize h)) = Some h1" "ht_ok h1" "len h1 = len h"
      "hsize h1 = 2 * hsize h" "ht_view h1 = (\<lambda>k. map snd (filter (\<lambda>b. fst b = k) (concat (buckets h))))" by blast
  have v: "ht_view h1 = ht_view h" unfolding h1(5) filter_concat_buckets [OF assms(1)] by (simp add: ht_view_def fun_eq_iff)
  have "len h1 < hsize h1" using h1(3,4) assms(1) True by (auto simp: ht_ok_def)
  note a = append_bucket_ok [OF h1(2), of k v, simplified this simp_thms]
  have "insertIntoHashTable k v h = Some (append_bucket k v h1)"
    unfolding insertIntoHashTable_def using True n(2) h1(1) by (subst insert_all.simps, subst (2) insert_all.simps) auto
  with a v h1(3) show ?thesis by simp
qed

lemma update_chain_spec:
  "fst (update_chain k v c) = first (map snd (filter (\<lambda>b. fst b = k) c))"
  "map fst (snd (update_chain k v c)) = map fst c"
  "k' \<noteq> k \<Longrightarrow> filter (\<lambda>b. fst b = k') (snd (update_chain k v c)) = filter (\<lambda>b. fst b = k') c"
  "map snd (filter (\<lambda>b. fst b = k) (snd (update_chain k v c))) = replace_first v (map snd (filter (\<lambda>b. fst b = k) c))"
  by (induction c) (auto simp: first_def replace_first_def split: prod.splits)

lemma delete_chain_spec:
  "fst (delete_chain k c) = (case filter (\<lambda>b. fst b = k) c of [] \<Rightarrow> None | b # _ \<Rightarrow> Some (snd b))"
  "k' \<noteq> k \<Longrightarrow> filter (\<lambda>b. fst b = k') (snd (delete_chain k c)) = filter (\<lambda>b. fst b = k') c"
  "filter (\<lambda>b. fst b = k) (snd (delete_chain k c)) = tl (filter (\<lambda>b. fst b = k) c)"
  "set (snd (delete_chain k c)) \<subseteq> set c"
  "length (snd (delete_chain k c)) + (if fst (delete_chain k c) = None then 0 else 1) = length c"
  by (induction c) (auto split: prod.splits list.splits)

lemma update_refines:
  assumes "ht_ok h"
  shows "case updateInHashTable k v h of (old, h') \<Rightarrow> old = first (ht_view h k) \<and> ht_ok h' \<and> len h' = len h \<and>
    ht_view h' = (ht_view h)(k := replace_first v (ht_view h k))"
proof -
  let ?i = "index_of_key k h" let ?c = "snd (update_chain k v (buckets h ! ?i))"
  have keys: "fst ` set ?c = fst ` set (buckets h ! ?i)"
    using arg_cong [where f = set, OF update_chain_spec(2) [of k v "buckets h ! ?i"]] by simp
  have c: "\<forall>b\<in>set ?c. index_of_key (fst b) h = ?i"
  proof
    fix b assume "b \<in> set ?c"
    with keys have "fst b \<in> fst ` set (buckets h ! ?i)" by blast
    then show "index_of_key (fst b) h = ?i" using chain_keys [OF assms, of _ k] by auto
  qed
  have l: "length ?c = length (buckets h ! ?i)"
    using arg_cong [where f = length, OF update_chain_spec(2) [of k v "buckets h ! ?i"]] by simp
  have eq: "updateInHashTable k v h = (first (ht_view h k), h\<lparr>buckets := (buckets h)[?i := ?c], len := len h\<rparr>)"
    by (simp add: updateInHashTable_def Let_def case_prod_beta update_chain_spec(1) ht_view_def)
  have "ht_ok (h\<lparr>buckets := (buckets h)[?i := ?c], len := len h\<rparr>)"
    by (rule ht_ok_update [OF assms refl c]) (use l assms in \<open>auto simp: ht_ok_def\<close>)
  moreover have "ht_view (h\<lparr>buckets := (buckets h)[?i := ?c], len := len h\<rparr>) = (ht_view h)(k := map snd (filter (\<lambda>b. fst b = k) ?c))"
    by (rule ht_view_update [OF assms refl]) (rule update_chain_spec(3))
  ultimately show ?thesis unfolding eq by (simp add: update_chain_spec(4) ht_view_def)
qed

lemma delete_refines:
  assumes "ht_ok h"
  shows "case deleteFromHashTable k h of (old, h') \<Rightarrow> old = first (ht_view h k) \<and> ht_ok h' \<and> len h' \<le> len h \<and>
    ht_view h' = (ht_view h)(k := tl (ht_view h k))"
proof -
  let ?i = "index_of_key k h" let ?r = "delete_chain k (buckets h ! ?i)"
  let ?n = "if fst ?r = None then len h else len h - 1"
  have i: "?i < length (buckets h)" using assms index_lt [of h k] by (simp add: ht_ok_def)
  have c: "\<forall>b\<in>set (snd ?r). index_of_key (fst b) h = ?i"
    using delete_chain_spec(4) [of k "buckets h ! ?i"] chain_keys [OF assms, of _ k] by blast
  have eq: "deleteFromHashTable k h = (first (ht_view h k), h\<lparr>buckets := (buckets h)[?i := snd ?r], len := ?n\<rparr>)"
    using delete_chain_spec(1) [of k "buckets h ! ?i"]
    by (auto simp: deleteFromHashTable_def Let_def first_def ht_view_def split: option.splits list.splits prod.splits)
  have "length (buckets h ! ?i) \<le> len h" using length_concat_update [OF i, of "[]"] assms by (simp add: ht_ok_def)
  then have "?n + length (buckets h ! ?i) = len h + length (snd ?r)"
    using delete_chain_spec(5) [of k "buckets h ! ?i"] by auto
  moreover have "dynamic h \<longrightarrow> ?n \<le> hsize h" using assms by (auto simp: ht_ok_def)
  ultimately have "ht_ok (h\<lparr>buckets := (buckets h)[?i := snd ?r], len := ?n\<rparr>)" by (rule ht_ok_update [OF assms refl c])
  moreover have "ht_view (h\<lparr>buckets := (buckets h)[?i := snd ?r], len := ?n\<rparr>) = (ht_view h)(k := map snd (filter (\<lambda>b. fst b = k) (snd ?r)))"
    by (rule ht_view_update [OF assms refl]) (rule delete_chain_spec(2))
  ultimately show ?thesis unfolding eq by (simp add: delete_chain_spec(3) ht_view_def map_tl)
qed

lemma dropWhile_filter: "(case dropWhile (\<lambda>b. \<not> P b) c of [] \<Rightarrow> x | b # bs \<Rightarrow> f b) = (case filter P c of [] \<Rightarrow> x | b # bs \<Rightarrow> f b)"
  by (induction c) auto

lemma lookup_refines: "lookupFromHashTable k h = first (ht_view h k)"
  unfolding lookupFromHashTable_def ht_view_def first_def
  using dropWhile_filter [where P = "\<lambda>b. fst b = k" and c = "buckets h ! index_of_key k h" and x = None and f = snd]
  by (auto split: list.splits)

text \<open>Walking over the bindings of a key visits them all, in order.\<close>

lemma bucket_values_dropWhile:
  "bucket_values k (dropWhile (\<lambda>b. fst b \<noteq> k) c) = map snd (filter (\<lambda>b. fst b = k) c)"
proof (induction c)
  case Nil then show ?case by (subst bucket_values.simps) simp
next
  case (Cons b c)
  then show ?case by (cases "fst b = k") (subst bucket_values.simps, simp add: nextBucket_def, simp)
qed

text \<open>Deletion of a table that owns its memory passes every binding to the caller's function, each once.\<close>

lemma deleteBucket_eq: "deleteBucket c = rev (map snd c)"
  by (induction c) auto

lemma deleteHashTable_bindings:
  assumes "ht_ok h" "\<not> dynamic h"
  shows "length (deleteHashTable h) = len h" "mset (deleteHashTable h) = image_mset snd (mset (concat (buckets h)))"
proof -
  have "mset (concat (map deleteBucket cs)) = image_mset snd (mset (concat cs))" for cs :: "'a bucket list list"
    by (induction cs) (auto simp: deleteBucket_eq)
  then show m: "mset (deleteHashTable h) = image_mset snd (mset (concat (buckets h)))" using assms(2) by (simp add: deleteHashTable_def)
  then have "size (mset (deleteHashTable h)) = size (mset (concat (buckets h)))" by simp
  then show "length (deleteHashTable h) = len h" using assms(1) unfolding ht_ok_def by (simp only: size_mset)
qed

interpretation ht: multimap_refinement ht_step mm_step ht_ok ht_view len "2 ^ 30"
proof
  fix h :: "'v hashtable" and a
  assume h: "ht_ok h" "len h < 2 ^ 30"
  show "\<exists>h'. ht_step a h = Some (fst (mm_step a (ht_view h)), h') \<and> ht_ok h' \<and> ht_view h' = snd (mm_step a (ht_view h)) \<and> len h' \<le> Suc (len h)"
  proof (cases a)
    case (Insert k v)
    with insert_refines [OF h, of k v] show ?thesis by auto
  next
    case (Update k v)
    with update_refines [OF h(1), of k v] show ?thesis by auto
  next
    case (Delete k)
    with delete_refines [OF h(1), of k] show ?thesis by auto
  next
    case (Lookup k)
    with h(1) show ?thesis by (simp add: lookup_refines)
  qed
qed

text \<open>C10 (refinement). A new table of either kind and of any size behaves like a multimap under every sequence of
  insertions, updates, deletions and lookups: every operation returns, with the result the multimap
  gives, growth of the table included; and a walk over the bindings of a key visits all of them in the
  order of their insertion.\<close>

theorem hashtable_refines_multimap:
  assumes "0 < n" "n < 2 ^ 31" "length as \<le> 2 ^ 30" "h = newHashTable n \<or> h = newHashTable2 n"
  shows "\<exists>h'. run_impl ht_step as h = Some (fst (run_spec mm_step as (\<lambda>k. [])), h') \<and>
    (\<forall>k. bucket_values k (lookupBucketFromHashTable k h') = snd (run_spec mm_step as (\<lambda>k. [])) k)"
proof -
  have h: "ht_ok h" "ht_view h = (\<lambda>k. [])" "len h = 0" using new_table [OF assms(1,2)] assms(4) by auto
  from ht.run_refines [OF h(1), of as] assms(3) h(2,3) obtain h'
    where h': "run_impl ht_step as h = Some (fst (run_spec mm_step as (\<lambda>k. [])), h')"
      "ht_view h' = snd (run_spec mm_step as (\<lambda>k. []))" by auto
  have "bucket_values k (lookupBucketFromHashTable k h') = ht_view h' k" for k
    by (simp add: lookupBucketFromHashTable_def bucket_values_dropWhile ht_view_def)
  with h' show ?thesis by auto
qed

theorem hashtable_refines_multimap_witness:
  "\<exists>h'. run_impl ht_step [Insert ''a'' (Some True), Insert ''b'' None, Insert ''a'' (Some False), Delete ''a'', Lookup ''a''] (newHashTable2 1)
     = Some ([None, None, None, Some True, Some False], h')"
  using hashtable_refines_multimap [of 1 "[Insert ''a'' (Some True), Insert ''b'' None, Insert ''a'' (Some False), Delete ''a'', Lookup ''a'']"
      "newHashTable2 1"]
  by (auto simp: first_def)

end
