(* ===== verification/Region.thy ===== *)
theory Region
  imports Prelude
begin

text \<open>
  The region allocator of \<^verbatim>\<open>lib/core/src/region.cpp\<close> (the variant without \<^verbatim>\<open>REGION_MALLOC\<close>), from which the rule engine
  and the hash table take memory that is freed all at once. A region is the list of its blocks, of which
  the last is the active one; a position is the number of a block and an offset in it. Allocation of a
  block is taken to succeed, and \<^verbatim>\<open>region_free\<close> is not part of the model.
\<close>

section \<open>Blocks\<close>

abbreviation (input) DEFAULT_BLOCK_SIZE :: nat where "DEFAULT_BLOCK_SIZE \<equiv> 1024"
abbreviation (input) REGION_ALIGNMENT :: nat where "REGION_ALIGNMENT \<equiv> 8"

definition roundToAlignment :: "nat \<Rightarrow> nat" where
  "roundToAlignment x = (if x mod REGION_ALIGNMENT = 0 then x else (x div REGION_ALIGNMENT + 1) * REGION_ALIGNMENT)"

text \<open>\<^verbatim>\<open>CACHE_SIZE(RegionDesc, 1)\<close>: the descriptor in front of every allocation, 24 bytes on a 64-bit platform.\<close>

definition desc_size :: nat where
  "desc_size = roundToAlignment 24"

record region_node = node_size :: nat  node_used :: nat

type_synonym region = "region_node list"

definition make_region_node :: "nat \<Rightarrow> region_node" where
  "make_region_node n = \<lparr>node_size = n, node_used = 0\<rparr>"

definition make_region :: "nat \<Rightarrow> region" where
  "make_region n = [make_region_node (if n = 0 then DEFAULT_BLOCK_SIZE else n)]"

text \<open>The size of a new block goes through an \<^verbatim>\<open>int\<close> and back to \<^verbatim>\<open>size_t\<close>.\<close>

definition block_size :: "nat \<Rightarrow> nat" where
  "block_size s = (if s > DEFAULT_BLOCK_SIZE
     then (let i = s mod 2 ^ 32 in if i < 2 ^ 31 then i else i + 2 ^ 64 - 2 ^ 32)
     else DEFAULT_BLOCK_SIZE)"

text \<open>The room of the active block is a difference of unsigned numbers.\<close>

definition room :: "region_node \<Rightarrow> nat" where
  "room a = (node_size a + 2 ^ 64 - node_used a) mod 2 ^ 64"

text \<open>Addition of \<^verbatim>\<open>size_t\<close>.\<close>

definition size_add :: "nat \<Rightarrow> nat \<Rightarrow> nat" where
  "size_add a b = (a + b) mod 2 ^ 64"

definition region_alloc_nodesc :: "nat \<Rightarrow> region \<Rightarrow> (nat \<times> nat) \<times> nat \<times> region" where
  "region_alloc_nodesc s r =
     (let r' = (if s > room (last r) then r @ [make_region_node (block_size s)] else r);
          a = last r';
          alloc_size = (if s > DEFAULT_BLOCK_SIZE then s else roundToAlignment s)
      in ((length r' - 1, node_used a), alloc_size, butlast r' @ [a\<lparr>node_used := size_add (node_used a) alloc_size\<rparr>]))"

text \<open>The descriptor is written at the position found; the caller gets the position behind it.\<close>

definition region_alloc :: "nat \<Rightarrow> region \<Rightarrow> (nat \<times> nat) \<times> region" where
  "region_alloc n r = (case region_alloc_nodesc (size_add n desc_size) r of ((b, off), alloc_size, r') \<Rightarrow> ((b, off + desc_size), r'))"

definition region_size :: "region \<Rightarrow> nat" where
  "region_size r = (\<Sum>a\<leftarrow>r. node_used a)"

section \<open>Executions\<close>

text \<open>A region with the allocations made from it: block, offset and size.\<close>

type_synonym region_held = "(nat \<times> nat \<times> nat) list"

inductive region_step :: "region \<times> region_held \<Rightarrow> nat \<Rightarrow> region \<times> region_held \<Rightarrow> bool" where
  "region_alloc n r = ((b, off), r') \<Longrightarrow> region_step (r, live) n (r', (b, off, n) # live)"

text \<open>A block is either full or used in units of the alignment.\<close>

definition node_ok :: "region_node \<Rightarrow> bool" where
  "node_ok a = (node_used a \<le> node_size a \<and> node_size a < 2 ^ 31 \<and>
     (node_used a = node_size a \<or> 8 dvd node_used a \<and> 8 dvd node_size a \<and> node_size a \<le> DEFAULT_BLOCK_SIZE))"

definition held_in :: "region \<Rightarrow> nat \<times> nat \<times> nat \<Rightarrow> bool" where
  "held_in r = (\<lambda>(b, off, n). b < length r \<and> 24 \<le> off \<and> 8 dvd off \<and> off + n \<le> node_used (r ! b))"

definition overlap_free :: "nat \<times> nat \<times> nat \<Rightarrow> nat \<times> nat \<times> nat \<Rightarrow> bool" where
  "overlap_free = (\<lambda>(b, off, n) (b', off', n'). b = b' \<longrightarrow> off + n \<le> off' - 24 \<or> off' + n' \<le> off - 24)"

definition region_inv :: "region \<times> region_held \<Rightarrow> bool" where
  "region_inv = (\<lambda>(r, live). r \<noteq> [] \<and> list_all node_ok r \<and> list_all (held_in r) live \<and>
     (\<forall>i<length live. \<forall>j<i. overlap_free (live ! i) (live ! j)))"

lemma round_dvd: "8 dvd roundToAlignment x" and round_le: "x \<le> roundToAlignment x"
  and round_least: "8 dvd y \<Longrightarrow> x \<le> y \<Longrightarrow> roundToAlignment x \<le> y"
  unfolding roundToAlignment_def by (presburger | auto)+

lemma room_eq: "node_ok a \<Longrightarrow> room a = node_size a - node_used a"
proof -
  assume "node_ok a"
  then have "node_used a \<le> node_size a" "node_size a < 2 ^ 31" by (auto simp: node_ok_def)
  then have "node_size a + 2 ^ 64 - node_used a = (node_size a - node_used a) + 2 ^ 64" "node_size a - node_used a < 2 ^ 64"
    by simp_all
  then show ?thesis unfolding room_def by (simp only: mod_add_self2 mod_less)
qed

lemma size_add_eq: "a + b < 2 ^ 31 \<Longrightarrow> size_add a b = a + b"
proof -
  assume "a + b < 2 ^ 31"
  then have "a + b < 2 ^ 64" by simp
  then show ?thesis unfolding size_add_def by (simp only: mod_less)
qed

text \<open>The active block after the check has room for the request, and stays well-formed when it is used.\<close>

lemma active_block:
  assumes "r \<noteq> []" "list_all node_ok r" "0 < s" "s < 2 ^ 31"
    "r' = (if s > room (last r) then r @ [make_region_node (block_size s)] else r)"
    "c = (if s > DEFAULT_BLOCK_SIZE then s else roundToAlignment s)"
  shows "r' \<noteq> []" "list_all node_ok (butlast r')" "8 dvd node_used (last r')" "s \<le> c" "node_ok ((last r')\<lparr>node_used := node_used (last r') + c\<rparr>)"
proof -
  have bs: "block_size s = max s DEFAULT_BLOCK_SIZE" using assms(4) by (auto simp: block_size_def Let_def)
  show "r' \<noteq> []" "list_all node_ok (butlast r')" using assms(1,2,5) by (auto simp: list_all_iff dest: in_set_butlastD)
  have ok: "node_ok (last r)" using assms(1,2) by (simp add: list_all_iff)
  show "s \<le> c" using assms(6) round_le by auto
  show "8 dvd node_used (last r')" using assms(3,5) ok room_eq [OF ok]
    by (auto simp: make_region_node_def node_ok_def split: if_splits)
  show "node_ok ((last r')\<lparr>node_used := node_used (last r') + c\<rparr>)"
  proof (cases "s > room (last r)")
    case True
    then have l: "last r' = make_region_node (max s DEFAULT_BLOCK_SIZE)" using assms(5) bs by simp
    show ?thesis
      using assms(4,6) round_dvd [of s] round_least [of 1024 s] unfolding l node_ok_def make_region_node_def
      by (cases "s > 1024") (auto simp: max_def)
  next
    case False
    let ?a = "last r"
    have l: "last r' = ?a" using False assms(5) by simp
    have a: "node_used ?a < node_size ?a" "8 dvd node_used ?a" "8 dvd node_size ?a" "node_size ?a \<le> 1024" "s \<le> node_size ?a - node_used ?a"
      using False ok room_eq [OF ok] assms(3) by (auto simp: node_ok_def)
    then have c: "c = roundToAlignment s" using assms(6) by auto
    have "roundToAlignment s \<le> node_size ?a - node_used ?a" using a by (intro round_least) auto
    with a c round_dvd [of s] show ?thesis unfolding l node_ok_def by auto
  qed
qed

lemma region_alloc_eq:
  assumes "region_alloc n r = ((b, off), r')" "n + 24 < 2 ^ 31" "r \<noteq> []" "list_all node_ok r"
  obtains r1 c where "r1 = (if n + 24 > room (last r) then r @ [make_region_node (block_size (n + 24))] else r)"
    "c = (if n + 24 > DEFAULT_BLOCK_SIZE then n + 24 else roundToAlignment (n + 24))" "b = length r1 - 1" "off = node_used (last r1) + 24"
    "r' = butlast r1 @ [(last r1)\<lparr>node_used := node_used (last r1) + c\<rparr>]"
proof -
  have d: "desc_size = 24" by (simp add: desc_size_def roundToAlignment_def)
  let ?r1 = "if n + 24 > room (last r) then r @ [make_region_node (block_size (n + 24))] else r"
  let ?c = "if n + 24 > DEFAULT_BLOCK_SIZE then n + 24 else roundToAlignment (n + 24)"
  have "node_ok ((last ?r1)\<lparr>node_used := node_used (last ?r1) + ?c\<rparr>)"
    by (rule active_block(5) [OF assms(3,4) _ assms(2) refl refl]) simp
  then have "node_used (last ?r1) + ?c < 2 ^ 31" by (simp add: node_ok_def del: if_split)
  note add = size_add_eq [OF this] size_add_eq [OF assms(2)]
  show thesis
    by (rule that [OF refl refl])
      (use assms(1) in \<open>simp_all only: region_alloc_def region_alloc_nodesc_def Let_def d add prod.case prod.inject\<close>)
qed

lemma region_step_inv:
  assumes "region_step (r, live) n (r', live')" "n + 24 < 2 ^ 31" "region_inv (r, live)"
  shows "region_inv (r', live')"
proof -
  from assms(1) obtain b off where al: "region_alloc n r = ((b, off), r')" and live': "live' = (b, off, n) # live"
    by (auto elim: region_step.cases)
  have inv: "r \<noteq> []" "list_all node_ok r" "list_all (held_in r) live" "\<forall>i<length live. \<forall>j<i. overlap_free (live ! i) (live ! j)"
    using assms(3) by (simp_all add: region_inv_def)
  from region_alloc_eq [OF al assms(2) inv(1,2)] obtain r1 c where eq: "r1 = (if n + 24 > room (last r) then r @ [make_region_node (block_size (n + 24))] else r)"
    "c = (if n + 24 > DEFAULT_BLOCK_SIZE then n + 24 else roundToAlignment (n + 24))" "b = length r1 - 1"
    "off = node_used (last r1) + 24" "r' = butlast r1 @ [(last r1)\<lparr>node_used := node_used (last r1) + c\<rparr>]" .
  note act = active_block [OF inv(1,2) _ assms(2) eq(1,2)]
  have len: "length r' = length r1" "r' \<noteq> []" "r' ! b = (last r1)\<lparr>node_used := node_used (last r1) + c\<rparr>"
    using act(1) eq(3,5) by (simp_all add: nth_append)
  have old: "x < length r' \<and> node_used (r ! x) \<le> node_used (r' ! x) \<and> (x = b \<longrightarrow> node_used (r ! x) = node_used (last r1))" if "x < length r" for x
    using that act(1) eq(1,3,5)
    by (cases "x = length r - 1") (auto simp: nth_append nth_butlast last_conv_nth split: if_splits)
  have held: "held_in r' y" "overlap_free y (b, off, n)" if "y \<in> set live" for y
  proof -
    obtain x o1 m where y: "y = (x, o1, m)" by (cases y)
    have "held_in r y" using inv(3) that by (simp add: list_all_iff)
    with old [of x] eq(4) show "held_in r' y" "overlap_free y (b, off, n)" by (auto simp: y held_in_def overlap_free_def)
  qed
  have "held_in r' (b, off, n)" using act(1,3,4) eq(3,4) len by (auto simp: held_in_def)
  moreover have "list_all node_ok r'" using act(2,5) eq(5) by simp
  moreover have "overlap_free (live' ! i) (live' ! j)" if "i < length live'" "j < i" for i j
    using that inv(4) held(2) [of "live ! (i - 1)"] by (auto simp: live' nth_Cons split: nat.splits)
  ultimately show ?thesis using held(1) len(2) by (simp add: region_inv_def live' list_all_iff)
qed

interpretation region_keep: component region_step "\<lambda>n. n + 24 < 2 ^ 31" region_inv
proof
  fix s s' :: "region \<times> region_held" and n
  assume "region_step s n s'" "n + 24 < 2 ^ 31" "region_inv s"
  then show "region_inv s'" using region_step_inv by (cases s; cases s') blast
qed

text \<open>C11 (bounds). In a region of the default size, every allocation that was made lies, with its descriptor, inside
  its block and is aligned to 8 bytes, and no two of them overlap. The bound on the requests keeps the
  size of a block within an \<^verbatim>\<open>int\<close>.\<close>

theorem region_bounds:
  assumes "reach region_step (\<lambda>n. n + 24 < 2 ^ 31) (make_region 0, []) (r, live)" "i < length live" "live ! i = (b, off, n)"
  shows "b < length r \<and> off + n \<le> node_size (r ! b) \<and> 24 \<le> off \<and> off mod 8 = 0 \<and>
    (\<forall>j<length live. j \<noteq> i \<longrightarrow> overlap_free (live ! i) (live ! j))"
proof -
  have "region_inv (make_region 0, [])" by (simp add: region_inv_def make_region_def make_region_node_def node_ok_def)
  with region_keep.reach_keeps [OF assms(1)] have inv: "list_all node_ok r" "list_all (held_in r) live"
    "\<forall>i<length live. \<forall>j<i. overlap_free (live ! i) (live ! j)" by (simp_all add: region_inv_def)
  have sym: "overlap_free x y \<longleftrightarrow> overlap_free y x" for x y by (auto simp: overlap_free_def split: prod.splits)
  have h: "held_in r (b, off, n)" using inv(2) assms(2,3) by (metis list_all_length)
  then have "b < length r" "off + n \<le> node_used (r ! b)" "24 \<le> off" "off mod 8 = 0" by (simp_all add: held_in_def)
  moreover have "node_used (r ! b) \<le> node_size (r ! b)" using inv(1) \<open>b < length r\<close> by (simp add: list_all_length node_ok_def)
  moreover have "overlap_free (live ! i) (live ! j)" if "j < length live" "j \<noteq> i" for j
    using inv(3) assms(2) that sym [of "live ! i" "live ! j"] by (cases "j < i") auto
  ultimately show ?thesis by auto
qed

theorem region_bounds_witness:
  "case region_alloc 10 (make_region 0) of ((b, off), r) \<Rightarrow> b < length r \<and> off + 10 \<le> node_size (r ! b)"
proof -
  have al: "region_alloc 10 (make_region 0) = ((0, 24), [\<lparr>node_size = 1024, node_used = 40\<rparr>])"
    by (simp add: region_alloc_def region_alloc_nodesc_def make_region_def make_region_node_def desc_size_def roundToAlignment_def
        room_def size_add_def Let_def)
  from region_step.intros [OF al, of "[]"]
  have "reach region_step (\<lambda>n. n + 24 < 2 ^ 31) (make_region 0, []) ([\<lparr>node_size = 1024, node_used = 40\<rparr>], [(0, 24, 10)])"
    by (intro reach_step [OF reach_start, where a = 10]) auto
  from region_bounds [OF this, of 0 0 24 10] show ?thesis unfolding al by simp
qed

end
