(* ===== verification/Voting.thy ===== *)
theory Voting
  imports Complex_Main Hierarchy_Parser Replica_Access_Table Replica_Proxy
begin

text \<open>
  How a resource votes on an operation (\<^verbatim>\<open>server/core/src/voting.cpp\<close>), and how the storage plugins answer with the vote
  (\<^verbatim>\<open>plugins/resources\<close>). A vote is a rational number; the four votes of the program are exact in its \<^verbatim>\<open>float\<close>. The
  plugin context is the results of the property lookups, \<open>Inl\<close> with the code of the error. Shown is what an
  offer says about the replica, and that a vote changes and depends on nothing of the object it should not.
\<close>

section \<open>Objects and contexts\<close>

abbreviation (input) INT_RESC_STATUS_DOWN :: int where "INT_RESC_STATUS_DOWN \<equiv> 1"

abbreviation (input) vote_high :: rat where "vote_high \<equiv> 1"
abbreviation (input) vote_medium :: rat where "vote_medium \<equiv> 1 / 2"
abbreviation (input) vote_low :: rat where "vote_low \<equiv> 1 / 4"
abbreviation (input) vote_zero :: rat where "vote_zero \<equiv> 0"

record physical_object =
  po_id :: int
  po_repl_num :: int
  po_status :: int
  po_resc_hier :: string
  po_vote :: rat

text \<open>\<open>fo_token\<close> and \<open>fo_hier_str\<close> are the replica token and the hierarchy of the condition input, if there are any.\<close>

record file_object =
  fo_replicas :: "physical_object list"
  fo_resc_hier :: string
  fo_repl_requested :: int
  fo_size :: int
  fo_token :: "string option"
  fo_hier_str :: "string option"

type_synonym 'a property = "int + 'a"

record vote_context =
  vc_status :: "int property"
  vc_name :: "string property"
  vc_location :: "string property"
  vc_minimum_free_space :: "string property"
  vc_free_space :: "string property"
  vc_local_hostname :: string

definition get_property :: "'a property \<Rightarrow> 'a throws" where
  "get_property p = (case p of Inl c \<Rightarrow> Inl (irods_exception c) | Inr x \<Rightarrow> Inr x)"

section \<open>Voting\<close>

definition throw_if_resource_is_down :: "vote_context \<Rightarrow> unit throws" where
  "throw_if_resource_is_down ctx = tbind (get_property (vc_status ctx))
     (\<lambda>s. if INT_RESC_STATUS_DOWN = s then Inl (irods_exception SYS_RESC_IS_DOWN) else Inr ())"

text \<open>The position of the first replica whose hierarchy ends in the resource.\<close>

fun find_leaf :: "string \<Rightarrow> physical_object list \<Rightarrow> nat option throws" where
  "find_leaf name [] = Inr None"
| "find_leaf name (r # rs) = tbind (hierarchy_parser (po_resc_hier r))
     (\<lambda>l. if name = hp_last_resc l then Inr (Some 0) else tbind (find_leaf name rs) (\<lambda>i. Inr (map_option Suc i)))"

definition find_local_replica :: "vote_context \<Rightarrow> file_object \<Rightarrow> nat option throws" where
  "find_local_replica ctx f = tbind (get_property (vc_name ctx)) (\<lambda>name. find_leaf name (fo_replicas f))"

definition calculate_with_repl_status :: "access_map \<Rightarrow> vote_context \<Rightarrow> file_object \<Rightarrow> int \<Rightarrow> rat throws" where
  "calculate_with_repl_status rat ctx f preferred =
     tbind (throw_if_resource_is_down ctx) (\<lambda>_.
     tbind (find_local_replica ctx f) (\<lambda>repl. case repl of
       None \<Rightarrow> Inr vote_zero
     | Some i \<Rightarrow>
        (let r = fo_replicas f ! i in
         if WRITE_LOCKED = po_status r \<or> READ_LOCKED = po_status r then Inr vote_zero
         else if INTERMEDIATE_REPLICA = po_status r \<and>
           (case fo_token f of None \<Rightarrow> True
            | Some token \<Rightarrow> \<not> rat_contains_token token (word_of_int (po_id r)) (word_of_int (po_repl_num r)) rat)
         then Inr vote_zero
         else if fo_repl_requested f > -1
         then Inr (if po_repl_num r = fo_repl_requested f then vote_high else vote_low)
         else if preferred \<noteq> po_status r then Inr vote_low
         else tbind (get_property (vc_location ctx))
           (\<lambda>loc. Inr (if vc_local_hostname ctx = loc then vote_high else vote_medium)))))"

text \<open>\<open>cast_space\<close> is \<^verbatim>\<open>boost::lexical_cast<uintmax_t>\<close>, with \<open>None\<close> for \<^verbatim>\<open>bad_lexical_cast\<close>. The name of the resource is
  read first, and may throw.\<close>

definition replica_exceeds_resource_free_space :: "(string \<Rightarrow> nat option) \<Rightarrow> vote_context \<Rightarrow> file_object \<Rightarrow> bool throws" where
  "replica_exceeds_resource_free_space cast_space ctx f =
     (if fo_size f < 0 then Inr False
      else tbind (get_property (vc_name ctx)) (\<lambda>_. Inr (
        case vc_minimum_free_space ctx of
          Inl c \<Rightarrow> c \<noteq> KEY_NOT_FOUND
        | Inr minimum_text \<Rightarrow>
            if length minimum_text > 0 \<and> hd minimum_text = CHR ''-'' then True
            else (case cast_space minimum_text of None \<Rightarrow> True
              | Some minimum_free_space \<Rightarrow>
                  (case vc_free_space ctx of Inl _ \<Rightarrow> True
                   | Inr free_text \<Rightarrow>
                       if length free_text > 0 \<and> hd free_text = CHR ''-'' then True
                       else (case cast_space free_text of None \<Rightarrow> True
                         | Some resource_free_space \<Rightarrow>
                             if minimum_free_space > resource_free_space then True
                             else resource_free_space - minimum_free_space < nat (fo_size f)))))))"

definition throw_if_replica_exceeds_resource_free_space :: "(string \<Rightarrow> nat option) \<Rightarrow> vote_context \<Rightarrow> file_object \<Rightarrow> unit throws" where
  "throw_if_replica_exceeds_resource_free_space cast_space ctx f = tbind (replica_exceeds_resource_free_space cast_space ctx f)
     (\<lambda>b. if b then Inl (irods_exception USER_FILE_TOO_LARGE) else Inr ())"

definition calculate_for_create :: "(string \<Rightarrow> nat option) \<Rightarrow> vote_context \<Rightarrow> file_object \<Rightarrow> rat throws" where
  "calculate_for_create cast_space ctx f =
     tbind (throw_if_resource_is_down ctx) (\<lambda>_.
     tbind (throw_if_replica_exceeds_resource_free_space cast_space ctx f) (\<lambda>_.
     tbind (get_property (vc_location ctx))
       (\<lambda>loc. Inr (if vc_local_hostname ctx = loc then vote_high else vote_medium))))"

definition calculate_for_open :: "access_map \<Rightarrow> vote_context \<Rightarrow> file_object \<Rightarrow> rat throws" where
  "calculate_for_open rat ctx f = calculate_with_repl_status rat ctx f GOOD_REPLICA"

definition calculate_for_unlink :: "access_map \<Rightarrow> vote_context \<Rightarrow> file_object \<Rightarrow> rat throws" where
  "calculate_for_unlink rat ctx f = calculate_with_repl_status rat ctx f STALE_REPLICA"

definition calculate_for_write :: "access_map \<Rightarrow> vote_context \<Rightarrow> file_object \<Rightarrow> rat throws" where
  "calculate_for_write rat ctx f = calculate_with_repl_status rat ctx f GOOD_REPLICA"

abbreviation (input) CREATE_OPERATION :: string where "CREATE_OPERATION \<equiv> ''CREATE''"
abbreviation (input) WRITE_OPERATION :: string where "WRITE_OPERATION \<equiv> ''WRITE''"
abbreviation (input) OPEN_OPERATION :: string where "OPEN_OPERATION \<equiv> ''OPEN''"
abbreviation (input) UNLINK_OPERATION :: string where "UNLINK_OPERATION \<equiv> ''UNLINK''"

definition calculators :: "(string \<Rightarrow> nat option) \<Rightarrow> access_map \<Rightarrow> string \<Rightarrow> (vote_context \<Rightarrow> file_object \<Rightarrow> rat throws) option" where
  "calculators cast_space rat =
     [CREATE_OPERATION \<mapsto> calculate_for_create cast_space, OPEN_OPERATION \<mapsto> calculate_for_open rat,
      WRITE_OPERATION \<mapsto> calculate_for_write rat, UNLINK_OPERATION \<mapsto> calculate_for_unlink rat]"

text \<open>The vote is recorded in the replica of this resource.\<close>

definition calculate :: "(string \<Rightarrow> nat option) \<Rightarrow> access_map \<Rightarrow> string \<Rightarrow> vote_context \<Rightarrow> (file_object, rat) stm" where
  "calculate cast_space rat operation ctx f =
     (case tbind (from_option std_exception (calculators cast_space rat operation)) (\<lambda>calc. calc ctx f) of
        Inl e \<Rightarrow> (Inl e, f)
      | Inr vote \<Rightarrow> (case find_local_replica ctx f of
          Inl e \<Rightarrow> (Inl e, f)
        | Inr None \<Rightarrow> (Inr vote, f)
        | Inr (Some i) \<Rightarrow> (Inr vote, f\<lparr>fo_replicas := (fo_replicas f)[i := (fo_replicas f ! i)\<lparr>po_vote := vote\<rparr>]\<rparr>)))"

definition vote_is_zero :: "rat \<Rightarrow> bool" where
  "vote_is_zero v = (v - 1 / 10 ^ 8 \<le> vote_zero)"

section \<open>Storage plugins\<close>

text \<open>The answer of a resource plugin: the error, the hierarchy and the vote. Hierarchy and vote are passed by
  reference; the plugin gets their values and returns the new ones.\<close>

type_synonym resolve_result = "error \<times> resc_list \<times> rat"
type_synonym resolve_call = "string \<Rightarrow> resc_list \<Rightarrow> rat \<Rightarrow> (file_object, resolve_result) stm"

abbreviation (input) INVALID_OPERATION :: int where "INVALID_OPERATION \<equiv> - 1811000"

text \<open>The vote with its exceptions turned into errors; an unknown operation throws \<^verbatim>\<open>std::out_of_range\<close>.\<close>

definition vote_or_error :: "(file_object, rat) stm \<Rightarrow> resc_list \<Rightarrow> rat \<Rightarrow> (file_object, resolve_result) stm" where
  "vote_or_error calc parser vote f = (case calc f of
      (Inr v, f') \<Rightarrow> (Inr (SUCCESS, parser, v), f')
    | (Inl (irods_exception c), f') \<Rightarrow> (Inr (ERROR c, parser, vote), f')
    | (Inl std_exception, f') \<Rightarrow> (Inr (ERROR INVALID_OPERATION, parser, vote), f')
    | (Inl e, f') \<Rightarrow> (Inl e, f'))"

text \<open>The plugins \<^verbatim>\<open>unixfilesystem\<close>, \<^verbatim>\<open>nonblocking\<close> and \<^verbatim>\<open>univmss\<close> answer in the same way. A missing name is thrown.\<close>

definition unix_file_resolve_hierarchy :: "(string \<Rightarrow> nat option) \<Rightarrow> access_map \<Rightarrow> vote_context \<Rightarrow> resolve_call" where
  "unix_file_resolve_hierarchy cast_space rat ctx oper parser vote =
     sbind (sget (\<lambda>_. get_property (vc_name ctx)))
       (\<lambda>name. vote_or_error (calculate cast_space rat oper ctx) (snd (hp_add_child parser name)) vote_zero)"

definition mock_archive_file_resolve_hierarchy :: "(string \<Rightarrow> nat option) \<Rightarrow> access_map \<Rightarrow> vote_context \<Rightarrow> resolve_call" where
  "mock_archive_file_resolve_hierarchy cast_space rat ctx oper parser vote =
     (case vc_name ctx of Inl c \<Rightarrow> sreturn (ERROR c, parser, vote)
      | Inr name \<Rightarrow>
          (let parser' = snd (hp_add_child parser name) in
           if WRITE_OPERATION = oper \<or> OPEN_OPERATION = oper \<or> UNLINK_OPERATION = oper
           then vote_or_error (calculate cast_space rat oper ctx) parser' vote
           else sreturn (ERROR SYS_INVALID_INPUT_PARAM, parser', vote)))"

section \<open>What a vote says\<close>

lemma find_leaf_Some:
  "find_leaf name rs = Inr (Some i) \<Longrightarrow> i < length rs \<and> (\<exists>l. hierarchy_parser (po_resc_hier (rs ! i)) = Inr l \<and> hp_last_resc l = name)"
proof (induction rs arbitrary: i)
  case (Cons r rs)
  then show ?case by (auto simp: tbind_eq_Inr split: if_splits)
qed simp

text \<open>A replica that a resource may offer: neither locked nor, without its token, intermediate.\<close>

definition offered :: "access_map \<Rightarrow> file_object \<Rightarrow> physical_object \<Rightarrow> bool" where
  "offered m f r = (po_status r \<noteq> WRITE_LOCKED \<and> po_status r \<noteq> READ_LOCKED \<and>
     (po_status r = INTERMEDIATE_REPLICA \<longrightarrow>
        (\<exists>token. fo_token f = Some token \<and> rat_contains_token token (word_of_int (po_id r)) (word_of_int (po_repl_num r)) m)))"

lemma calculate_with_repl_status_vote:
  assumes "calculate_with_repl_status m ctx f st = Inr v"
  shows "v \<in> {0, 1 / 4, 1 / 2, 1}"
    "v \<noteq> 0 \<Longrightarrow> vc_status ctx \<noteq> Inr INT_RESC_STATUS_DOWN \<and> (\<exists>i. find_local_replica ctx f = Inr (Some i) \<and> offered m f (fo_replicas f ! i))"
proof -
  from assms obtain repl where up: "throw_if_resource_is_down ctx = Inr ()" and repl: "find_local_replica ctx f = Inr repl"
    unfolding calculate_with_repl_status_def tbind_eq_Inr by (auto simp: unit_eq)
  have st: "vc_status ctx \<noteq> Inr INT_RESC_STATUS_DOWN"
    using up by (auto simp: throw_if_resource_is_down_def get_property_def)
  note eq = assms [unfolded calculate_with_repl_status_def up repl tbind_simps]
  have "v \<in> {0, 1 / 4, 1 / 2, 1} \<and> (v \<noteq> 0 \<longrightarrow> (\<exists>i. repl = Some i \<and> offered m f (fo_replicas f ! i)))"
  proof (cases repl)
    case None with eq show ?thesis by simp
  next
    case (Some i)
    have "v = 0" if "\<not> offered m f (fo_replicas f ! i)"
      using eq that unfolding Some option.case Let_def offered_def by (auto split: if_splits option.splits)
    moreover have "v \<in> {0, 1 / 4, 1 / 2, 1}"
      using eq unfolding Some option.case Let_def tbind_eq_Inr by (simp add: tbind_eq_Inr split: if_splits) auto
    ultimately show ?thesis using Some by auto
  qed
  then show "v \<in> {0, 1 / 4, 1 / 2, 1}"
    "v \<noteq> 0 \<Longrightarrow> vc_status ctx \<noteq> Inr INT_RESC_STATUS_DOWN \<and> (\<exists>i. find_local_replica ctx f = Inr (Some i) \<and> offered m f (fo_replicas f ! i))"
    using st repl by auto
qed

lemma vote_is_zero_iff: "v \<in> {0, 1 / 4, 1 / 2, 1} \<Longrightarrow> vote_is_zero v \<longleftrightarrow> v = 0"
  by (auto simp: vote_is_zero_def)

lemma calculators_status:
  assumes "calculators cast_space m oper = Some calc" "oper \<noteq> CREATE_OPERATION"
  shows "\<exists>st. calc = (\<lambda>ctx f. calculate_with_repl_status m ctx f st)"
proof -
  have "calc \<in> {calculate_for_open m, calculate_for_write m, calculate_for_unlink m}"
    using assms unfolding calculators_def fun_upd_apply by (simp only: option.inject split: if_splits) auto
  then show ?thesis unfolding calculate_for_open_def calculate_for_write_def calculate_for_unlink_def by blast
qed

text \<open>The vote with its reasons, and the replica that belongs to the resource.\<close>

lemma calculate_vote:
  assumes "fst (calculate cast_space m oper ctx f) = Inr v"
  shows "v \<in> {0, 1 / 4, 1 / 2, 1}" "oper \<noteq> CREATE_OPERATION \<Longrightarrow> v \<noteq> 0 \<Longrightarrow>
    vc_status ctx \<noteq> Inr INT_RESC_STATUS_DOWN \<and> (\<exists>i. find_local_replica ctx f = Inr (Some i) \<and> offered m f (fo_replicas f ! i))"
proof -
  from assms obtain calc where calc: "calculators cast_space m oper = Some calc" "calc ctx f = Inr v"
    unfolding calculate_def by (cases "calculators cast_space m oper") (auto split: sum.splits option.splits)
  have *: "v \<in> {0, 1 / 4, 1 / 2, 1} \<and> (oper \<noteq> CREATE_OPERATION \<and> v \<noteq> 0 \<longrightarrow>
      vc_status ctx \<noteq> Inr INT_RESC_STATUS_DOWN \<and> (\<exists>i. find_local_replica ctx f = Inr (Some i) \<and> offered m f (fo_replicas f ! i)))"
  proof (cases "oper = CREATE_OPERATION")
    case True
    with calc have "calculate_for_create cast_space ctx f = Inr v" by (simp add: calculators_def)
    then have "v \<in> {0, 1 / 4, 1 / 2, 1}" by (auto simp: calculate_for_create_def tbind_eq_Inr)
    with True show ?thesis by simp
  next
    case False
    with calculators_status [OF calc(1)] calc(2) obtain st where "calculate_with_repl_status m ctx f st = Inr v" by auto
    from calculate_with_repl_status_vote [OF this] show ?thesis by blast
  qed
  then show "v \<in> {0, 1 / 4, 1 / 2, 1}" by blast
  show "oper \<noteq> CREATE_OPERATION \<Longrightarrow> v \<noteq> 0 \<Longrightarrow>
      vc_status ctx \<noteq> Inr INT_RESC_STATUS_DOWN \<and> (\<exists>i. find_local_replica ctx f = Inr (Some i) \<and> offered m f (fo_replicas f ! i))"
    using * by blast
qed

lemma find_local_replica_Some:
  assumes "find_local_replica ctx f = Inr (Some i)"
  obtains l where "i < length (fo_replicas f)" "hierarchy_parser (po_resc_hier (fo_replicas f ! i)) = Inr l" "vc_name ctx = Inr (hp_last_resc l)"
proof -
  from assms obtain name where "vc_name ctx = Inr name" "find_leaf name (fo_replicas f) = Inr (Some i)"
    by (auto simp: find_local_replica_def get_property_def tbind_eq_Inr split: sum.splits)
  with find_leaf_Some [OF this(2)] that show thesis by blast
qed

text \<open>C37 (safety). A resource only ever votes 0, 0.25, 0.5 or 1. When it offers to open, write or unlink, it is not down,
  has the replica, and the replica is neither locked nor, unless the client presents the token of that very
  replica, intermediate; the vote is recorded in that replica, and nothing else of the object changes.\<close>

theorem vote_offers_accessible_replica:
  assumes "calculate cast_space m oper ctx f = (Inr v, f')"
  shows "v \<in> {0, 1 / 4, 1 / 2, 1} \<and> (oper \<noteq> CREATE_OPERATION \<and> \<not> vote_is_zero v \<longrightarrow>
    vc_status ctx \<noteq> Inr INT_RESC_STATUS_DOWN \<and>
    (\<exists>i l. i < length (fo_replicas f) \<and> hierarchy_parser (po_resc_hier (fo_replicas f ! i)) = Inr l \<and>
      vc_name ctx = Inr (hp_last_resc l) \<and> offered m f (fo_replicas f ! i) \<and>
      f' = f\<lparr>fo_replicas := (fo_replicas f)[i := (fo_replicas f ! i)\<lparr>po_vote := v\<rparr>]\<rparr>))"
proof -
  have fst: "fst (calculate cast_space m oper ctx f) = Inr v" using assms by simp
  note v = calculate_vote [OF fst]
  have "f' = f\<lparr>fo_replicas := (fo_replicas f)[i := (fo_replicas f ! i)\<lparr>po_vote := v\<rparr>]\<rparr>" if "find_local_replica ctx f = Inr (Some i)" for i
    using assms that unfolding calculate_def
    by (cases "calculators cast_space m oper") (auto split: sum.splits)
  with v vote_is_zero_iff [OF v(1)] show ?thesis by (metis find_local_replica_Some)
qed

definition sample_context :: "string \<Rightarrow> vote_context" where
  "sample_context host = \<lparr>vc_status = Inr 0, vc_name = Inr ''r'', vc_location = Inr ''h'', vc_minimum_free_space = Inl KEY_NOT_FOUND,
     vc_free_space = Inl KEY_NOT_FOUND, vc_local_hostname = host\<rparr>"

definition sample_object :: "int \<Rightarrow> rat \<Rightarrow> file_object" where
  "sample_object st v = \<lparr>fo_replicas = [\<lparr>po_id = 1, po_repl_num = 0, po_status = st, po_resc_hier = ''r'', po_vote = v\<rparr>],
     fo_resc_hier = [], fo_repl_requested = -1, fo_size = 5, fo_token = Some ''u'', fo_hier_str = None\<rparr>"

lemma parse_sample: "hierarchy_parser ''r'' = Inr [''r'']"
  using hierarchy_parser_hp_str [of "[''r'']"] by (simp add: hp_str_def Let_def valid_name_def)

lemma sample_name: "vc_name (sample_context host) = Inr ''r''"
  by (simp add: sample_context_def)

lemma calculate_sample:
  "calculate Map.empty m OPEN_OPERATION (sample_context host) (sample_object GOOD_REPLICA v) =
     (let w = if host = ''h'' then 1 else 1 / 2 in (Inr w, sample_object GOOD_REPLICA w))"
  by (simp add: calculate_def calculators_def calculate_for_open_def calculate_with_repl_status_def throw_if_resource_is_down_def
      find_local_replica_def get_property_def sample_context_def sample_object_def parse_sample hp_last_resc_def Let_def)

theorem vote_offers_accessible_replica_witness:
  "offered [] (sample_object GOOD_REPLICA 0) (fo_replicas (sample_object GOOD_REPLICA 0) ! 0) \<and>
   (1::rat) \<in> {0, 1 / 4, 1 / 2, 1}"
proof -
  have "calculate Map.empty [] OPEN_OPERATION (sample_context ''h'') (sample_object GOOD_REPLICA 0) = (Inr 1, sample_object GOOD_REPLICA 1)"
    by (simp add: calculate_sample Let_def)
  from vote_offers_accessible_replica [OF this] show ?thesis
    by (auto simp: vote_is_zero_def sample_object_def less_Suc_eq)
qed

section \<open>Votes and nothing else\<close>

text \<open>What the votes are cast on: the object without the votes recorded in it, and without the hierarchy under
  which it is opened. An operation is \<open>votes_only\<close> if it leaves all of that and the hierarchy as they are, and
  if its result does not depend on the votes and on that hierarchy.\<close>

definition object_view :: "file_object \<Rightarrow> file_object" where
  "object_view f = f\<lparr>fo_replicas := map (\<lambda>r. r\<lparr>po_vote := 0\<rparr>) (fo_replicas f), fo_resc_hier := []\<rparr>"

definition votes_only :: "(file_object, 'a) stm \<Rightarrow> bool" where
  "votes_only c = (\<forall>f. object_view (snd (c f)) = object_view f \<and> fo_resc_hier (snd (c f)) = fo_resc_hier f \<and>
     (\<forall>f'. object_view f' = object_view f \<longrightarrow> fst (c f') = fst (c f)))"

lemma object_view_simps [simp]:
  "fo_repl_requested (object_view f) = fo_repl_requested f" "fo_token (object_view f) = fo_token f"
  "fo_size (object_view f) = fo_size f" "fo_hier_str (object_view f) = fo_hier_str f"
  "fo_replicas (object_view f) = map (\<lambda>r. r\<lparr>po_vote := 0\<rparr>) (fo_replicas f)"
  "object_view (object_view f) = object_view f" "object_view (f\<lparr>fo_resc_hier := h\<rparr>) = object_view f"
  by (simp_all add: object_view_def)

lemma object_view_eqD:
  assumes "object_view f' = object_view f"
  shows "fo_repl_requested f' = fo_repl_requested f" "fo_token f' = fo_token f" "fo_size f' = fo_size f" "fo_hier_str f' = fo_hier_str f"
    "map (\<lambda>r. r\<lparr>po_vote := 0\<rparr>) (fo_replicas f') = map (\<lambda>r. r\<lparr>po_vote := 0\<rparr>) (fo_replicas f)"
  using arg_cong [OF assms, of fo_repl_requested] arg_cong [OF assms, of fo_token] arg_cong [OF assms, of fo_size]
    arg_cong [OF assms, of fo_hier_str] arg_cong [OF assms, of fo_replicas] by simp_all

lemma votes_onlyI:
  assumes "\<And>f. object_view (snd (c f)) = object_view f" "\<And>f. fo_resc_hier (snd (c f)) = fo_resc_hier f"
    "\<And>f. fst (c (object_view f)) = fst (c f)"
  shows "votes_only c"
  unfolding votes_only_def by (metis assms)

lemma votes_onlyD:
  assumes "votes_only c"
  shows "object_view (snd (c f)) = object_view f" "fo_resc_hier (snd (c f)) = fo_resc_hier f"
    "object_view f' = object_view f \<Longrightarrow> fst (c f') = fst (c f)"
  using assms unfolding votes_only_def by blast+

named_theorems votes_intro \<open>operations that change and depend on the votes at most\<close>

lemma votes_only_sreturn [votes_intro]: "votes_only (sreturn x)"
  by (simp add: votes_only_def)

lemma votes_only_sget [votes_intro]: "(\<And>f. g (object_view f) = g f) \<Longrightarrow> votes_only (sget g)"
  by (rule votes_onlyI) simp_all

lemma votes_only_sbind [votes_intro]:
  assumes "votes_only m" "\<And>x. votes_only (g x)"
  shows "votes_only (sbind m g)"
  unfolding votes_only_def
proof (intro allI conjI impI)
  fix f
  have m: "object_view (snd (m f)) = object_view f" "fo_resc_hier (snd (m f)) = fo_resc_hier f" by (rule votes_onlyD [OF assms(1)])+
  have eq: "sbind m g f = (case fst (m f) of Inl e \<Rightarrow> (Inl e, snd (m f)) | Inr x \<Rightarrow> g x (snd (m f)))" for f
    by (simp add: sbind_def split: prod.split sum.split)
  show "object_view (snd (sbind m g f)) = object_view f" "fo_resc_hier (snd (sbind m g f)) = fo_resc_hier f"
    using m votes_onlyD(1,2) [OF assms(2)] by (simp_all add: eq split: sum.split)
  fix f' assume f': "object_view f' = object_view f"
  then have "fst (m f') = fst (m f)" by (rule votes_onlyD(3) [OF assms(1)])
  moreover have "object_view (snd (m f')) = object_view (snd (m f))" using f' by (simp add: votes_onlyD(1) [OF assms(1)])
  ultimately show "fst (sbind m g f') = fst (sbind m g f)"
    by (cases "fst (m f)") (simp_all add: eq votes_onlyD(3) [OF assms(2), of "snd (m f')" "snd (m f)"])
qed

lemma find_local_replica_votes: "find_local_replica ctx (object_view f) = find_local_replica ctx f"
proof -
  have "find_leaf name (map (\<lambda>r. r\<lparr>po_vote := 0\<rparr>) rs) = find_leaf name rs" for name rs
    by (induction rs) (simp_all cong: if_cong)
  then show ?thesis by (simp add: find_local_replica_def)
qed

lemma calculate_with_repl_status_votes: "calculate_with_repl_status m ctx (object_view f) st = calculate_with_repl_status m ctx f st"
proof (cases "find_local_replica ctx f")
  case (Inr repl)
  then have "i < length (fo_replicas f)" if "repl = Some i" for i
    using that find_leaf_Some by (auto simp: find_local_replica_def tbind_eq_Inr)
  with Inr show ?thesis by (cases repl) (simp_all add: calculate_with_repl_status_def find_local_replica_votes Let_def split del: if_split cong: if_cong option.case_cong)
qed (simp add: calculate_with_repl_status_def find_local_replica_votes)

lemma calculators_votes: "calculators cast_space m oper = Some calc \<Longrightarrow> calc ctx (object_view f) = calc ctx f"
proof (cases "oper = CREATE_OPERATION")
  case True
  assume "calculators cast_space m oper = Some calc"
  with True have "calc = calculate_for_create cast_space" by (simp add: calculators_def)
  moreover have "replica_exceeds_resource_free_space cast_space ctx (object_view f) = replica_exceeds_resource_free_space cast_space ctx f"
    unfolding replica_exceeds_resource_free_space_def object_view_simps ..
  ultimately show ?thesis by (simp add: calculate_for_create_def throw_if_replica_exceeds_resource_free_space_def)
qed (auto dest!: calculators_status simp: calculate_with_repl_status_votes)

lemma votes_only_calculate [votes_intro]: "votes_only (calculate cast_space m oper ctx)"
proof (rule votes_onlyI)
  fix f
  have "map (\<lambda>r. r\<lparr>po_vote := 0\<rparr>) (xs[i := (xs ! i)\<lparr>po_vote := v\<rparr>]) = map (\<lambda>r. r\<lparr>po_vote := 0\<rparr>) xs" for xs :: "physical_object list" and i v
    by (cases "i < length xs") (auto simp: map_update nth_list_update intro!: nth_equalityI)
  then show "object_view (snd (calculate cast_space m oper ctx f)) = object_view f"
    by (simp add: calculate_def object_view_def split: sum.split option.split)
  show "fo_resc_hier (snd (calculate cast_space m oper ctx f)) = fo_resc_hier f"
    by (simp add: calculate_def split: sum.split option.split)
  show "fst (calculate cast_space m oper ctx (object_view f)) = fst (calculate cast_space m oper ctx f)"
  proof (cases "calculators cast_space m oper")
    case (Some calc)
    with calculators_votes [OF Some, of ctx f] find_local_replica_votes [of ctx f] show ?thesis
      by (simp add: calculate_def split: sum.split option.split)
  qed (simp add: calculate_def)
qed

lemma votes_only_vote_or_error [votes_intro]:
  assumes "votes_only calc"
  shows "votes_only (vote_or_error calc parser vote)"
proof (rule votes_onlyI)
  fix f
  note d = votes_onlyD [OF assms]
  show "object_view (snd (vote_or_error calc parser vote f)) = object_view f"
    "fo_resc_hier (snd (vote_or_error calc parser vote f)) = fo_resc_hier f"
    using d(1) [of f] d(2) [of f] by (cases "calc f"; simp add: vote_or_error_def split: sum.split exn.split)+
  have "fst (calc (object_view f)) = fst (calc f)" by (rule d(3)) simp
  then show "fst (vote_or_error calc parser vote (object_view f)) = fst (vote_or_error calc parser vote f)"
    by (cases "calc f"; cases "calc (object_view f)") (simp add: vote_or_error_def split: sum.split exn.split)
qed

lemma votes_only_storage [votes_intro]:
  "votes_only (unix_file_resolve_hierarchy cast_space m ctx oper parser vote)"
  "votes_only (mock_archive_file_resolve_hierarchy cast_space m ctx oper parser vote)"
  unfolding unix_file_resolve_hierarchy_def mock_archive_file_resolve_hierarchy_def Let_def
  by (intro votes_intro refl) (auto intro!: votes_intro split: sum.split)

end
