(* ===== verification/Redirection.thy ===== *)
theory Redirection
  imports Voting
begin

text \<open>
  How the votes of the root resources of a data object select the resource hierarchy for an operation
  (\<^verbatim>\<open>server/core/src/irods_resource_redirect.cpp\<close>). What the selection asks of other parts of the server is in
  \<open>redirect_env\<close>: the lookup of a resource, whether it has a parent, the operation of the resource plugin that
  resolves a hierarchy and may record votes in the object, the policy for creation and the status of the
  collection.
\<close>

section \<open>The model\<close>

abbreviation (input) HIERARCHY_ERROR :: int where "HIERARCHY_ERROR \<equiv> - 1803000"
abbreviation (input) SYS_REPLICA_DOES_NOT_EXIST :: int where "SYS_REPLICA_DOES_NOT_EXIST \<equiv> - 164000"
abbreviation (input) SYS_REPLICA_INACCESSIBLE :: int where "SYS_REPLICA_INACCESSIBLE \<equiv> - 168000"
abbreviation (input) DIRECT_CHILD_ACCESS :: int where "DIRECT_CHILD_ACCESS \<equiv> - 1816000"
abbreviation (input) SYS_NOT_SUPPORTED :: int where "SYS_NOT_SUPPORTED \<equiv> - 66000"

record inp =
  in_resc_name :: "string option"
  in_dest_resc_name :: "string option"
  in_repl_num :: bool
  in_def_resc_name :: "string option"
  in_force_flag :: bool
  in_opr_type :: int

record redirect_env =
  re_resolve :: "string \<Rightarrow> error"
  re_has_parent :: "string \<Rightarrow> bool"
  re_call :: "string \<Rightarrow> string \<Rightarrow> (file_object, resolve_result) stm"
  re_create_policy :: "inp \<Rightarrow> string \<Rightarrow> string throws"
  re_special_collection :: "string option"

definition get_keyword_from_inp :: "redirect_env \<Rightarrow> inp \<Rightarrow> string throws" where
  "get_keyword_from_inp env i =
     (let key_word = (case in_resc_name i of Some n \<Rightarrow> n | None \<Rightarrow> []);
          key_word = (case in_dest_resc_name i of Some n \<Rightarrow> n | None \<Rightarrow> key_word)
      in if key_word \<noteq> [] then
           (if \<not> ok (re_resolve env key_word) then Inl (irods_exception (code (re_resolve env key_word)))
            else if re_has_parent env key_word then Inl (irods_exception DIRECT_CHILD_ACCESS)
            else Inr key_word)
         else Inr key_word)"

fun hier_has_replica :: "string \<Rightarrow> physical_object list \<Rightarrow> bool throws" where
  "hier_has_replica resc [] = Inr False"
| "hier_has_replica resc (r # rs) = tbind (hierarchy_parser (po_resc_hier r))
     (\<lambda>l. if hp_contains l resc then Inr True else hier_has_replica resc rs)"

text \<open>The error, the hierarchy and the vote; the last two keep their initial values on failure. The plugin is called
  with an empty hierarchy and the vote 0.\<close>

definition request_vote_for_file_object :: "redirect_env \<Rightarrow> string \<Rightarrow> string \<Rightarrow> (file_object, error \<times> string \<times> rat) stm" where
  "request_vote_for_file_object env oper resc =
     (if \<not> ok (re_resolve env resc) then sreturn (re_resolve env resc, [], 0)
      else if re_has_parent env resc then sreturn (ERROR DIRECT_CHILD_ACCESS, [], 0)
      else sbind (re_call env oper resc) (\<lambda>(err, parser, vote). sreturn
        (if \<not> ok err \<or> vote_is_zero vote
         then (ERROR (if code err = 0 then HIERARCHY_ERROR else code err), [], 0)
         else (SUCCESS, hp_str parser [], vote))))"

text \<open>The roots of the replicas, each once and in order.\<close>

fun root_map :: "physical_object list \<Rightarrow> (string, rat) std_map \<Rightarrow> (string, rat) std_map throws" where
  "root_map [] m = Inr m"
| "root_map (r # rs) m = tbind (hierarchy_parser (po_resc_hier r)) (\<lambda>l. root_map rs (map_set (hp_first_resc l) vote_zero m))"

record ballot =
  kw_match_found :: bool
  max_hier :: string
  max_vote :: rat

fun vote_loop :: "redirect_env \<Rightarrow> string \<Rightarrow> string \<Rightarrow> string list \<Rightarrow> ballot \<Rightarrow> (file_object, ballot) stm" where
  "vote_loop env oper kw [] b = sreturn b"
| "vote_loop env oper kw (rt # roots) b = sbind (request_vote_for_file_object env oper rt)
     (\<lambda>(ret, voted_hier, vote) f.
        if \<not> ok ret then vote_loop env oper kw roots b f
        else if kw_match_found b then vote_loop env oper kw roots b f
        else
          (let m = (\<not> vote_is_zero vote \<and> kw \<noteq> [] \<and> rt = kw);
               f' = (if m then f\<lparr>fo_resc_hier := voted_hier\<rparr> else f);
               b' = (if m then b\<lparr>kw_match_found := True\<rparr> else b)
           in vote_loop env oper kw roots
                (if vote > max_vote b then b'\<lparr>max_vote := vote, max_hier := voted_hier\<rparr> else b') f'))"

definition get_replica :: "int \<Rightarrow> file_object \<Rightarrow> physical_object option" where
  "get_replica n f = List.find (\<lambda>r. n = po_repl_num r) (fo_replicas f)"

definition resolve_hier_for_open_or_write :: "redirect_env \<Rightarrow> string \<Rightarrow> string \<Rightarrow> (file_object, string) stm" where
  "resolve_hier_for_open_or_write env key_word oper f =
     (case root_map (fo_replicas f) [] of
        Inl e \<Rightarrow> (Inl e, f)
      | Inr roots \<Rightarrow>
          if roots = [] then (Inl (irods_exception SYS_REPLICA_DOES_NOT_EXIST), f)
          else case vote_loop env oper key_word (map fst roots) \<lparr>kw_match_found = False, max_hier = [], max_vote = -1\<rparr> f of
            (Inl e, f') \<Rightarrow> (Inl e, f')
          | (Inr b, f') \<Rightarrow>
              if vote_is_zero (max_vote b) then (Inl (irods_exception HIERARCHY_ERROR), f')
              else if fo_repl_requested f' > -1 then
                (case get_replica (fo_repl_requested f') f' of
                   None \<Rightarrow> (Inl (irods_exception SYS_REPLICA_DOES_NOT_EXIST), f')
                 | Some r \<Rightarrow>
                     if vote_is_zero (po_vote r) then (Inl (irods_exception SYS_REPLICA_INACCESSIBLE), f')
                     else (Inr (po_resc_hier r), f'\<lparr>fo_resc_hier := po_resc_hier r\<rparr>))
              else if kw_match_found b then (Inr (fo_resc_hier f'), f')
              else (Inr (max_hier b), f'\<lparr>fo_resc_hier := max_hier b\<rparr>))"

definition resolve_hier_for_create :: "redirect_env \<Rightarrow> string \<Rightarrow> (file_object, string) stm" where
  "resolve_hier_for_create env key_word f =
     (case request_vote_for_file_object env CREATE_OPERATION key_word (f\<lparr>fo_resc_hier := key_word\<rparr>) of
        (Inl e, f') \<Rightarrow> (Inl e, f')
      | (Inr (ret, hier, vote), f') \<Rightarrow>
          if vote_zero = vote then (Inl (irods_exception (if 0 = code ret then HIERARCHY_ERROR else code ret)), f')
          else (Inr hier, f'))"

abbreviation (input) PUT_OPR :: int where "PUT_OPR \<equiv> 1"
abbreviation (input) COPY_DEST :: int where "COPY_DEST \<equiv> 9"
abbreviation (input) RSYNC_OPR :: int where "RSYNC_OPR \<equiv> 14"

text \<open>The last part, for an operation on an existing object.\<close>

definition resolve_existing :: "redirect_env \<Rightarrow> string \<Rightarrow> inp \<Rightarrow> error \<Rightarrow> string \<Rightarrow> (file_object, string) stm" where
  "resolve_existing env oper i fac_err key_word f =
     (if OPEN_OPERATION = oper \<or> WRITE_OPERATION = oper \<or> UNLINK_OPERATION = oper then
        (if \<not> ok fac_err then (Inl (irods_exception (code fac_err)), f)
         else resolve_hier_for_open_or_write env
           (if in_force_flag i \<and> in_def_resc_name i \<noteq> None \<and> key_word = [] then the (in_def_resc_name i) else key_word) oper f)
      else (Inl (irods_exception SYS_NOT_SUPPORTED), f))"

text \<open>For a special collection the result is the hierarchy of the collection, without a file object.\<close>

definition resolve_resource_hierarchy :: "redirect_env \<Rightarrow> string \<Rightarrow> inp \<Rightarrow> error \<Rightarrow> (file_object, string) stm" where
  "resolve_resource_hierarchy env oper_in i fac_err f =
     (case re_special_collection env of Some hier \<Rightarrow> (Inr hier, f)
      | None \<Rightarrow> (case get_keyword_from_inp env i of Inl e \<Rightarrow> (Inl e, f)
        | Inr key_word \<Rightarrow>
           (let oper = (if CREATE_OPERATION = oper_in \<and> in_repl_num i then WRITE_OPERATION else oper_in) in
            if CREATE_OPERATION = oper then
              (let name = (if key_word \<noteq> [] then key_word else case in_def_resc_name i of Some n \<Rightarrow> n | None \<Rightarrow> []) in
               case re_create_policy env i name of Inl e \<Rightarrow> (Inl e, f)
               | Inr create_resc_name \<Rightarrow>
                   (let logical_operation = (in_opr_type i \<in> {PUT_OPR, COPY_DEST, RSYNC_OPR}) in
                    if \<not> ok fac_err then resolve_hier_for_create env create_resc_name f
                    else if logical_operation then resolve_existing env WRITE_OPERATION i fac_err key_word f
                    else (case hier_has_replica create_resc_name (fo_replicas f) of
                        Inl e \<Rightarrow> (Inl e, f)
                      | Inr True \<Rightarrow> resolve_existing env WRITE_OPERATION i fac_err key_word f
                      | Inr False \<Rightarrow> resolve_hier_for_create env create_resc_name f)))
            else resolve_existing env oper i fac_err key_word f)))"

section \<open>What a root answers\<close>

text \<open>What the selection relies on in a resource plugin: it changes nothing of the object but the votes of its
  replicas, and its answer does not depend on them.\<close>

definition records_votes_only :: "redirect_env \<Rightarrow> bool" where
  "records_votes_only env = (\<forall>oper resc. votes_only (re_call env oper resc))"

lemma votes_only_request [votes_intro]:
  assumes "records_votes_only env"
  shows "votes_only (request_vote_for_file_object env oper resc)"
  using assms unfolding request_vote_for_file_object_def records_votes_only_def
  by (auto intro!: votes_intro split: prod.split)

text \<open>The hierarchy and the vote of an answer that counts.\<close>

definition answer :: "redirect_env \<Rightarrow> string \<Rightarrow> file_object \<Rightarrow> string \<Rightarrow> (string \<times> rat) option" where
  "answer env oper f rt = (case fst (request_vote_for_file_object env oper rt f) of
      Inl _ \<Rightarrow> None | Inr (err, h, v) \<Rightarrow> if ok err then Some (h, v) else None)"

definition throws_nothing :: "redirect_env \<Rightarrow> string \<Rightarrow> file_object \<Rightarrow> string \<Rightarrow> bool" where
  "throws_nothing env oper f rt = (case fst (re_call env oper rt f) of Inl _ \<Rightarrow> False | Inr _ \<Rightarrow> True)"

lemma request_Inr:
  assumes "fst (request_vote_for_file_object env oper rt f) = Inr (err, h, v)" "ok err"
  obtains p where "fst (re_call env oper rt f) = Inr (SUCCESS, p, v) \<or> (\<exists>e. ok e \<and> fst (re_call env oper rt f) = Inr (e, p, v))"
    "h = hp_str p []" "\<not> vote_is_zero v" "ok (re_resolve env rt)" "\<not> re_has_parent env rt"
  using assms unfolding request_vote_for_file_object_def
  by (cases "re_call env oper rt f") (auto simp: sbind_def split: if_splits sum.splits prod.splits)

lemma request_throws_nothing:
  "throws_nothing env oper f rt \<Longrightarrow> \<exists>a. fst (request_vote_for_file_object env oper rt f) = Inr a"
  unfolding request_vote_for_file_object_def throws_nothing_def
  by (cases "re_call env oper rt f") (auto simp: sbind_def split: sum.splits prod.splits)

section \<open>The loop over the roots\<close>

lemma vote_is_zero_mono: "\<not> vote_is_zero v \<Longrightarrow> v \<le> w \<Longrightarrow> \<not> vote_is_zero w" "\<not> vote_is_zero v \<Longrightarrow> -1 < v"
  by (auto simp: vote_is_zero_def)

lemma answer_not_zero: "answer env oper f rt = Some (h, v) \<Longrightarrow> \<not> vote_is_zero v"
  unfolding answer_def by (auto elim!: request_Inr split: sum.splits prod.splits if_splits)

text \<open>One round of the loop, given the answer of the root and the object after it. The loop runs on an object that
  is as the original one, except for the votes and its hierarchy.\<close>

definition vote_round :: "redirect_env \<Rightarrow> string \<Rightarrow> string \<Rightarrow> string \<Rightarrow> string list \<Rightarrow> ballot \<Rightarrow> (string \<times> rat) option \<Rightarrow> (file_object, ballot) stm" where
  "vote_round env oper kw rt roots b a f1 = (case a of None \<Rightarrow> vote_loop env oper kw roots b f1
     | Some (h, v) \<Rightarrow>
        if kw_match_found b then vote_loop env oper kw roots b f1
        else if kw \<noteq> [] \<and> rt = kw
        then vote_loop env oper kw roots (if v > max_vote b then b\<lparr>kw_match_found := True, max_vote := v, max_hier := h\<rparr>
          else b\<lparr>kw_match_found := True\<rparr>) (f1\<lparr>fo_resc_hier := h\<rparr>)
        else vote_loop env oper kw roots (if v > max_vote b then b\<lparr>max_vote := v, max_hier := h\<rparr> else b) f1)"

lemma vote_loop_Cons:
  assumes "records_votes_only env" "object_view f = object_view f0" "throws_nothing env oper f0 rt"
  obtains f1 where "object_view f1 = object_view f0" "fo_resc_hier f1 = fo_resc_hier f"
    "vote_loop env oper kw (rt # roots) b f = vote_round env oper kw rt roots b (answer env oper f0 rt) f1"
proof -
  note vo = votes_onlyD [OF votes_only_request [OF assms(1), of oper rt]]
  from request_throws_nothing [OF assms(3)] obtain a where a: "fst (request_vote_for_file_object env oper rt f0) = Inr a" ..
  then have "fst (request_vote_for_file_object env oper rt f) = Inr a" using vo(3) [OF assms(2)] by simp
  then obtain f1 where f1: "request_vote_for_file_object env oper rt f = (Inr a, f1)" by (cases "request_vote_for_file_object env oper rt f") auto
  obtain ret h v where rv: "a = (ret, h, v)" by (cases a)
  have "\<not> vote_is_zero v" if "ok ret"
    using answer_not_zero [of env oper f0 rt h v] that a rv by (simp add: answer_def)
  moreover have "answer env oper f0 rt = (if ok ret then Some (h, v) else None)" using a rv by (simp add: answer_def)
  moreover have "object_view f1 = object_view f0" "fo_resc_hier f1 = fo_resc_hier f"
    using vo(1,2) [of f] f1 assms(2) by simp_all
  ultimately show thesis using f1 rv by (intro that [of f1]) (auto simp: sbind_def vote_round_def Let_def)
qed

declare vote_loop.simps(2) [simp del]

lemma vote_loop_matched:
  assumes "records_votes_only env" "list_all (throws_nothing env oper f0) roots" "object_view f = object_view f0" "kw_match_found b"
  shows "\<exists>f'. vote_loop env oper kw roots b f = (Inr b, f') \<and> fo_resc_hier f' = fo_resc_hier f \<and> object_view f' = object_view f0"
  using assms(2,3)
proof (induction roots arbitrary: f)
  case (Cons rt roots)
  from Cons.prems have t: "throws_nothing env oper f0 rt" "list_all (throws_nothing env oper f0) roots" by simp_all
  obtain f1 where f1: "object_view f1 = object_view f0" "fo_resc_hier f1 = fo_resc_hier f"
      "vote_loop env oper kw (rt # roots) b f = vote_round env oper kw rt roots b (answer env oper f0 rt) f1"
    by (rule vote_loop_Cons [OF assms(1) Cons.prems(2) t(1)])
  moreover have "vote_round env oper kw rt roots b (answer env oper f0 rt) f1 = vote_loop env oper kw roots b f1"
    using assms(4) by (simp add: vote_round_def split: option.split)
  ultimately have f1: "object_view f1 = object_view f0" "fo_resc_hier f1 = fo_resc_hier f"
      "vote_loop env oper kw (rt # roots) b f = vote_loop env oper kw roots b f1" by simp_all
  from Cons.IH [OF t(2) f1(1)] f1(2,3) show ?case by simp
qed simp

text \<open>The ballot after the answer of a root that is not the keyword's.\<close>

definition take_vote :: "ballot \<Rightarrow> (string \<times> rat) option \<Rightarrow> ballot" where
  "take_vote b a = (case a of None \<Rightarrow> b | Some (h, v) \<Rightarrow> if v > max_vote b then b\<lparr>max_vote := v, max_hier := h\<rparr> else b)"

lemma vote_round_other:
  assumes "\<not> kw_match_found b" "\<not> (a \<noteq> None \<and> kw \<noteq> [] \<and> rt = kw)"
  shows "vote_round env oper kw rt roots b a f1 = vote_loop env oper kw roots (take_vote b a) f1" "\<not> kw_match_found (take_vote b a)"
proof -
  show "vote_round env oper kw rt roots b a f1 = vote_loop env oper kw roots (take_vote b a) f1"
  proof (cases a)
    case (Some x)
    have no: "(kw \<noteq> [] \<and> rt = kw) = False" using assms(2) Some by simp
    from Some assms(1) show ?thesis by (cases x) (simp add: vote_round_def take_vote_def no del: conj_assoc)
  qed (simp add: vote_round_def take_vote_def)
  show "\<not> kw_match_found (take_vote b a)" using assms(1) by (simp add: take_vote_def split: option.split)
qed

lemma vote_loop_other:
  assumes "records_votes_only env" "object_view f = object_view f0" "throws_nothing env oper f0 rt"
    "\<not> kw_match_found b" "\<not> (answer env oper f0 rt \<noteq> None \<and> kw \<noteq> [] \<and> rt = kw)"
  obtains f1 where "object_view f1 = object_view f0" "\<not> kw_match_found (take_vote b (answer env oper f0 rt))"
    "vote_loop env oper kw (rt # roots) b f = vote_loop env oper kw roots (take_vote b (answer env oper f0 rt)) f1"
proof -
  obtain f1 where f1: "object_view f1 = object_view f0"
    "vote_loop env oper kw (rt # roots) b f = vote_round env oper kw rt roots b (answer env oper f0 rt) f1"
    by (rule vote_loop_Cons [OF assms(1-3)])
  then show thesis using vote_round_other [OF assms(4,5)] by (intro that [of f1]) simp_all
qed

text \<open>Without an answer of the keyword's root that counts, the loop finds a highest vote.\<close>

lemma vote_loop_max:
  assumes "records_votes_only env"
  shows "list_all (throws_nothing env oper f0) roots \<Longrightarrow> object_view f = object_view f0 \<Longrightarrow> \<not> kw_match_found b \<Longrightarrow>
    \<not> (kw \<noteq> [] \<and> kw \<in> set roots \<and> answer env oper f0 kw \<noteq> None) \<Longrightarrow>
    \<exists>b' f'. vote_loop env oper kw roots b f = (Inr b', f') \<and> object_view f' = object_view f0 \<and> \<not> kw_match_found b' \<and>
      max_vote b \<le> max_vote b' \<and> (\<forall>rt\<in>set roots. \<forall>h v. answer env oper f0 rt = Some (h, v) \<longrightarrow> v \<le> max_vote b') \<and>
      (b' = b \<or> (\<exists>rt\<in>set roots. answer env oper f0 rt = Some (max_hier b', max_vote b')))"
proof (induction roots arbitrary: b f)
  case (Cons rt roots)
  from Cons.prems(1) have t: "throws_nothing env oper f0 rt" "list_all (throws_nothing env oper f0) roots" by simp_all
  let ?b = "take_vote b (answer env oper f0 rt)"
  have no: "\<not> (answer env oper f0 rt \<noteq> None \<and> kw \<noteq> [] \<and> rt = kw)" using Cons.prems(4) by auto
  from vote_loop_other [OF assms Cons.prems(2) t(1) Cons.prems(3) no, of roots] obtain f1
    where f1: "object_view f1 = object_view f0" "\<not> kw_match_found ?b" "vote_loop env oper kw (rt # roots) b f = vote_loop env oper kw roots ?b f1" .
  note f1(2)
  moreover have "\<not> (kw \<noteq> [] \<and> kw \<in> set roots \<and> answer env oper f0 kw \<noteq> None)" using Cons.prems(4) by auto
  ultimately obtain b' f' where IH: "vote_loop env oper kw roots ?b f1 = (Inr b', f')" "object_view f' = object_view f0" "\<not> kw_match_found b'"
    "max_vote ?b \<le> max_vote b'" "\<forall>rt\<in>set roots. \<forall>h v. answer env oper f0 rt = Some (h, v) \<longrightarrow> v \<le> max_vote b'"
    "b' = ?b \<or> (\<exists>rt\<in>set roots. answer env oper f0 rt = Some (max_hier b', max_vote b'))"
    using Cons.IH [OF t(2) f1(1)] by blast
  have "max_vote b \<le> max_vote b'" "\<forall>h v. answer env oper f0 rt = Some (h, v) \<longrightarrow> v \<le> max_vote b'"
    using IH(4) by (auto simp: take_vote_def split: option.splits if_splits)
  moreover have "b' = b \<or> (\<exists>rt\<in>set (rt # roots). answer env oper f0 rt = Some (max_hier b', max_vote b'))"
    using IH(6) by (auto simp: take_vote_def split: option.splits if_splits)
  ultimately show ?case using IH(1-3,5) f1(3) by auto
qed simp

text \<open>With such an answer, the loop ends with its hierarchy.\<close>

lemma vote_loop_keyword:
  assumes "records_votes_only env" "kw \<noteq> []" "answer env oper f0 kw = Some (h, v)"
  shows "list_all (throws_nothing env oper f0) roots \<Longrightarrow> kw \<in> set roots \<Longrightarrow> object_view f = object_view f0 \<Longrightarrow> \<not> kw_match_found b \<Longrightarrow>
    \<exists>b' f'. vote_loop env oper kw roots b f = (Inr b', f') \<and> kw_match_found b' \<and> v \<le> max_vote b' \<and>
      fo_resc_hier f' = h \<and> object_view f' = object_view f0"
proof (induction roots arbitrary: b f)
  case (Cons rt roots)
  from Cons.prems(1) have t: "throws_nothing env oper f0 rt" "list_all (throws_nothing env oper f0) roots" by simp_all
  show ?case
  proof (cases "rt = kw")
    case True
    let ?b = "if v > max_vote b then b\<lparr>kw_match_found := True, max_vote := v, max_hier := h\<rparr> else b\<lparr>kw_match_found := True\<rparr>"
    obtain f1 where f1: "object_view f1 = object_view f0"
        "vote_loop env oper kw (rt # roots) b f = vote_round env oper kw rt roots b (answer env oper f0 rt) f1"
      by (rule vote_loop_Cons [OF assms(1) Cons.prems(3) t(1)])
    then have eq: "vote_loop env oper kw (rt # roots) b f = vote_loop env oper kw roots ?b (f1\<lparr>fo_resc_hier := h\<rparr>)"
      using True assms(2,3) Cons.prems(4) by (simp add: vote_round_def)
    have "kw_match_found ?b" "v \<le> max_vote ?b" by auto
    with vote_loop_matched [OF assms(1) t(2), of "f1\<lparr>fo_resc_hier := h\<rparr>" ?b kw] f1(1) eq show ?thesis by fastforce
  next
    case False
    from vote_loop_other [OF assms(1) Cons.prems(3) t(1) Cons.prems(4), of kw roots] False obtain f1
      where f1: "object_view f1 = object_view f0" "\<not> kw_match_found (take_vote b (answer env oper f0 rt))"
        "vote_loop env oper kw (rt # roots) b f = vote_loop env oper kw roots (take_vote b (answer env oper f0 rt)) f1" by blast
    from Cons.IH [OF t(2) _ f1(1,2)] Cons.prems(2) False f1(3) show ?thesis by simp
  qed
qed simp

section \<open>The selection\<close>

definition roots_of :: "file_object \<Rightarrow> string set" where
  "roots_of f = {hp_first_resc l | r l. r \<in> set (fo_replicas f) \<and> hierarchy_parser (po_resc_hier r) = Inr l}"

definition hierarchies_parse :: "file_object \<Rightarrow> bool" where
  "hierarchies_parse f = list_all (\<lambda>r. \<exists>l. hierarchy_parser (po_resc_hier r) = Inr l) (fo_replicas f)"

lemma root_map_roots:
  "list_all (\<lambda>r. \<exists>l. hierarchy_parser (po_resc_hier r) = Inr l) rs \<Longrightarrow>
    \<exists>m'. root_map rs m = Inr m' \<and> fst ` set m' = fst ` set m \<union> {hp_first_resc l | r l. r \<in> set rs \<and> hierarchy_parser (po_resc_hier r) = Inr l}"
proof (induction rs arbitrary: m)
  case (Cons r rs)
  then obtain l where l: "hierarchy_parser (po_resc_hier r) = Inr l" by auto
  from Cons.IH [of "map_set (hp_first_resc l) vote_zero m"] Cons.prems obtain m'
    where "root_map rs (map_set (hp_first_resc l) vote_zero m) = Inr m'"
      "fst ` set m' = insert (hp_first_resc l) (fst ` set m) \<union> {hp_first_resc l | r l. r \<in> set rs \<and> hierarchy_parser (po_resc_hier r) = Inr l}"
    by (auto simp: fst_map_set)
  with l show ?case by auto
qed simp

text \<open>C8 (functional). For an object whose hierarchies parse and without a requested replica, and plugins that only record
  votes and do not throw, the selection returns exactly when some root answers with a vote that is not
  zero, and throws a hierarchy error otherwise. The hierarchy it returns and leaves in the object is the
  one of the root named by the keyword if that root's answer counts, and otherwise one with a highest vote.\<close>

theorem resolve_selects_highest_vote:
  assumes "records_votes_only env" "hierarchies_parse f" "fo_replicas f \<noteq> []" "fo_repl_requested f \<le> -1"
    "\<forall>rt\<in>roots_of f. throws_nothing env oper f rt"
  shows "case resolve_hier_for_open_or_write env kw oper f of (res, f') \<Rightarrow>
    if \<forall>rt\<in>roots_of f. answer env oper f rt = None then res = Inl (irods_exception HIERARCHY_ERROR)
    else \<exists>rt\<in>roots_of f. \<exists>h v. answer env oper f rt = Some (h, v) \<and> res = Inr h \<and> fo_resc_hier f' = h \<and>
      (if kw \<noteq> [] \<and> kw \<in> roots_of f \<and> answer env oper f kw \<noteq> None then rt = kw
       else \<forall>rt'\<in>roots_of f. \<forall>h' v'. answer env oper f rt' = Some (h', v') \<longrightarrow> v' \<le> v)"
proof -
  let ?b = "\<lparr>kw_match_found = False, max_hier = [], max_vote = -1\<rparr>"
  from root_map_roots [of "fo_replicas f" "[]"] assms(2) obtain roots where roots: "root_map (fo_replicas f) [] = Inr roots" "fst ` set roots = roots_of f"
    by (auto simp: hierarchies_parse_def roots_of_def)
  have "roots_of f \<noteq> {}" using assms(2,3) by (cases "fo_replicas f") (auto simp: roots_of_def hierarchies_parse_def)
  then have ne: "roots \<noteq> []" using roots(2) by auto
  have set: "set (map fst roots) = roots_of f" using roots(2) by simp
  with assms(5) have t: "list_all (throws_nothing env oper f) (map fst roots)" by (simp add: list_all_iff)
  have req: "\<not> fo_repl_requested f' > -1" if "object_view f' = object_view f" for f' using object_view_eqD(1) [OF that] assms(4) by simp
  show ?thesis
  proof (cases "kw \<noteq> [] \<and> kw \<in> roots_of f \<and> answer env oper f kw \<noteq> None")
    case True
    then obtain h v where a: "answer env oper f kw = Some (h, v)" by auto
    from True set have kw: "kw \<noteq> []" "kw \<in> set (map fst roots)" by simp_all
    from vote_loop_keyword [OF assms(1) kw(1) a t kw(2) refl, of ?b] obtain b' f'
      where l: "vote_loop env oper kw (map fst roots) ?b f = (Inr b', f')" "kw_match_found b'" "v \<le> max_vote b'"
        "fo_resc_hier f' = h" "object_view f' = object_view f" by auto
    have "\<not> vote_is_zero (max_vote b')" using answer_not_zero [OF a] l(3) by (rule vote_is_zero_mono(1))
    then have "resolve_hier_for_open_or_write env kw oper f = (Inr h, f')"
      unfolding resolve_hier_for_open_or_write_def using roots(1) ne l req [OF l(5)] by simp
    then show ?thesis using True a l(4) by (auto intro!: bexI [of _ kw])
  next
    case False
    from vote_loop_max [OF assms(1) t refl, of ?b kw, unfolded set] False obtain b' f'
      where l: "vote_loop env oper kw (map fst roots) ?b f = (Inr b', f')" "object_view f' = object_view f" "\<not> kw_match_found b'"
        "\<forall>rt\<in>roots_of f. \<forall>h v. answer env oper f rt = Some (h, v) \<longrightarrow> v \<le> max_vote b'"
        "b' = ?b \<or> (\<exists>rt\<in>roots_of f. answer env oper f rt = Some (max_hier b', max_vote b'))" by auto
    show ?thesis
    proof (cases "b' = ?b")
      case True
      have none: "\<forall>rt\<in>roots_of f. answer env oper f rt = None"
      proof (rule ballI, rule ccontr)
        fix rt assume rt: "rt \<in> roots_of f" "answer env oper f rt \<noteq> None"
        then obtain h v where "answer env oper f rt = Some (h, v)" by auto
        with l(4) rt(1) answer_not_zero True vote_is_zero_mono(2) show False by fastforce
      qed
      have "resolve_hier_for_open_or_write env kw oper f = (Inl (irods_exception HIERARCHY_ERROR), f')"
        unfolding resolve_hier_for_open_or_write_def using roots(1) ne l(1) True by (simp add: vote_is_zero_def)
      with none show ?thesis by simp
    next
      case b': False
      with l(5) obtain rt where rt: "rt \<in> roots_of f" "answer env oper f rt = Some (max_hier b', max_vote b')" by auto
      have "resolve_hier_for_open_or_write env kw oper f = (Inr (max_hier b'), f'\<lparr>fo_resc_hier := max_hier b'\<rparr>)"
        unfolding resolve_hier_for_open_or_write_def using roots(1) ne l(1,3) req [OF l(2)] answer_not_zero [OF rt(2)] by simp
      with rt l(4) False show ?thesis by (auto intro!: bexI [of _ rt])
    qed
  qed
qed

text \<open>Root resources that all are storage resources.\<close>

definition storage_env :: "(string \<Rightarrow> nat option) \<Rightarrow> access_map \<Rightarrow> (string \<Rightarrow> vote_context) \<Rightarrow> redirect_env" where
  "storage_env cast_space m ctx = \<lparr>re_resolve = (\<lambda>_. SUCCESS), re_has_parent = (\<lambda>_. False),
     re_call = (\<lambda>oper resc. unix_file_resolve_hierarchy cast_space m (ctx resc) oper [] 0),
     re_create_policy = (\<lambda>_ n. Inr n), re_special_collection = None\<rparr>"

theorem resolve_selects_highest_vote_witness:
  "fst (resolve_hier_for_open_or_write (storage_env Map.empty [] (\<lambda>_. sample_context ''h'')) [] OPEN_OPERATION (sample_object GOOD_REPLICA 0)) = Inr ''r''"
proof -
  let ?env = "storage_env Map.empty [] (\<lambda>_. sample_context ''h'')" and ?f = "sample_object GOOD_REPLICA 0"
  have votes: "records_votes_only ?env" by (simp add: records_votes_only_def storage_env_def votes_intro)
  have roots: "roots_of ?f = {''r''}" "hierarchies_parse ?f" "fo_replicas ?f \<noteq> []" "fo_repl_requested ?f \<le> -1"
    by (auto simp: roots_of_def hierarchies_parse_def sample_object_def parse_sample hp_first_resc_def)
  have call: "re_call ?env OPEN_OPERATION ''r'' ?f = (Inr (SUCCESS, [''r''], 1), sample_object GOOD_REPLICA 1)"
    by (simp add: storage_env_def unix_file_resolve_hierarchy_def vote_or_error_def sbind_def calculate_sample
        get_property_def sample_name hp_add_child_def DELIM_def Let_def)
  have "answer ?env OPEN_OPERATION ?f ''r'' = Some (''r'', 1)"
    unfolding answer_def request_vote_for_file_object_def using call
    by (simp add: sbind_def storage_env_def vote_is_zero_def hp_str_def Let_def)
  moreover have "\<forall>rt\<in>roots_of ?f. throws_nothing ?env OPEN_OPERATION ?f rt" using call roots(1) by (simp add: throws_nothing_def)
  moreover note resolve_selects_highest_vote [OF votes roots(2-4), of OPEN_OPERATION "[]"] roots(1)
  ultimately show ?thesis by (cases "resolve_hier_for_open_or_write ?env [] OPEN_OPERATION ?f") simp
qed

end
