(* ===== verification/Resource_Tree.thy ===== *)
theory Resource_Tree
  imports Redirection Kvp_Parser
begin

text \<open>
  The coordinating resource plugins, and trees of them with storage resources as leaves
  (\<^verbatim>\<open>plugins/resources/src\<close>: \<^verbatim>\<open>passthru\<close>, \<^verbatim>\<open>random\<close>, \<^verbatim>\<open>deferred\<close>, \<^verbatim>\<open>load_balanced\<close>;
  \<^verbatim>\<open>plugins/resources/replication\<close>). Each plugin resolves a hierarchy by adding its name and asking its
  children. A child map is hashed: its order of iteration is that of the list of children, whatever it is.
  Random numbers, the table of loads and the clock, \<^verbatim>\<open>boost::split\<close>, the lexical cast and the
  multiplication of a vote with a weight are parameters. The calls go to the operations directly, without
  the policy enforcement points around them.
\<close>

section \<open>Children\<close>

abbreviation (input) REPLICA_NOT_IN_RESC :: int where "REPLICA_NOT_IN_RESC \<equiv> - 1821000"

text \<open>An entry of a child map: its key, the name property of the resource and its operation.\<close>

record child =
  ch_key :: string
  ch_name :: "string property"
  ch_call :: resolve_call

definition child_at :: "child list \<Rightarrow> string \<Rightarrow> child option" where
  "child_at cs k = List.find (\<lambda>c. ch_key c = k) cs"

section \<open>deferred\<close>

text \<open>The votes of all children by value; a later child replaces an earlier one with the same vote.\<close>

fun deferred_votes :: "child list \<Rightarrow> string \<Rightarrow> resc_list \<Rightarrow> (rat, resc_list) std_map \<Rightarrow> (file_object, (rat, resc_list) std_map) stm" where
  "deferred_votes [] oper parser m = sreturn m"
| "deferred_votes (c # cs) oper parser m = sbind (ch_call c oper (hp_copy [] parser) 0)
     (\<lambda>(err, p, v). deferred_votes cs oper parser (if ok err then map_set v p m else m))"

definition deferred_redirect_for_operation :: "child list \<Rightarrow> string \<Rightarrow> resc_list \<Rightarrow> (file_object, resolve_result) stm" where
  "deferred_redirect_for_operation cs oper parser =
     (if cs = [] then sreturn (SUCCESS, parser, 0)
      else sbind (deferred_votes cs oper parser []) (\<lambda>m. sreturn
        (if m \<noteq> [] \<and> fst (last m) > 0 then (SUCCESS, snd (last m), fst (last m)) else (SUCCESS, parser, 0))))"

definition deferred_file_resolve_hierarchy :: "string property \<Rightarrow> child list \<Rightarrow> resolve_call" where
  "deferred_file_resolve_hierarchy name cs oper parser vote = (case name of
      Inl c \<Rightarrow> sreturn (ERROR c, parser, vote)
    | Inr n \<Rightarrow>
        (let parser' = snd (hp_add_child parser n) in
         if OPEN_OPERATION = oper \<or> WRITE_OPERATION = oper \<or> UNLINK_OPERATION = oper \<or> CREATE_OPERATION = oper
         then deferred_redirect_for_operation cs oper parser'
         else sreturn (ERROR INVALID_OPERATION, parser', vote)))"

section \<open>random\<close>

definition get_next_child_in_hier :: "string \<Rightarrow> string \<Rightarrow> child list \<Rightarrow> (error + child) throws" where
  "get_next_child_in_hier name hier cs = tbind (hp_set_string hier) (\<lambda>(err, parse).
     if \<not> ok err then Inr (Inl err)
     else (case hp_next_out parse name of (err, next) \<Rightarrow>
        if \<not> ok err then Inr (Inl err)
        else (case child_at cs next of None \<Rightarrow> Inr (Inl (ERROR CHILD_NOT_FOUND)) | Some c \<Rightarrow> Inr (Inr c))))"

fun get_next_child_for_open_or_write :: "string \<Rightarrow> physical_object list \<Rightarrow> child list \<Rightarrow> (error + child) throws" where
  "get_next_child_for_open_or_write name [] cs = Inr (Inl (ERROR REPLICA_NOT_IN_RESC))"
| "get_next_child_for_open_or_write name (r # rs) cs = tbind (hp_set_string (po_resc_hier r)) (\<lambda>(err, parser).
     if \<not> hp_contains parser name then get_next_child_for_open_or_write name rs cs
     else get_next_child_in_hier name (po_resc_hier r) cs)"

text \<open>Candidates are drawn until one offers to create the object; \<open>rnd\<close> gives the numbers drawn, from the \<open>i\<close>-th on.\<close>

function get_next_valid_child_resource ::
  "(nat \<Rightarrow> nat) \<Rightarrow> nat \<Rightarrow> child list \<Rightarrow> string \<Rightarrow> resc_list \<Rightarrow> rat \<Rightarrow> file_object \<Rightarrow> resolve_result throws \<times> file_object" where
  "get_next_valid_child_resource rnd i candidates oper parser vote f =
     (if candidates = [] then (Inr (ERROR NO_NEXT_RESC_FOUND, parser, vote), f)
      else let rand_index = rnd i mod length candidates in
        case ch_call (candidates ! rand_index) oper (hp_copy [] parser) vote f of
          (Inl e, f') \<Rightarrow> (Inl e, f')
        | (Inr (ret, hierarchy_copy, v), f') \<Rightarrow>
            if ok ret \<and> v \<noteq> 0 then (Inr (SUCCESS, hierarchy_copy, v), f')
            else get_next_valid_child_resource rnd (i + 1)
              (take rand_index candidates @ drop (rand_index + 1) candidates) oper parser v f')"
  by pat_completeness auto
termination
  by (relation "measure (\<lambda>(rnd, i, candidates, _). length candidates)") (auto simp: less_diff_conv2 Suc_le_eq)

definition random_file_resolve_hierarchy :: "string property \<Rightarrow> (nat \<Rightarrow> nat) \<Rightarrow> child list \<Rightarrow> resolve_call" where
  "random_file_resolve_hierarchy name rnd cs oper parser vote = (case name of
      Inl c \<Rightarrow> sreturn (ERROR c, parser, vote)
    | Inr n \<Rightarrow>
        (let parser' = snd (hp_add_child parser n) in
         if OPEN_OPERATION = oper \<or> WRITE_OPERATION = oper \<or> UNLINK_OPERATION = oper
         then sbind (sget (\<lambda>f. get_next_child_for_open_or_write n (fo_replicas f) cs)) (\<lambda>next. case next of
             Inr resc \<Rightarrow> ch_call resc oper parser' vote
           | Inl ret \<Rightarrow> sreturn (if REPLICA_NOT_IN_RESC = code ret then (SUCCESS, parser', 0) else (ret, parser', vote)))
         else if CREATE_OPERATION = oper then get_next_valid_child_resource rnd 0 cs oper parser' vote
         else sreturn (ERROR INVALID_OPERATION, parser', vote)))"

section \<open>load_balanced\<close>

abbreviation (input) MAX_ELAPSE_TIME :: int where "MAX_ELAPSE_TIME \<equiv> 1800"

text \<open>The rows of the table of loads (name, load, time), the least load seen and the child that has it.\<close>

type_synonym load_row = "string \<times> int \<times> int"

fun scan_loads :: "string \<Rightarrow> child \<Rightarrow> int \<Rightarrow> load_row list \<Rightarrow> int \<times> child option \<Rightarrow> int \<times> child option" where
  "scan_loads resc_name resc now [] sel = sel"
| "scan_loads resc_name resc now ((name, load, time) # rows) (min_load, selected) =
     scan_loads resc_name resc now rows
       (if resc_name = name \<and> load \<ge> 0 \<and> min_load > load \<and> now - time < MAX_ELAPSE_TIME
        then (load, Some resc) else (min_load, selected))"

fun select_by_load :: "child list \<Rightarrow> int \<Rightarrow> load_row list \<Rightarrow> int \<times> child option \<Rightarrow> int + child option" where
  "select_by_load [] now rows sel = Inr (snd sel)"
| "select_by_load (c # cs) now rows sel = (case ch_name c of Inl e \<Rightarrow> Inl e
     | Inr resc_name \<Rightarrow> select_by_load cs now rows (scan_loads resc_name c now rows sel))"

definition load_balanced_redirect_for_create_operation ::
  "int + load_row list \<Rightarrow> int \<Rightarrow> child list \<Rightarrow> string \<Rightarrow> resc_list \<Rightarrow> rat \<Rightarrow> (file_object, resolve_result) stm" where
  "load_balanced_redirect_for_create_operation loads now cs oper parser vote = (case loads of
      Inl c \<Rightarrow> sreturn (ERROR c, parser, vote)
    | Inr rows \<Rightarrow> (case select_by_load cs now rows (100, None) of
        Inl c \<Rightarrow> sreturn (ERROR c, parser, vote)
      | Inr None \<Rightarrow> sreturn (ERROR CHILD_NOT_FOUND, parser, vote)
      | Inr (Some resc) \<Rightarrow> sbind (ch_call resc oper (hp_copy [] parser) 0) (\<lambda>(err, p, v). sreturn (SUCCESS, p, v))))"

fun load_balanced_votes :: "child list \<Rightarrow> string \<Rightarrow> resc_list \<Rightarrow> (rat, resc_list) std_map \<Rightarrow> (file_object, (rat, resc_list) std_map) stm" where
  "load_balanced_votes [] oper parser m = sreturn m"
| "load_balanced_votes (c # cs) oper parser m = sbind (ch_call c oper (hp_copy [] parser) 0)
     (\<lambda>(err, p, v). load_balanced_votes cs oper parser (if \<not> ok err then m else map_set v p m))"

definition load_balanced_redirect_for_open_operation :: "child list \<Rightarrow> string \<Rightarrow> resc_list \<Rightarrow> (file_object, resolve_result) stm" where
  "load_balanced_redirect_for_open_operation cs oper parser =
     (if cs = [] then sreturn (SUCCESS, parser, 0)
      else sbind (load_balanced_votes cs oper parser []) (\<lambda>m. sreturn
        (if m = [] then (SUCCESS, parser, 0)
         else let high_vote = fst (last m) in
           if 0 = high_vote then (SUCCESS, parser, 0)
           else if high_vote > 0 then (SUCCESS, snd (last m), high_vote)
           else (ERROR (-1), parser, 0))))"

definition load_balanced_file_resolve_hierarchy ::
  "string property \<Rightarrow> int + load_row list \<Rightarrow> int \<Rightarrow> child list \<Rightarrow> resolve_call" where
  "load_balanced_file_resolve_hierarchy name loads now cs oper parser vote = (case name of
      Inl c \<Rightarrow> sreturn (ERROR c, parser, vote)
    | Inr n \<Rightarrow>
        (let parser' = snd (hp_add_child parser n) in
         if OPEN_OPERATION = oper \<or> WRITE_OPERATION = oper \<or> UNLINK_OPERATION = oper
         then load_balanced_redirect_for_open_operation cs oper parser'
         else if CREATE_OPERATION = oper then load_balanced_redirect_for_create_operation loads now cs oper parser' vote
         else sreturn (ERROR INVALID_OPERATION, parser', vote)))"

section \<open>passthru\<close>

abbreviation (input) READ_WEIGHT_KW :: string where "READ_WEIGHT_KW \<equiv> ''read''"
abbreviation (input) WRITE_WEIGHT_KW :: string where "WRITE_WEIGHT_KW \<equiv> ''write''"

text \<open>What the plugin gets from outside: \<open>boost::split\<close>, the lexical cast to a number and the multiplication of a \<^verbatim>\<open>float\<close> with
  a \<^verbatim>\<open>double\<close>. Numbers are the finite ones.\<close>

record tree_env =
  te_split :: "string \<Rightarrow> string \<Rightarrow> bool \<Rightarrow> string list option"
  te_cast :: "string \<Rightarrow> rat option"
  te_mul :: "rat \<Rightarrow> rat \<Rightarrow> rat"
  te_cast_space :: "string \<Rightarrow> nat option"
  te_access :: access_map

text \<open>The results of the rule before the operation, and the weights of the context string if there are any.\<close>

record weights =
  wt_results :: string
  wt_read :: "rat property option"
  wt_write :: "rat property option"

definition capture_weight :: "tree_env \<Rightarrow> string \<Rightarrow> rat property option \<Rightarrow> string \<Rightarrow> int + rat" where
  "capture_weight env results prop kw =
     (case (if results \<noteq> [] then Option.bind (map_find (snd (parse_kvp_string (te_split env) results [] kvp_association kvp_delimiter)) kw) (te_cast env)
            else None) of
        Some weight \<Rightarrow> Inr weight
      | None \<Rightarrow> (case prop of None \<Rightarrow> Inr 1 | Some p \<Rightarrow> p))"

fun weigh_replicas :: "tree_env \<Rightarrow> string \<Rightarrow> rat \<Rightarrow> physical_object list \<Rightarrow> unit throws \<times> physical_object list" where
  "weigh_replicas env name weight [] = (Inr (), [])"
| "weigh_replicas env name weight (r # rs) = (case hierarchy_parser (po_resc_hier r) of
      Inl e \<Rightarrow> (Inl e, r # rs)
    | Inr l \<Rightarrow> (case weigh_replicas env name weight rs of (x, rs') \<Rightarrow>
        (x, (if \<not> hp_contains l name then r else r\<lparr>po_vote := te_mul env (po_vote r) weight\<rparr>) # rs')))"

definition apply_weight_to_object_votes :: "tree_env \<Rightarrow> string \<Rightarrow> rat \<Rightarrow> (file_object, unit) stm" where
  "apply_weight_to_object_votes env name weight f = (case weigh_replicas env name weight (fo_replicas f) of
      (x, rs) \<Rightarrow> (x, f\<lparr>fo_replicas := rs\<rparr>))"

definition passthru_get_first_child_resc :: "child list \<Rightarrow> error + child" where
  "passthru_get_first_child_resc cs = (if length cs \<noteq> 1 then Inl (ERROR (-1)) else Inr (hd cs))"

definition weighted :: "tree_env \<Rightarrow> string \<Rightarrow> int + rat \<Rightarrow> resolve_result \<Rightarrow> (file_object, resolve_result) stm" where
  "weighted env name captured = (\<lambda>(err, p, v). case captured of
      Inl _ \<Rightarrow> sreturn (err, p, v)
    | Inr weight \<Rightarrow> sbind (apply_weight_to_object_votes env name weight) (\<lambda>_. sreturn (err, p, te_mul env v weight)))"

definition passthru_weigh :: "tree_env \<Rightarrow> string \<Rightarrow> weights \<Rightarrow> string \<Rightarrow> resolve_result \<Rightarrow> (file_object, resolve_result) stm" where
  "passthru_weigh env n w oper r =
     (if OPEN_OPERATION = oper then weighted env n (capture_weight env (wt_results w) (wt_read w) READ_WEIGHT_KW) r
      else if CREATE_OPERATION = oper \<or> WRITE_OPERATION = oper
      then weighted env n (capture_weight env (wt_results w) (wt_write w) WRITE_WEIGHT_KW) r
      else sreturn r)"

definition passthru_file_resolve_hierarchy :: "tree_env \<Rightarrow> string property \<Rightarrow> weights \<Rightarrow> child list \<Rightarrow> resolve_call" where
  "passthru_file_resolve_hierarchy env name w cs oper parser vote = (case name of
      Inl c \<Rightarrow> sreturn (ERROR c, parser, vote)
    | Inr n \<Rightarrow>
        (let parser' = snd (hp_add_child parser n) in
         case passthru_get_first_child_resc cs of
           Inl ret \<Rightarrow> sreturn (ret, parser', vote)
         | Inr resc \<Rightarrow> sbind (ch_call resc oper parser' vote) (passthru_weigh env n w oper)))"

section \<open>replication\<close>

abbreviation (input) READ_RANDOM_POLICY :: string where "READ_RANDOM_POLICY \<equiv> ''random''"

text \<open>\<^verbatim>\<open>redirect_map_t\<close>: a \<^verbatim>\<open>std::multimap\<close> from the highest vote to the lowest.\<close>

type_synonym redirect_map = "(rat \<times> resc_list) list"

fun redirect_insert :: "rat \<Rightarrow> resc_list \<Rightarrow> redirect_map \<Rightarrow> redirect_map" where
  "redirect_insert v p [] = [(v, p)]"
| "redirect_insert v p ((w, q) # m) = (if v > w then (v, p) # (w, q) # m else (w, q) # redirect_insert v p m)"

definition add_self_to_hierarchy :: "string property \<Rightarrow> resc_list \<Rightarrow> error \<times> resc_list" where
  "add_self_to_hierarchy name parser = (case name of Inl c \<Rightarrow> (ERROR c, parser) | Inr n \<Rightarrow> hp_add_child parser n)"

text \<open>The vote of a child that reports \<^verbatim>\<open>CHILD_NOT_FOUND\<close> is taken from the variable \<^verbatim>\<open>out_vote\<close>, which keeps its value from
  one child to the next.\<close>

fun resolve_children_loop :: "child list \<Rightarrow> string \<Rightarrow> resc_list \<Rightarrow> rat \<Rightarrow> redirect_map \<Rightarrow> error \<Rightarrow> (file_object, redirect_map \<times> error) stm" where
  "resolve_children_loop [] oper parser out_vote m last_err = sreturn (m, last_err)"
| "resolve_children_loop (c # cs) oper parser out_vote m last_err = sbind (ch_call c oper (hp_copy [] parser) out_vote)
     (\<lambda>(ret, p, v). if \<not> ok ret \<and> CHILD_NOT_FOUND \<noteq> code ret
        then resolve_children_loop cs oper parser v m ret
        else resolve_children_loop cs oper parser v (redirect_insert v p m) last_err)"

definition resolve_children :: "child list \<Rightarrow> string \<Rightarrow> resc_list \<Rightarrow> (file_object, redirect_map \<times> error) stm" where
  "resolve_children cs oper parser =
     (if cs = [] then sreturn ([], ERROR CHILD_NOT_FOUND) else resolve_children_loop cs oper parser 0 [] SUCCESS)"

definition process_redirect_map_for_random_open :: "nat \<Rightarrow> redirect_map \<Rightarrow> (rat \<times> resc_list) throws" where
  "process_redirect_map_for_random_open rnd m = (let items = filter (\<lambda>e. fst e > 0) m in
     if length items = 0 then Inl division_by_zero else Inr (items ! (rnd mod length items)))"

definition select_child :: "string property \<Rightarrow> nat \<Rightarrow> string \<Rightarrow> redirect_map \<Rightarrow> resc_list \<Rightarrow> resolve_result throws" where
  "select_child read rnd oper m parser =
     (if m = [] then Inr (SUCCESS, parser, 0)
      else if OPEN_OPERATION = oper \<and> read = Inr READ_RANDOM_POLICY
      then tbind (process_redirect_map_for_random_open rnd m) (\<lambda>(v, p). Inr (SUCCESS, p, v))
      else Inr (SUCCESS, snd (hd m), fst (hd m)))"

definition repl_file_resolve_hierarchy :: "string property \<Rightarrow> string property \<Rightarrow> nat \<Rightarrow> child list \<Rightarrow> resolve_call" where
  "repl_file_resolve_hierarchy name read rnd cs oper parser vote =
     sbind (sget (\<lambda>f. Inr (fo_hier_str f))) (\<lambda>hier_str. case hier_str of
        Some hier \<Rightarrow> sget (\<lambda>_. tbind (hp_set_string hier) (\<lambda>(err, selected). Inr (SUCCESS, selected, 1)))
      | None \<Rightarrow> (case add_self_to_hierarchy name parser of (ret, parser') \<Rightarrow>
          if \<not> ok ret then sreturn (ret, parser', vote)
          else sbind (resolve_children cs oper parser') (\<lambda>(redirect_map, last_err).
            if redirect_map = [] then sreturn (last_err, parser', vote)
            else sget (\<lambda>_. select_child read rnd oper redirect_map parser'))))"

section \<open>Trees\<close>

datatype storage_kind = Unixfilesystem | Mockarchive

datatype coordinator =
    Passthru "string property" weights
  | Random "string property" "nat \<Rightarrow> nat"
  | Deferred "string property"
  | Load_Balanced "string property" "int + load_row list" int
  | Replication "string property" "string property" nat

datatype resc_tree = Storage storage_kind vote_context | Coordinating coordinator "(string \<times> resc_tree) list"

fun coordinator_name :: "coordinator \<Rightarrow> string property" where
  "coordinator_name (Passthru n w) = n"
| "coordinator_name (Random n rnd) = n"
| "coordinator_name (Deferred n) = n"
| "coordinator_name (Load_Balanced n loads now) = n"
| "coordinator_name (Replication n read rnd) = n"

fun resc_name :: "resc_tree \<Rightarrow> string property" where
  "resc_name (Storage k ctx) = vc_name ctx"
| "resc_name (Coordinating c cs) = coordinator_name c"

text \<open>The operation \<^verbatim>\<open>RESOURCE_OP_RESOLVE_RESC_HIER\<close> of a plugin.\<close>

fun storage_resolve :: "tree_env \<Rightarrow> storage_kind \<Rightarrow> vote_context \<Rightarrow> resolve_call" where
  "storage_resolve env Unixfilesystem ctx = unix_file_resolve_hierarchy (te_cast_space env) (te_access env) ctx"
| "storage_resolve env Mockarchive ctx = mock_archive_file_resolve_hierarchy (te_cast_space env) (te_access env) ctx"

fun coordinator_resolve :: "tree_env \<Rightarrow> coordinator \<Rightarrow> child list \<Rightarrow> resolve_call" where
  "coordinator_resolve env (Passthru n w) cs = passthru_file_resolve_hierarchy env n w cs"
| "coordinator_resolve env (Random n rnd) cs = random_file_resolve_hierarchy n rnd cs"
| "coordinator_resolve env (Deferred n) cs = deferred_file_resolve_hierarchy n cs"
| "coordinator_resolve env (Load_Balanced n loads now) cs = load_balanced_file_resolve_hierarchy n loads now cs"
| "coordinator_resolve env (Replication n read rnd) cs = repl_file_resolve_hierarchy n read rnd cs"

lemma size_child: "x \<in> set cs \<Longrightarrow> size (snd x) < Suc (size_list (size_prod (\<lambda>_. 0) size) cs)"
proof (induction cs)
  case (Cons y cs)
  then show ?case by (cases "x = y") (auto simp: size_prod_simp)
qed simp

function resolve_tree :: "tree_env \<Rightarrow> resc_tree \<Rightarrow> resolve_call" where
  "resolve_tree env (Storage k ctx) = storage_resolve env k ctx"
| "resolve_tree env (Coordinating c cs) = coordinator_resolve env c
     (map (\<lambda>x. \<lparr>ch_key = fst x, ch_name = resc_name (snd x), ch_call = resolve_tree env (snd x)\<rparr>) cs)"
  by pat_completeness auto
termination
  by (relation "measure (size \<circ> snd)") (auto intro: size_child)

text \<open>The paths from the root to the storage resources.\<close>

function leaves :: "resc_tree \<Rightarrow> (resc_list \<times> vote_context) list" where
  "leaves (Storage k ctx) = (case vc_name ctx of Inl _ \<Rightarrow> [] | Inr n \<Rightarrow> [([n], ctx)])"
| "leaves (Coordinating c cs) = (case coordinator_name c of Inl _ \<Rightarrow> []
     | Inr n \<Rightarrow> map (\<lambda>(p, ctx). (n # p, ctx)) (concat (map (\<lambda>x. leaves (snd x)) cs)))"
  by pat_completeness auto
termination
  by (relation "measure size") (auto intro: size_child)

section \<open>Resolution changes votes only\<close>

definition neutral :: "resolve_call \<Rightarrow> bool" where
  "neutral call = (\<forall>oper p v. votes_only (call oper p v))"

lemma neutral_call [votes_intro]: "neutral (ch_call c) \<Longrightarrow> votes_only (ch_call c oper p v)"
  by (simp add: neutral_def)

lemma votes_only_pair [votes_intro]: "(\<And>a b c. x = (a, b, c) \<Longrightarrow> votes_only (g a b c)) \<Longrightarrow> votes_only (case x of (a, b, c) \<Rightarrow> g a b c)"
  by (cases x) simp

lemma votes_only_if [votes_intro]: "votes_only g \<Longrightarrow> votes_only h \<Longrightarrow> votes_only (if b then g else h)"
  by simp

lemma votes_only_child_votes [votes_intro]:
  "\<forall>c\<in>set cs. neutral (ch_call c) \<Longrightarrow> votes_only (deferred_votes cs oper parser m)"
  by (induction cs arbitrary: m) (auto intro!: votes_intro)

lemma load_balanced_votes_eq: "load_balanced_votes cs oper parser m = deferred_votes cs oper parser m"
  by (induction cs arbitrary: m) (auto simp: fun_eq_iff sbind_def split: prod.split sum.split)

lemma votes_only_children_loop [votes_intro]:
  "\<forall>c\<in>set cs. neutral (ch_call c) \<Longrightarrow> votes_only (resolve_children_loop cs oper parser v m e)"
  by (induction cs arbitrary: v m e) (auto intro!: votes_intro)

declare get_next_valid_child_resource.simps [simp del]

text \<open>The loop over the candidates, with one round as a sequence of operations.\<close>

lemma next_valid_child_step:
  "get_next_valid_child_resource rnd i cs oper parser vote =
     (if cs = [] then sreturn (ERROR NO_NEXT_RESC_FOUND, parser, vote)
      else let k = rnd i mod length cs in sbind (ch_call (cs ! k) oper (hp_copy [] parser) vote)
        (\<lambda>(ret, p, v). if ok ret \<and> v \<noteq> 0 then sreturn (SUCCESS, p, v)
           else get_next_valid_child_resource rnd (i + 1) (take k cs @ drop (k + 1) cs) oper parser v))"
proof (rule ext)
  fix f
  let ?k = "rnd i mod length cs"
  obtain x f' where c: "ch_call (cs ! ?k) oper (hp_copy [] parser) vote f = (x, f')" by (rule prod.exhaust)
  show "get_next_valid_child_resource rnd i cs oper parser vote f =
     (if cs = [] then sreturn (ERROR NO_NEXT_RESC_FOUND, parser, vote)
      else let k = rnd i mod length cs in sbind (ch_call (cs ! k) oper (hp_copy [] parser) vote)
        (\<lambda>(ret, p, v). if ok ret \<and> v \<noteq> 0 then sreturn (SUCCESS, p, v)
           else get_next_valid_child_resource rnd (i + 1) (take k cs @ drop (k + 1) cs) oper parser v)) f"
    by (subst get_next_valid_child_resource.simps) (cases x; simp add: Let_def sbind_def c split: prod.split)
qed

lemma candidates_left:
  assumes "cs \<noteq> []" "k = n mod length cs"
  shows "cs ! k \<in> set cs" "length (take k cs @ drop (k + 1) cs) < length cs" "set (take k cs @ drop (k + 1) cs) \<subseteq> set cs"
proof -
  have "k < length cs" using assms by simp
  then show "cs ! k \<in> set cs" "length (take k cs @ drop (k + 1) cs) < length cs" by simp_all
  show "set (take k cs @ drop (k + 1) cs) \<subseteq> set cs" using set_take_subset [of k cs] set_drop_subset [of "k + 1" cs] by auto
qed

lemma votes_only_next_valid [votes_intro]:
  "\<forall>c\<in>set cs. neutral (ch_call c) \<Longrightarrow> votes_only (get_next_valid_child_resource rnd i cs oper parser vote)"
proof (induction "length cs" arbitrary: cs i vote rule: less_induct)
  case less
  show ?case
  proof (cases "cs = []")
    case False
    note left = candidates_left [OF False refl, of "rnd i"]
    from left(1) less.prems have "neutral (ch_call (cs ! (rnd i mod length cs)))" by blast
    moreover have "votes_only (get_next_valid_child_resource rnd (i + 1)
        (take (rnd i mod length cs) cs @ drop (rnd i mod length cs + 1) cs) oper parser v)" for v
      using left(2,3) less.prems by (intro less.hyps) auto
    ultimately show ?thesis
      by (subst next_valid_child_step) (simp only: False if_False Let_def, intro votes_intro)
  qed (subst next_valid_child_step, simp add: votes_intro)
qed

text \<open>Where the replicas are does not depend on their votes.\<close>

lemma next_child_votes:
  "get_next_child_for_open_or_write n (map (\<lambda>r. r\<lparr>po_vote := 0\<rparr>) rs) cs = get_next_child_for_open_or_write n rs cs"
  by (induction rs) (simp_all cong: if_cong)

lemma weigh_replicas_votes:
  "map (\<lambda>r. r\<lparr>po_vote := 0\<rparr>) (snd (weigh_replicas env n w rs)) = map (\<lambda>r. r\<lparr>po_vote := 0\<rparr>) rs"
  "fst (weigh_replicas env n w (map (\<lambda>r. r\<lparr>po_vote := 0\<rparr>) rs)) = fst (weigh_replicas env n w rs)"
  by (induction rs) (auto split: sum.split prod.split)

lemma votes_only_apply_weight [votes_intro]: "votes_only (apply_weight_to_object_votes env n w)"
proof (rule votes_onlyI)
  fix f
  have eq: "apply_weight_to_object_votes env n w f = (fst (weigh_replicas env n w (fo_replicas f)), f\<lparr>fo_replicas := snd (weigh_replicas env n w (fo_replicas f))\<rparr>)" for f
    by (simp add: apply_weight_to_object_votes_def split: prod.split)
  show "object_view (snd (apply_weight_to_object_votes env n w f)) = object_view f"
    by (simp add: eq object_view_def weigh_replicas_votes)
  show "fo_resc_hier (snd (apply_weight_to_object_votes env n w f)) = fo_resc_hier f" by (simp add: eq)
  show "fst (apply_weight_to_object_votes env n w (object_view f)) = fst (apply_weight_to_object_votes env n w f)"
    by (simp add: eq weigh_replicas_votes)
qed

lemma votes_only_weighted [votes_intro]: "votes_only (weighted env n x r)"
  unfolding weighted_def by (cases x) (auto intro!: votes_intro split: prod.split)

lemma votes_only_passthru_weigh [votes_intro]: "votes_only (passthru_weigh env n w oper r)"
  unfolding passthru_weigh_def by (intro votes_intro)

lemma child_in_set:
  "child_at cs k = Some c \<Longrightarrow> c \<in> set cs"
  "get_next_child_in_hier n h cs = Inr (Inr c) \<Longrightarrow> c \<in> set cs"
  "get_next_child_for_open_or_write n rs cs = Inr (Inr c) \<Longrightarrow> c \<in> set cs"
proof -
  show a: "c \<in> set cs" if "child_at cs k = Some c" for k using that by (auto simp: child_at_def find_Some_iff)
  show b: "c \<in> set cs" if "get_next_child_in_hier n h cs = Inr (Inr c)" for h
    using that by (auto simp: get_next_child_in_hier_def tbind_eq_Inr split: if_splits prod.splits option.splits intro: a)
  show "get_next_child_for_open_or_write n rs cs = Inr (Inr c) \<Longrightarrow> c \<in> set cs"
    by (induction rs) (auto simp: tbind_eq_Inr split: if_splits prod.splits intro: b)
qed

lemma next_child_error:
  "get_next_child_in_hier n h cs = Inr (Inl e) \<Longrightarrow> \<not> ok e"
  "get_next_child_for_open_or_write n rs cs = Inr (Inl e) \<Longrightarrow> \<not> ok e"
proof -
  show a: "\<not> ok e" if "get_next_child_in_hier n h cs = Inr (Inl e)" for h
    using that by (auto simp: get_next_child_in_hier_def tbind_eq_Inr split: if_splits prod.splits option.splits)
  show "get_next_child_for_open_or_write n rs cs = Inr (Inl e) \<Longrightarrow> \<not> ok e"
    by (induction rs) (auto simp: tbind_eq_Inr split: if_splits prod.splits dest: a)
qed

lemma scan_loads_child: "snd (scan_loads n c now rows sel) = snd sel \<or> snd (scan_loads n c now rows sel) = Some c"
  by (induction n c now rows sel rule: scan_loads.induct) (auto split: if_splits)

lemma select_by_load_child: "select_by_load cs now rows sel = Inr (Some c) \<Longrightarrow> c \<in> set cs \<or> snd sel = Some c"
proof (induction cs arbitrary: sel)
  case (Cons d cs)
  then obtain n where n: "ch_name d = Inr n" by (auto split: sum.splits)
  with Cons scan_loads_child [of n d now rows sel] show ?case by fastforce
qed simp

text \<open>A plugin whose children change votes only changes votes only.\<close>

lemma votes_only_sbind_sget:
  assumes "\<And>f. g (object_view f) = g f" "\<And>f x. g f = Inr x \<Longrightarrow> votes_only (h x)"
  shows "votes_only (sbind (sget g) h)"
  unfolding votes_only_def
proof (intro allI conjI impI)
  fix f
  have eq: "sbind (sget g) h f = (case g f of Inl e \<Rightarrow> (Inl e, f) | Inr x \<Rightarrow> h x f)" for f by (simp add: sbind_def)
  show "object_view (snd (sbind (sget g) h f)) = object_view f" "fo_resc_hier (snd (sbind (sget g) h f)) = fo_resc_hier f"
    by (cases "g f"; simp add: eq votes_onlyD(1,2) [OF assms(2) [of f]])+
  fix f' assume f': "object_view f' = object_view f"
  then have "g f' = g f" using assms(1) [of f] assms(1) [of f'] by simp
  then show "fst (sbind (sget g) h f') = fst (sbind (sget g) h f)"
    by (cases "g f") (simp_all add: eq votes_onlyD(3) [OF assms(2) [of f] f'])
qed

lemma votes_only_random:
  assumes "\<forall>c\<in>set cs. neutral (ch_call c)"
  shows "votes_only (random_file_resolve_hierarchy n rnd cs oper p v)"
proof (cases n)
  case (Inr name)
  have "votes_only (sbind (sget (\<lambda>f. get_next_child_for_open_or_write name (fo_replicas f) cs)) (\<lambda>next. case next of
      Inr resc \<Rightarrow> ch_call resc oper q v | Inl ret \<Rightarrow> sreturn (h ret)))" for q h
    using assms by (intro votes_only_sbind_sget) (auto simp: next_child_votes split: sum.split intro!: votes_intro dest: child_in_set(3))
  then show ?thesis using assms Inr by (auto simp: random_file_resolve_hierarchy_def Let_def intro!: votes_intro)
qed (simp add: random_file_resolve_hierarchy_def votes_intro)

lemma votes_only_load_balanced:
  assumes "\<forall>c\<in>set cs. neutral (ch_call c)"
  shows "votes_only (load_balanced_file_resolve_hierarchy n loads now cs oper p v)"
proof -
  have "neutral (ch_call c)" if "select_by_load cs now rows (100, None) = Inr (Some c)" for rows c
    using select_by_load_child [OF that] assms by simp
  note sel = this
  have create: "votes_only (load_balanced_redirect_for_create_operation loads now cs oper q v)" for q
  proof (cases loads)
    case (Inr rows)
    show ?thesis
    proof (cases "select_by_load cs now rows (100, None)")
      case r: (Inr c)
      show ?thesis unfolding load_balanced_redirect_for_create_operation_def Inr r sum.case
        using sel [of rows] r by (cases c) (auto intro!: votes_intro)
    qed (simp add: load_balanced_redirect_for_create_operation_def Inr votes_intro)
  qed (simp add: load_balanced_redirect_for_create_operation_def votes_intro)
  have "votes_only (load_balanced_redirect_for_open_operation cs oper q)" for q
    using assms unfolding load_balanced_redirect_for_open_operation_def load_balanced_votes_eq by (intro votes_intro)
  with create show ?thesis
    unfolding load_balanced_file_resolve_hierarchy_def Let_def by (cases n) (auto intro!: votes_intro)
qed

lemma votes_only_replication:
  assumes "\<forall>c\<in>set cs. neutral (ch_call c)"
  shows "votes_only (repl_file_resolve_hierarchy n rd rnd cs oper p v)"
  using assms unfolding repl_file_resolve_hierarchy_def resolve_children_def
  by (auto intro!: votes_intro split: option.split prod.split)

lemma neutral_coordinator:
  assumes "\<forall>c\<in>set cs. neutral (ch_call c)"
  shows "neutral (coordinator_resolve env co cs)"
proof -
  have "votes_only (passthru_file_resolve_hierarchy env n w cs oper p v)" for n w oper p v
    using assms unfolding passthru_file_resolve_hierarchy_def passthru_get_first_child_resc_def Let_def
    by (cases cs) (auto intro!: votes_intro split: sum.split)
  moreover have "votes_only (deferred_file_resolve_hierarchy n cs oper p v)" for n oper p v
    using assms unfolding deferred_file_resolve_hierarchy_def deferred_redirect_for_operation_def Let_def
    by (auto intro!: votes_intro split: sum.split)
  ultimately show ?thesis
    unfolding neutral_def using votes_only_random [OF assms] votes_only_load_balanced [OF assms] votes_only_replication [OF assms]
    by (cases co) auto
qed

lemma neutral_tree: "neutral (resolve_tree env t)"
proof (induction env t rule: resolve_tree.induct)
  case (1 env k ctx)
  then show ?case by (cases k) (auto simp: neutral_def intro: votes_intro)
next
  case (2 env c cs)
  then show ?case by (simp only: resolve_tree.simps) (rule neutral_coordinator, auto)
qed

end
