(* ===== verification/Resource_Resolution.thy ===== *)
theory Resource_Resolution
  imports Resource_Tree
begin

text \<open>
  What the resolution of a hierarchy in a tree of resources finds. Each plugin is shown to keep a contract,
  given that its children keep it: a success with a vote other than 0 comes with a path of the tree to a
  storage resource that itself offers to serve the operation; or, below a replication resource, with the
  hierarchy the client has named. With the selection among the root resources
  this gives that an operation on an existing object is sent to a storage resource that is up and holds a
  replica the client may access, unless the client has named the hierarchy itself.
\<close>

section \<open>Resolution leads to a storage resource that offers\<close>

definition offers :: "tree_env \<Rightarrow> string \<Rightarrow> file_object \<Rightarrow> vote_context \<Rightarrow> bool" where
  "offers env oper f ctx = (case fst (calculate (te_cast_space env) (te_access env) oper ctx f) of Inl _ \<Rightarrow> False | Inr v \<Rightarrow> v \<noteq> 0)"

text \<open>The hierarchy the client names with \<^verbatim>\<open>RESC_HIER_STR_KW\<close>, as a replication resource reads it.\<close>

definition client_hierarchy :: "file_object \<Rightarrow> resc_list \<Rightarrow> bool" where
  "client_hierarchy f l = (case fo_hier_str f of None \<Rightarrow> False
     | Some hier \<Rightarrow> (case hp_set_string hier of Inl _ \<Rightarrow> False | Inr (err, l') \<Rightarrow> l = l'))"

text \<open>A hierarchy that continues \<open>p\<close> along a path of \<open>L\<close> to a resource that offers, or, where \<open>cl\<close> allows it,
  the client's.\<close>

definition continues :: "tree_env \<Rightarrow> string \<Rightarrow> file_object \<Rightarrow> bool \<Rightarrow> (resc_list \<times> vote_context) set \<Rightarrow> resc_list \<Rightarrow> resc_list \<Rightarrow> bool" where
  "continues env oper f cl L p p' = ((\<exists>path ctx. (path, ctx) \<in> L \<and> p' = p @ path \<and> offers env oper f ctx) \<or> cl \<and> client_hierarchy f p')"

text \<open>The contract of a resource: a success with a vote other than 0 comes with such a hierarchy, and a failure
  does not turn a vote of 0 into another one.\<close>

definition leads_to :: "tree_env \<Rightarrow> string \<Rightarrow> file_object \<Rightarrow> bool \<Rightarrow> (resc_list \<times> vote_context) set \<Rightarrow> resolve_call \<Rightarrow> bool" where
  "leads_to env oper f0 cl L call = (\<forall>p v f err p' v'. object_view f = object_view f0 \<longrightarrow> DELIM \<notin> set p \<longrightarrow>
     fst (call oper p v f) = Inr (err, p', v') \<longrightarrow>
     (if ok err then v' \<noteq> 0 \<longrightarrow> continues env oper f0 cl L p p' else v = 0 \<longrightarrow> v' = 0))"

definition reliable :: "tree_env \<Rightarrow> string \<Rightarrow> file_object \<Rightarrow> bool \<Rightarrow> (resc_list \<times> vote_context) set \<Rightarrow> child list \<Rightarrow> bool" where
  "reliable env oper f0 cl L cs = (\<forall>c\<in>set cs. neutral (ch_call c) \<and> leads_to env oper f0 cl L (ch_call c))"

lemma leads_toI:
  assumes "\<And>p v f err p' v'. object_view f = object_view f0 \<Longrightarrow> DELIM \<notin> set p \<Longrightarrow> fst (call oper p v f) = Inr (err, p', v') \<Longrightarrow>
     (if ok err then v' \<noteq> 0 \<longrightarrow> continues env oper f0 cl L p p' else v = 0 \<longrightarrow> v' = 0)"
  shows "leads_to env oper f0 cl L call"
  using assms unfolding leads_to_def by blast

lemma leads_toD:
  assumes "leads_to env oper f0 cl L call" "object_view f = object_view f0" "DELIM \<notin> set p" "call oper p v f = (Inr (err, p', v'), f')"
  shows "ok err \<Longrightarrow> v' \<noteq> 0 \<Longrightarrow> continues env oper f0 cl L p p'" "\<not> ok err \<Longrightarrow> v = 0 \<Longrightarrow> v' = 0"
  using assms unfolding leads_to_def by (metis fst_conv)+

lemma leads_to_mono:
  assumes "leads_to env oper f0 cl L call" "L \<subseteq> L'" "cl \<Longrightarrow> cl'"
  shows "leads_to env oper f0 cl' L' call"
proof -
  have "continues env oper f0 cl' L' p p'" if "continues env oper f0 cl L p p'" for p p'
    using that assms(2,3) unfolding continues_def by blast
  with assms(1) show ?thesis unfolding leads_to_def by meson
qed

lemma sbind_InrE:
  assumes "fst (sbind m g f) = Inr r"
  obtains x f1 where "m f = (Inr x, f1)" "fst (g x f1) = Inr r"
  using assms by (cases "m f") (auto simp: sbind_def split: sum.splits)

text \<open>Calling a reliable child leaves the object as it is, up to votes, and gives an answer of that kind.\<close>

lemma reliable_call:
  assumes "reliable env oper f0 cl L cs" "c \<in> set cs" "object_view f = object_view f0" "DELIM \<notin> set p"
    "ch_call c oper (hp_copy [] p) v f = (Inr (err, p', v'), f')"
  shows "object_view f' = object_view f0" "ok err \<Longrightarrow> v' \<noteq> 0 \<Longrightarrow> continues env oper f0 cl L p p'" "\<not> ok err \<Longrightarrow> v = 0 \<Longrightarrow> v' = 0"
proof -
  from assms(1,2) have c: "neutral (ch_call c)" "leads_to env oper f0 cl L (ch_call c)" by (simp_all add: reliable_def)
  have p: "hp_copy [] p = p" using hp_copy_all [OF assms(4), of "[]"] by simp
  from votes_onlyD(1) [OF neutral_call [OF c(1)], of oper p v f] assms(3,5) p show "object_view f' = object_view f0" by simp
  from leads_toD [OF c(2) assms(3,4)] assms(5) p
  show "ok err \<Longrightarrow> v' \<noteq> 0 \<Longrightarrow> continues env oper f0 cl L p p'" "\<not> ok err \<Longrightarrow> v = 0 \<Longrightarrow> v' = 0" by simp_all
qed

lemma set_map_set: "set (map_set k v m) \<subseteq> insert (k, v) (set m)"
  by (induction k v m rule: map_set.induct) auto

definition all_good :: "tree_env \<Rightarrow> string \<Rightarrow> file_object \<Rightarrow> bool \<Rightarrow> (resc_list \<times> vote_context) set \<Rightarrow> resc_list \<Rightarrow> (rat \<times> resc_list) list \<Rightarrow> bool" where
  "all_good env oper f0 cl L p m = (\<forall>e\<in>set m. fst e \<noteq> 0 \<longrightarrow> continues env oper f0 cl L p (snd e))"

lemma deferred_votes_good:
  assumes "reliable env oper f0 cl L cs" "object_view f = object_view f0" "DELIM \<notin> set p" "all_good env oper f0 cl L p m"
    "fst (deferred_votes cs oper p m f) = Inr m'"
  shows "all_good env oper f0 cl L p m'"
  using assms
proof (induction cs arbitrary: m f)
  case (Cons c cs)
  from Cons.prems(5) obtain err q v f1 where c: "ch_call c oper (hp_copy [] p) 0 f = (Inr (err, q, v), f1)"
    and rest: "fst (deferred_votes cs oper p (if ok err then map_set v q m else m) f1) = Inr m'"
    by (auto elim!: sbind_InrE)
  note call = reliable_call [OF Cons.prems(1) _ Cons.prems(2,3) c, simplified]
  have "all_good env oper f0 cl L p (if ok err then map_set v q m else m)"
    using call(2) Cons.prems(4) set_map_set [of v q m] by (auto simp: all_good_def)
  from Cons.IH [OF _ call(1) Cons.prems(3) this rest] Cons.prems(1) show ?case by (simp add: reliable_def)
qed simp

lemma redirect_insert_set: "set (redirect_insert v p m) = insert (v, p) (set m)"
  by (induction m) (auto split: if_splits)

lemma redirect_insert_ne: "redirect_insert v p m \<noteq> []"
  by (cases m) (auto split: if_splits)

text \<open>A resource never reports \<^verbatim>\<open>CHILD_NOT_FOUND\<close>.\<close>

definition definite :: "string \<Rightarrow> file_object \<Rightarrow> resolve_call \<Rightarrow> bool" where
  "definite oper f0 call = (\<forall>p v f err p' v'. object_view f = object_view f0 \<longrightarrow> fst (call oper p v f) = Inr (err, p', v') \<longrightarrow>
     \<not> ok err \<longrightarrow> code err \<noteq> CHILD_NOT_FOUND)"

lemma definiteD:
  "definite oper f0 call \<Longrightarrow> object_view f = object_view f0 \<Longrightarrow> call oper p v f = (Inr (err, p', v'), f') \<Longrightarrow> \<not> ok err \<Longrightarrow> code err \<noteq> CHILD_NOT_FOUND"
  unfolding definite_def by (metis fst_conv)

lemma children_loop_err:
  assumes "fst (resolve_children_loop cs oper p v m e f) = Inr (m', e')" "m' = []"
  shows "m = [] \<and> (if cs = [] then e' = e else \<not> ok e' \<and> code e' \<noteq> CHILD_NOT_FOUND)"
  using assms
proof (induction cs arbitrary: v m e f)
  case (Cons c cs)
  from Cons.prems(1) obtain err q w f1 where
    rest: "fst ((if \<not> ok err \<and> CHILD_NOT_FOUND \<noteq> code err then resolve_children_loop cs oper p w m err
      else resolve_children_loop cs oper p w (redirect_insert w q m) e) f1) = Inr (m', e')"
    by (auto elim!: sbind_InrE)
  show ?case
  proof (cases "\<not> ok err \<and> CHILD_NOT_FOUND \<noteq> code err")
    case True
    with rest have "fst (resolve_children_loop cs oper p w m err f1) = Inr (m', e')" by simp
    from Cons.IH [OF this Cons.prems(2)] True show ?thesis by (simp split: if_splits)
  next
    case False
    with rest have "fst (resolve_children_loop cs oper p w (redirect_insert w q m) e f1) = Inr (m', e')" by (simp only: if_False)
    from Cons.IH [OF this Cons.prems(2)] show ?thesis by (simp add: redirect_insert_ne)
  qed
qed simp

lemma children_loop_good:
  assumes "reliable env oper f0 cl L cs" "\<forall>c\<in>set cs. definite oper f0 (ch_call c)" "object_view f = object_view f0" "DELIM \<notin> set p"
    "all_good env oper f0 cl L p m" "fst (resolve_children_loop cs oper p v m e f) = Inr (m', e')"
  shows "all_good env oper f0 cl L p m'"
  using assms
proof (induction cs arbitrary: v m e f)
  case (Cons c cs)
  from Cons.prems(6) obtain err q w f1 where c: "ch_call c oper (hp_copy [] p) v f = (Inr (err, q, w), f1)"
    and rest: "fst ((if \<not> ok err \<and> CHILD_NOT_FOUND \<noteq> code err then resolve_children_loop cs oper p w m err
      else resolve_children_loop cs oper p w (redirect_insert w q m) e) f1) = Inr (m', e')"
    by (auto elim!: sbind_InrE)
  note call = reliable_call [OF Cons.prems(1) _ Cons.prems(3,4) c, simplified]
  have rel: "reliable env oper f0 cl L cs" "\<forall>c\<in>set cs. definite oper f0 (ch_call c)" using Cons.prems(1,2) by (simp_all add: reliable_def)
  note IH = Cons.IH [OF rel call(1) Cons.prems(4)]
  have def: "\<not> ok err \<Longrightarrow> CHILD_NOT_FOUND \<noteq> code err"
    using definiteD [of oper f0 "ch_call c", OF _ Cons.prems(3) c] Cons.prems(2) by auto
  show ?case
  proof (cases "ok err")
    case True
    have "all_good env oper f0 cl L p (redirect_insert w q m)"
      using call(2) [OF True] Cons.prems(5) by (auto simp: all_good_def redirect_insert_set)
    from IH [OF this] rest True show ?thesis by simp
  next
    case False
    from IH [OF Cons.prems(5)] rest def [OF False] False show ?thesis by simp
  qed
qed simp

section \<open>The plugins keep the contract\<close>

text \<open>A plugin that adds its name and continues with its children's hierarchies.\<close>

lemma continues_node:
  "continues env oper f cl L (p @ [n]) p' \<Longrightarrow> continues env oper f cl ((\<lambda>(q, ctx). (n # q, ctx)) ` L) p p'"
  unfolding continues_def by force

lemma add_child_name: "n \<noteq> DELIM \<Longrightarrow> hp_add_child p n = (SUCCESS, p @ [n])"
  by (simp add: hp_add_child_def)

lemma leads_node:
  assumes "n \<noteq> DELIM"
    "\<And>p v f err p' v'. object_view f = object_view f0 \<Longrightarrow> DELIM \<notin> set (p @ [n]) \<Longrightarrow> fst (call oper p v f) = Inr (err, p', v') \<Longrightarrow>
       (if ok err then v' \<noteq> 0 \<longrightarrow> continues env oper f0 cl L (p @ [n]) p' else v = 0 \<longrightarrow> v' = 0)"
  shows "leads_to env oper f0 cl ((\<lambda>(q, ctx). (n # q, ctx)) ` L) call"
proof (rule leads_toI)
  fix p v f err p' v'
  assume f: "object_view f = object_view f0" "DELIM \<notin> set p" and r: "fst (call oper p v f) = Inr (err, p', v')"
  have "DELIM \<notin> set (p @ [n])" using f(2) assms(1) by simp
  from assms(2) [OF f(1) this r]
  show "if ok err then v' \<noteq> 0 \<longrightarrow> continues env oper f0 cl ((\<lambda>(q, ctx). (n # q, ctx)) ` L) p p' else v = 0 \<longrightarrow> v' = 0"
    using continues_node by (auto split: if_splits)
qed

lemma deferred_redirect_good:
  assumes "reliable env oper f0 cl L cs" "object_view f = object_view f0" "DELIM \<notin> set q"
    "fst (deferred_redirect_for_operation cs oper q f) = Inr (err, p', v')"
  shows "ok err" "v' \<noteq> 0 \<Longrightarrow> continues env oper f0 cl L q p'"
proof -
  have "ok err \<and> (v' \<noteq> 0 \<longrightarrow> continues env oper f0 cl L q p')"
  proof (cases "cs = []")
    case True with assms(4) show ?thesis by (auto simp: deferred_redirect_for_operation_def)
  next
    case False
    with assms(4) obtain m where m: "fst (deferred_votes cs oper q [] f) = Inr m"
      "(err, p', v') = (if m \<noteq> [] \<and> fst (last m) > 0 then (SUCCESS, snd (last m), fst (last m)) else (SUCCESS, q, 0))"
      unfolding deferred_redirect_for_operation_def by (auto elim!: sbind_InrE)
    have "all_good env oper f0 cl L q m"
      by (rule deferred_votes_good [OF assms(1-3) _ m(1)]) (simp add: all_good_def)
    with m(2) show ?thesis by (auto simp: all_good_def split: if_splits)
  qed
  then show "ok err" "v' \<noteq> 0 \<Longrightarrow> continues env oper f0 cl L q p'" by simp_all
qed

lemma leads_deferred:
  assumes "reliable env oper f0 cl L cs" "n \<noteq> DELIM"
  shows "leads_to env oper f0 cl ((\<lambda>(q, ctx). (n # q, ctx)) ` L) (deferred_file_resolve_hierarchy (Inr n) cs)"
proof (rule leads_node [OF assms(2)])
  fix p v f err p' v'
  assume f: "object_view f = object_view f0" "DELIM \<notin> set (p @ [n])"
    and r: "fst (deferred_file_resolve_hierarchy (Inr n) cs oper p v f) = Inr (err, p', v')"
  show "if ok err then v' \<noteq> 0 \<longrightarrow> continues env oper f0 cl L (p @ [n]) p' else v = 0 \<longrightarrow> v' = 0"
    using r deferred_redirect_good [OF assms(1) f] add_child_name [OF assms(2)]
    unfolding deferred_file_resolve_hierarchy_def Let_def by (auto split: if_splits)
qed

lemma load_balanced_open_good:
  assumes "reliable env oper f0 cl L cs" "object_view f = object_view f0" "DELIM \<notin> set q"
    "fst (load_balanced_redirect_for_open_operation cs oper q f) = Inr (err, p', v')"
  shows "if ok err then v' \<noteq> 0 \<longrightarrow> continues env oper f0 cl L q p' else v' = 0 \<and> code err = -1"
proof (cases "cs = []")
  case True with assms(4) show ?thesis by (auto simp: load_balanced_redirect_for_open_operation_def)
next
  case False
  with assms(4) obtain m where m: "fst (deferred_votes cs oper q [] f) = Inr m"
    "(err, p', v') = (if m = [] then (SUCCESS, q, 0) else let high_vote = fst (last m) in
       if 0 = high_vote then (SUCCESS, q, 0) else if high_vote > 0 then (SUCCESS, snd (last m), high_vote) else (ERROR (-1), q, 0))"
    unfolding load_balanced_redirect_for_open_operation_def load_balanced_votes_eq by (auto elim!: sbind_InrE)
  have "all_good env oper f0 cl L q m"
    by (rule deferred_votes_good [OF assms(1-3) _ m(1)]) (simp add: all_good_def)
  with m(2) show ?thesis by (auto simp: all_good_def Let_def split: if_splits)
qed

lemma load_balanced_create_good:
  assumes "reliable env oper f0 cl L cs" "object_view f = object_view f0" "DELIM \<notin> set q"
    "fst (load_balanced_redirect_for_create_operation loads now cs oper q v f) = Inr (err, p', v')"
  shows "if ok err then v' \<noteq> 0 \<longrightarrow> continues env oper f0 cl L q p' else v = 0 \<longrightarrow> v' = 0"
proof (cases "\<exists>rows c. loads = Inr rows \<and> select_by_load cs now rows (100, None) = Inr (Some c)")
  case True
  then obtain rows c where sel: "loads = Inr rows" "select_by_load cs now rows (100, None) = Inr (Some c)" by blast
  then have c: "c \<in> set cs" using select_by_load_child by fastforce
  from assms(4) sel obtain e f1 where r: "ch_call c oper (hp_copy [] q) 0 f = (Inr (e, p', v'), f1)" "err = SUCCESS"
    unfolding load_balanced_redirect_for_create_operation_def by (auto elim!: sbind_InrE)
  from reliable_call(2,3) [OF assms(1) c assms(2,3) r(1)] r(2) show ?thesis by (cases "ok e") auto
next
  case False
  with assms(4) show ?thesis
    unfolding load_balanced_redirect_for_create_operation_def by (auto split: sum.splits option.splits)
qed

lemma leads_load_balanced:
  assumes "reliable env oper f0 cl L cs" "n \<noteq> DELIM"
  shows "leads_to env oper f0 cl ((\<lambda>(q, ctx). (n # q, ctx)) ` L) (load_balanced_file_resolve_hierarchy (Inr n) loads now cs)"
proof (rule leads_node [OF assms(2)])
  fix p v f err p' v'
  assume f: "object_view f = object_view f0" "DELIM \<notin> set (p @ [n])"
    and r: "fst (load_balanced_file_resolve_hierarchy (Inr n) loads now cs oper p v f) = Inr (err, p', v')"
  show "if ok err then v' \<noteq> 0 \<longrightarrow> continues env oper f0 cl L (p @ [n]) p' else v = 0 \<longrightarrow> v' = 0"
    using r load_balanced_open_good [OF assms(1) f] load_balanced_create_good [OF assms(1) f] add_child_name [OF assms(2)]
    unfolding load_balanced_file_resolve_hierarchy_def Let_def by (auto split: if_splits)
qed

lemma next_valid_good:
  assumes "reliable env oper f0 cl L cs" "object_view f = object_view f0" "DELIM \<notin> set q"
    "fst (get_next_valid_child_resource rnd i cs oper q v f) = Inr (err, p', v')"
  shows "if ok err then v' \<noteq> 0 \<longrightarrow> continues env oper f0 cl L q p' else code err = NO_NEXT_RESC_FOUND \<and> (v = 0 \<longrightarrow> v' = 0)"
  using assms
proof (induction "length cs" arbitrary: cs i v f rule: less_induct)
  case less
  show ?case
  proof (cases "cs = []")
    case True
    with less.prems(4) show ?thesis by (subst (asm) next_valid_child_step) auto
  next
    case False
    let ?k = "rnd i mod length cs" let ?cs = "take (rnd i mod length cs) cs @ drop (rnd i mod length cs + 1) cs"
    note left = candidates_left [OF False refl, of "rnd i"]
    from less.prems(4) False obtain e h w f1 where c: "ch_call (cs ! ?k) oper (hp_copy [] q) v f = (Inr (e, h, w), f1)"
      and rest: "fst ((if ok e \<and> w \<noteq> 0 then sreturn (SUCCESS, h, w) else get_next_valid_child_resource rnd (i + 1) ?cs oper q w) f1) = Inr (err, p', v')"
      by (subst (asm) next_valid_child_step) (auto simp: Let_def elim!: sbind_InrE)
    note call = reliable_call [OF less.prems(1) left(1) less.prems(2,3) c]
    show ?thesis
    proof (cases "ok e \<and> w \<noteq> 0")
      case True
      with rest call(2) show ?thesis by auto
    next
      case no: False
      with rest have r: "fst (get_next_valid_child_resource rnd (i + 1) ?cs oper q w f1) = Inr (err, p', v')" by (simp only: if_False)
      have "reliable env oper f0 cl L ?cs" using less.prems(1) left(3) unfolding reliable_def by blast
      from less.hyps [OF left(2) this call(1) less.prems(3) r] no call(3) show ?thesis by (auto split: if_splits)
    qed
  qed
qed

lemma leads_random:
  assumes "reliable env oper f0 cl L cs" "n \<noteq> DELIM"
  shows "leads_to env oper f0 cl ((\<lambda>(q, ctx). (n # q, ctx)) ` L) (random_file_resolve_hierarchy (Inr n) rnd cs)"
proof (rule leads_node [OF assms(2)])
  fix p v f err p' v'
  assume f: "object_view f = object_view f0" "DELIM \<notin> set (p @ [n])"
    and r: "fst (random_file_resolve_hierarchy (Inr n) rnd cs oper p v f) = Inr (err, p', v')"
  show "if ok err then v' \<noteq> 0 \<longrightarrow> continues env oper f0 cl L (p @ [n]) p' else v = 0 \<longrightarrow> v' = 0"
  proof (cases "OPEN_OPERATION = oper \<or> WRITE_OPERATION = oper \<or> UNLINK_OPERATION = oper")
    case True
    have "fst (sbind (sget (\<lambda>f. get_next_child_for_open_or_write n (fo_replicas f) cs)) (\<lambda>nx. case nx of
             Inr resc \<Rightarrow> ch_call resc oper (p @ [n]) v
           | Inl ret \<Rightarrow> sreturn (if REPLICA_NOT_IN_RESC = code ret then (SUCCESS, p @ [n], 0) else (ret, p @ [n], v))) f) = Inr (err, p', v')"
      using r add_child_name [OF assms(2)] unfolding random_file_resolve_hierarchy_def Let_def by (simp only: True if_True sum.case snd_conv)
    then obtain nx where nx: "get_next_child_for_open_or_write n (fo_replicas f) cs = Inr nx"
      "fst ((case nx of Inr resc \<Rightarrow> ch_call resc oper (p @ [n]) v
           | Inl ret \<Rightarrow> sreturn (if REPLICA_NOT_IN_RESC = code ret then (SUCCESS, p @ [n], 0) else (ret, p @ [n], v))) f) = Inr (err, p', v')"
      by (auto elim!: sbind_InrE)
    show ?thesis
    proof (cases nx)
      case (Inl ret)
      with nx(2) next_child_error(2) [OF nx(1) [unfolded Inl]] show ?thesis by (auto split: if_splits)
    next
      case (Inr c)
      with nx(1) child_in_set(3) assms(1) have "leads_to env oper f0 cl L (ch_call c)" by (auto simp: reliable_def)
      moreover obtain f1 where "ch_call c oper (p @ [n]) v f = (Inr (err, p', v'), f1)"
        using nx(2) Inr by (cases "ch_call c oper (p @ [n]) v f") auto
      ultimately show ?thesis using leads_toD [OF _ f] by auto
    qed
  next
    case False
    with r next_valid_good [OF assms(1) f] add_child_name [OF assms(2)] show ?thesis
      unfolding random_file_resolve_hierarchy_def Let_def by (auto split: if_splits)
  qed
qed

lemma passthru_weigh_result:
  assumes "fst (passthru_weigh env n w oper (e, q, u) f) = Inr (err, p', v')"
  shows "err = e" "p' = q" "v' = u \<or> (\<exists>x. v' = te_mul env u x)"
proof -
  have "fst (weighted env n x (e, q, u) f) = Inr (err, p', v') \<Longrightarrow> err = e \<and> p' = q \<and> (v' = u \<or> (\<exists>x. v' = te_mul env u x))" for x
    by (cases x) (auto simp: weighted_def elim!: sbind_InrE)
  with assms have "err = e \<and> p' = q \<and> (v' = u \<or> (\<exists>x. v' = te_mul env u x))"
    unfolding passthru_weigh_def by (auto split: if_splits)
  then show "err = e" "p' = q" "v' = u \<or> (\<exists>x. v' = te_mul env u x)" by auto
qed

text \<open>The product of the vote 0 and a weight is 0.\<close>

lemma leads_passthru:
  assumes "reliable env oper f0 cl L cs" "n \<noteq> DELIM" "\<forall>w. te_mul env 0 w = 0"
  shows "leads_to env oper f0 cl ((\<lambda>(q, ctx). (n # q, ctx)) ` L) (passthru_file_resolve_hierarchy env (Inr n) w cs)"
proof (rule leads_node [OF assms(2)])
  fix p v f err p' v'
  assume f: "object_view f = object_view f0" "DELIM \<notin> set (p @ [n])"
    and r: "fst (passthru_file_resolve_hierarchy env (Inr n) w cs oper p v f) = Inr (err, p', v')"
  show "if ok err then v' \<noteq> 0 \<longrightarrow> continues env oper f0 cl L (p @ [n]) p' else v = 0 \<longrightarrow> v' = 0"
  proof (cases "length cs = 1")
    case True
    then obtain c where c: "cs = [c]" by (cases cs) auto
    with r add_child_name [OF assms(2)] obtain e q u f1 where call: "ch_call c oper (p @ [n]) v f = (Inr (e, q, u), f1)"
      and g: "fst (passthru_weigh env n w oper (e, q, u) f1) = Inr (err, p', v')"
      unfolding passthru_file_resolve_hierarchy_def passthru_get_first_child_resc_def Let_def
      by (auto elim!: sbind_InrE)
    note res = passthru_weigh_result [OF g]
    from c assms(1) have "leads_to env oper f0 cl L (ch_call c)" by (simp add: reliable_def)
    from leads_toD [OF this f call] res assms(3) show ?thesis by auto
  next
    case False
    with r add_child_name [OF assms(2)] show ?thesis
      by (auto simp: passthru_file_resolve_hierarchy_def passthru_get_first_child_resc_def Let_def)
  qed
qed

text \<open>A replication resource returns the hierarchy the client names, with the vote 1 and without asking its children;
  otherwise it selects among their answers.\<close>

lemma replication_client:
  assumes "fst (repl_file_resolve_hierarchy name rd rnd cs oper p v f) = Inr (err, p', v')" "fo_hier_str f = Some hier"
  shows "ok err \<and> client_hierarchy f p'"
proof -
  from assms have "tbind (hp_set_string hier) (\<lambda>(err, selected). Inr (SUCCESS, selected, 1)) = Inr (err, p', v')"
    by (simp add: repl_file_resolve_hierarchy_def sbind_def sget_def)
  then show ?thesis using assms(2) by (auto simp: client_hierarchy_def tbind_eq_Inr)
qed

lemma replication_selects:
  assumes "reliable env oper f0 cl L cs" "\<forall>c\<in>set cs. definite oper f0 (ch_call c)" "n \<noteq> DELIM"
    "object_view f = object_view f0" "DELIM \<notin> set (p @ [n])"
    "fst (repl_file_resolve_hierarchy (Inr n) rd rnd cs oper p v f) = Inr (err, p', v')" "fo_hier_str f = None"
  shows "if ok err then v' \<noteq> 0 \<longrightarrow> continues env oper f0 cl L (p @ [n]) p' else v = 0 \<longrightarrow> v' = 0"
proof -
  from assms(6,7) obtain m e f1 where m: "resolve_children cs oper (p @ [n]) f = (Inr (m, e), f1)"
    and rest: "fst ((if m = [] then sreturn (e, p @ [n], v) else sget (\<lambda>_. select_child rd rnd oper m (p @ [n]))) f1) = Inr (err, p', v')"
    unfolding repl_file_resolve_hierarchy_def add_self_to_hierarchy_def by (auto simp: add_child_name [OF assms(3)] elim!: sbind_InrE)
  then have m: "fst (resolve_children cs oper (p @ [n]) f) = Inr (m, e)" by simp
  have good: "all_good env oper f0 cl L (p @ [n]) m" and empty: "m = [] \<Longrightarrow> \<not> ok e"
    using m children_loop_good [OF assms(1,2,4,5), of "[]" 0 SUCCESS m e] children_loop_err [of cs oper "p @ [n]" 0 "[]" SUCCESS f m e]
    by (auto simp: resolve_children_def all_good_def split: if_splits)
  show ?thesis
  proof (cases "m = []")
    case True with rest empty show ?thesis by auto
  next
    case False
    with rest have s: "select_child rd rnd oper m (p @ [n]) = Inr (err, p', v')" by simp
    have "items ! (rnd mod length items) \<in> set m" if "items = filter (\<lambda>e. fst e > 0) m" "items \<noteq> []" for items
    proof -
      have "items ! (rnd mod length items) \<in> set items" using that(2) by simp
      with that(1) show ?thesis by auto
    qed
    with s False have "(v', p') \<in> set m" "ok err"
      by (auto simp: select_child_def process_redirect_map_for_random_open_def Let_def tbind_eq_Inr split: if_splits)
    with good show ?thesis by (auto simp: all_good_def)
  qed
qed

lemma leads_replication:
  assumes "reliable env oper f0 cl L cs" "\<forall>c\<in>set cs. definite oper f0 (ch_call c)" "n \<noteq> DELIM" "fo_hier_str f0 \<noteq> None \<Longrightarrow> cl"
  shows "leads_to env oper f0 cl ((\<lambda>(q, ctx). (n # q, ctx)) ` L) (repl_file_resolve_hierarchy (Inr n) rd rnd cs)"
proof (rule leads_node [OF assms(3)])
  fix p v f err p' v'
  assume f: "object_view f = object_view f0" "DELIM \<notin> set (p @ [n])"
    and r: "fst (repl_file_resolve_hierarchy (Inr n) rd rnd cs oper p v f) = Inr (err, p', v')"
  have fh: "fo_hier_str f = fo_hier_str f0" using object_view_eqD(4) [OF f(1)] .
  show "if ok err then v' \<noteq> 0 \<longrightarrow> continues env oper f0 cl L (p @ [n]) p' else v = 0 \<longrightarrow> v' = 0"
  proof (cases "fo_hier_str f0")
    case None
    with replication_selects [OF assms(1-3) f r] fh show ?thesis by simp
  next
    case (Some hier)
    with replication_client [OF r] fh assms(4) show ?thesis by (simp add: continues_def client_hierarchy_def)
  qed
qed

lemma leads_storage:
  assumes "n \<noteq> DELIM" "vc_name ctx = Inr n"
  shows "leads_to env oper f0 cl {([n], ctx)} (storage_resolve env k ctx)"
proof (rule leads_toI)
  fix p v f err p' v'
  assume f: "object_view f = object_view f0" "DELIM \<notin> set p" and r: "fst (storage_resolve env k ctx oper p v f) = Inr (err, p', v')"
  let ?calc = "calculate (te_cast_space env) (te_access env) oper ctx"
  have calc: "fst (?calc f) = fst (?calc f0)" using votes_onlyD(3) [OF votes_only_calculate f(1)] .
  have "fst (vote_or_error ?calc (p @ [n]) w f) = Inr (err, p', v') \<Longrightarrow> w = 0 \<or> w = v \<Longrightarrow>
      if ok err then v' \<noteq> 0 \<longrightarrow> continues env oper f0 cl {([n], ctx)} p p' else v = 0 \<longrightarrow> v' = 0" for w
    using calc by (cases "?calc f") (auto simp: vote_or_error_def continues_def offers_def split: sum.splits exn.splits)
  with r show "if ok err then v' \<noteq> 0 \<longrightarrow> continues env oper f0 cl {([n], ctx)} p p' else v = 0 \<longrightarrow> v' = 0"
    using assms(2) add_child_name [OF assms(1)]
    by (cases k) (auto simp: unix_file_resolve_hierarchy_def mock_archive_file_resolve_hierarchy_def get_property_def Let_def
        elim!: sbind_InrE split: if_splits)
qed

section \<open>Which resources never report a missing child\<close>

lemma hierarchy_parser_error: "hierarchy_parser h = Inl e \<Longrightarrow> e = irods_exception SYS_INVALID_INPUT_PARAM"
  by (simp add: hierarchy_parser_pieces split: if_splits)

lemma find_leaf_error: "find_leaf name rs = Inl e \<Longrightarrow> e = irods_exception SYS_INVALID_INPUT_PARAM"
proof (induction rs)
  case (Cons r rs)
  then show ?case by (cases "hierarchy_parser (po_resc_hier r)"; cases "find_leaf name rs") (auto split: if_splits dest: hierarchy_parser_error)
qed simp

text \<open>The codes with which a lookup of a property fails are not those of a missing child.\<close>

definition steady_context :: "vote_context \<Rightarrow> bool" where
  "steady_context ctx = (vc_status ctx \<noteq> Inl CHILD_NOT_FOUND \<and> vc_name ctx \<noteq> Inl CHILD_NOT_FOUND \<and> vc_location ctx \<noteq> Inl CHILD_NOT_FOUND)"

lemma tbind_eq_Inl: "tbind m f = Inl e \<longleftrightarrow> m = Inl e \<or> (\<exists>x. m = Inr x \<and> f x = Inl e)"
  by (cases m) auto

lemma get_property_Inl: "get_property q = Inl (irods_exception c) \<Longrightarrow> q = Inl c"
  by (auto simp: get_property_def split: sum.splits)

lemma find_local_replica_steady:
  "steady_context ctx \<Longrightarrow> find_local_replica ctx f \<noteq> Inl (irods_exception CHILD_NOT_FOUND)"
  by (auto simp: find_local_replica_def tbind_eq_Inl steady_context_def dest!: find_leaf_error get_property_Inl)

lemma calculate_steady:
  assumes "steady_context ctx"
  shows "fst (calculate cast_space m oper ctx f) \<noteq> Inl (irods_exception CHILD_NOT_FOUND)"
proof -
  note frs = find_local_replica_steady [OF assms, of f]
  have down: "throw_if_resource_is_down ctx \<noteq> Inl (irods_exception CHILD_NOT_FOUND)"
    using assms by (auto simp: throw_if_resource_is_down_def tbind_eq_Inl steady_context_def dest!: get_property_Inl)
  have loc: "get_property (vc_location ctx) \<noteq> Inl (irods_exception CHILD_NOT_FOUND)"
    "get_property (vc_name ctx) \<noteq> Inl (irods_exception CHILD_NOT_FOUND)"
    using assms by (auto simp: steady_context_def dest!: get_property_Inl)
  have st: "calculate_with_repl_status m ctx f st \<noteq> Inl (irods_exception CHILD_NOT_FOUND)" for st
    using frs down loc(1) unfolding calculate_with_repl_status_def tbind_eq_Inl Let_def
    by (simp add: tbind_eq_Inl split: option.split)
  have space: "throw_if_replica_exceeds_resource_free_space cast_space ctx f \<noteq> Inl (irods_exception CHILD_NOT_FOUND)"
    using loc(2) unfolding throw_if_replica_exceeds_resource_free_space_def replica_exceeds_resource_free_space_def
    by (simp add: tbind_eq_Inl split del: if_split split: if_splits)
  have cr: "calculate_for_create cast_space ctx f \<noteq> Inl (irods_exception CHILD_NOT_FOUND)"
    using down space loc(1) by (auto simp: calculate_for_create_def tbind_eq_Inl)
  have "calc ctx f \<noteq> Inl (irods_exception CHILD_NOT_FOUND)" if calc: "calculators cast_space m oper = Some calc" for calc
  proof (cases "oper = CREATE_OPERATION")
    case True with calc cr show ?thesis by (simp add: calculators_def)
  next
    case False with calculators_status [OF calc] st show ?thesis by auto
  qed
  with frs show ?thesis unfolding calculate_def
    by (cases "calculators cast_space m oper") (auto split: sum.splits option.splits)
qed

lemma definite_storage: "steady_context ctx \<Longrightarrow> definite oper f0 (storage_resolve env k ctx)"
proof -
  assume ctx: "steady_context ctx"
  have "code err \<noteq> CHILD_NOT_FOUND" if "fst (vote_or_error (calculate cs m oper ctx) q w f) = Inr (err, p', v')" "\<not> ok err" for cs m q w f err p' v'
    using that calculate_steady [OF ctx, of cs m oper f] by (cases "calculate cs m oper ctx f") (auto simp: vote_or_error_def split: sum.splits exn.splits)
  with ctx show ?thesis unfolding definite_def
    by (cases k) (auto simp: unix_file_resolve_hierarchy_def mock_archive_file_resolve_hierarchy_def steady_context_def Let_def
        elim!: sbind_InrE split: if_splits sum.splits)
qed

text \<open>The replicas below a random resource are where its child map says.\<close>

definition placed :: "string \<Rightarrow> string list \<Rightarrow> file_object \<Rightarrow> bool" where
  "placed n keys f = list_all (\<lambda>r. case hp_set_string (po_resc_hier r) of Inl _ \<Rightarrow> True
     | Inr (err, l) \<Rightarrow> hp_contains l n \<longrightarrow> snd (hp_next_out l n) \<in> set keys) (fo_replicas f)"

lemma hp_next_out_in: "n \<in> set l \<Longrightarrow> ok (fst (hp_next_out l n)) \<or> fst (hp_next_out l n) = ERROR NO_NEXT_RESC_FOUND"
proof -
  assume "n \<in> set l"
  then obtain xs ys where l: "l = xs @ n # ys" "n \<notin> set xs" by (metis split_list_first)
  then show ?thesis by (simp add: hp_next_out_def hp_next_loop_eq hp_next_split split: list.split)
qed

lemma next_child_placed:
  assumes "get_next_child_for_open_or_write n (fo_replicas f) cs = Inr (Inl e)" "placed n (map ch_key cs) f"
  shows "code e \<noteq> CHILD_NOT_FOUND"
proof -
  have "code e \<noteq> CHILD_NOT_FOUND" if "get_next_child_for_open_or_write n rs cs = Inr (Inl e)"
    "list_all (\<lambda>r. case hp_set_string (po_resc_hier r) of Inl _ \<Rightarrow> True
       | Inr (err, l) \<Rightarrow> hp_contains l n \<longrightarrow> snd (hp_next_out l n) \<in> set (map ch_key cs)) rs" for rs
    using that
  proof (induction rs)
    case (Cons r rs)
    obtain err l where h: "hp_set_string (po_resc_hier r) = Inr (err, l)" "ok err \<or> code err = SYS_INVALID_INPUT_PARAM"
      by (simp add: hp_set_string_def string_tokenize_pieces split: if_splits)
    show ?case
    proof (cases "hp_contains l n")
      case True
      obtain e' nx where nx: "hp_next_out l n = (e', nx)" by (rule prod.exhaust)
      have "n \<in> set l" using True by (auto simp: hp_contains_def list_ex_iff)
      then have "code e' \<noteq> CHILD_NOT_FOUND" if "\<not> ok e'"
        using hp_next_out_in [of n l] nx that by auto
      moreover have "child_at cs nx \<noteq> None" using Cons.prems(2) h(1) True nx by (auto simp: child_at_def find_None_iff)
      ultimately show ?thesis using Cons.prems(1) h True nx by (auto simp: get_next_child_in_hier_def split: if_splits option.splits)
    next
      case False with Cons h show ?thesis by simp
    qed
  qed auto
  with assms show ?thesis unfolding placed_def by blast
qed

lemma placed_votes: "object_view f = object_view f0 \<Longrightarrow> placed n keys f = placed n keys f0"
proof -
  assume "object_view f = object_view f0"
  then have "map po_resc_hier (map (\<lambda>r. r\<lparr>po_vote := 0\<rparr>) (fo_replicas f)) = map po_resc_hier (map (\<lambda>r. r\<lparr>po_vote := 0\<rparr>) (fo_replicas f0))"
    using object_view_eqD(5) by metis
  then have "map po_resc_hier (fo_replicas f) = map po_resc_hier (fo_replicas f0)" by (simp add: comp_def)
  moreover have "placed n keys f = list_all (\<lambda>h. case hp_set_string h of Inl _ \<Rightarrow> True
      | Inr (err, l) \<Rightarrow> hp_contains l n \<longrightarrow> snd (hp_next_out l n) \<in> set keys) (map po_resc_hier (fo_replicas f))" for f
    by (simp add: placed_def list.pred_map comp_def)
  ultimately show ?thesis by simp
qed

lemma next_valid_error:
  "fst (get_next_valid_child_resource rnd i cs oper q v f) = Inr (err, p', v') \<Longrightarrow> \<not> ok err \<Longrightarrow> code err = NO_NEXT_RESC_FOUND"
proof (induction "length cs" arbitrary: cs i v f rule: less_induct)
  case less
  show ?case
  proof (cases "cs = []")
    case True
    with less.prems(1) show ?thesis by (subst (asm) next_valid_child_step) auto
  next
    case False
    note left = candidates_left [OF False refl, of "rnd i"]
    from less.prems(1) False obtain e h w f1 where
      "fst ((if ok e \<and> w \<noteq> 0 then sreturn (SUCCESS, h, w) else get_next_valid_child_resource rnd (i + 1)
         (take (rnd i mod length cs) cs @ drop (rnd i mod length cs + 1) cs) oper q w) f1) = Inr (err, p', v')"
      by (subst (asm) next_valid_child_step) (auto simp: Let_def elim!: sbind_InrE)
    with less.hyps [OF left(2)] less.prems(2) show ?thesis by (auto split: if_splits)
  qed
qed

lemma definite_random:
  assumes "\<forall>c\<in>set cs. definite oper f0 (ch_call c)" "placed n (map ch_key cs) f0"
  shows "definite oper f0 (random_file_resolve_hierarchy (Inr n) rnd cs)"
  unfolding definite_def
proof (intro allI impI)
  fix p v f err p' v'
  assume f: "object_view f = object_view f0" and r: "fst (random_file_resolve_hierarchy (Inr n) rnd cs oper p v f) = Inr (err, p', v')" and err: "\<not> ok err"
  let ?q = "snd (hp_add_child p n)"
  show "code err \<noteq> CHILD_NOT_FOUND"
  proof (cases "OPEN_OPERATION = oper \<or> WRITE_OPERATION = oper \<or> UNLINK_OPERATION = oper")
    case True
    have "fst (sbind (sget (\<lambda>f. get_next_child_for_open_or_write n (fo_replicas f) cs)) (\<lambda>nx. case nx of
             Inr resc \<Rightarrow> ch_call resc oper ?q v
           | Inl ret \<Rightarrow> sreturn (if REPLICA_NOT_IN_RESC = code ret then (SUCCESS, ?q, 0) else (ret, ?q, v))) f) = Inr (err, p', v')"
      using r unfolding random_file_resolve_hierarchy_def Let_def by (simp only: True if_True sum.case)
    then obtain nx where nx: "get_next_child_for_open_or_write n (fo_replicas f) cs = Inr nx"
      "fst ((case nx of Inr resc \<Rightarrow> ch_call resc oper ?q v
           | Inl ret \<Rightarrow> sreturn (if REPLICA_NOT_IN_RESC = code ret then (SUCCESS, ?q, 0) else (ret, ?q, v))) f) = Inr (err, p', v')"
      by (auto elim!: sbind_InrE)
    show ?thesis
    proof (cases nx)
      case (Inl ret)
      have "code ret \<noteq> CHILD_NOT_FOUND"
        using next_child_placed nx(1) Inl assms(2) placed_votes [OF f] by blast
      with nx(2) Inl err show ?thesis by (auto split: if_splits)
    next
      case (Inr c)
      with nx(1) child_in_set(3) assms(1) have "definite oper f0 (ch_call c)" by blast
      moreover obtain f1 where "ch_call c oper ?q v f = (Inr (err, p', v'), f1)"
        using nx(2) Inr by (cases "ch_call c oper ?q v f") auto
      ultimately show ?thesis using definiteD f err by blast
    qed
  next
    case False
    with r next_valid_error [of rnd 0 cs oper ?q v f err p' v'] err show ?thesis
      unfolding random_file_resolve_hierarchy_def Let_def by (auto split: if_splits)
  qed
qed

lemma definite_coordinator:
  assumes "coordinator_name co \<noteq> Inl CHILD_NOT_FOUND"
    "case co of Passthru _ _ \<Rightarrow> \<forall>c\<in>set cs. definite oper f0 (ch_call c)
     | Random n _ \<Rightarrow> (\<forall>c\<in>set cs. definite oper f0 (ch_call c)) \<and> (case n of Inl _ \<Rightarrow> True | Inr n \<Rightarrow> placed n (map ch_key cs) f0)
     | Deferred _ \<Rightarrow> True | Load_Balanced _ _ _ \<Rightarrow> oper \<noteq> CREATE_OPERATION | Replication _ _ _ \<Rightarrow> cs \<noteq> []"
  shows "definite oper f0 (coordinator_resolve env co cs)"
proof (cases "coordinator_name co")
  case (Inl c)
  with assms(1) show ?thesis unfolding definite_def
    by (cases co) (auto simp: passthru_file_resolve_hierarchy_def random_file_resolve_hierarchy_def deferred_file_resolve_hierarchy_def
        load_balanced_file_resolve_hierarchy_def repl_file_resolve_hierarchy_def add_self_to_hierarchy_def tbind_eq_Inr
        elim!: sbind_InrE split: option.splits)
next
  case (Inr n)
  show ?thesis
  proof (cases co)
    case (Passthru nm w)
    have "code err \<noteq> CHILD_NOT_FOUND" if "object_view f = object_view f0" "\<not> ok err"
      "fst (passthru_file_resolve_hierarchy env (Inr n) w cs oper p v f) = Inr (err, p', v')" for p v f err p' v'
    proof (cases "length cs = 1")
      case True
      then obtain c where c: "cs = [c]" by (cases cs) auto
      with that(3) obtain e q u f1 where call: "ch_call c oper (snd (hp_add_child p n)) v f = (Inr (e, q, u), f1)"
        and g: "fst (passthru_weigh env n w oper (e, q, u) f1) = Inr (err, p', v')"
        unfolding passthru_file_resolve_hierarchy_def passthru_get_first_child_resc_def Let_def by (auto elim!: sbind_InrE)
      from passthru_weigh_result(1) [OF g] definiteD [of oper f0 "ch_call c", OF _ that(1) call] that(2) assms(2) c Passthru show ?thesis by simp
    next
      case False
      with that(3) show ?thesis by (auto simp: passthru_file_resolve_hierarchy_def passthru_get_first_child_resc_def Let_def)
    qed
    with Passthru Inr show ?thesis by (simp add: definite_def)
  next
    case (Random nm rnd)
    with assms(2) Inr show ?thesis by (simp add: definite_random)
  next
    case (Deferred nm)
    have "ok err" if "fst (deferred_redirect_for_operation cs oper q f) = Inr (err, p', v')" for q f err p' v'
      using that by (cases "cs = []") (auto simp: deferred_redirect_for_operation_def elim!: sbind_InrE split: if_splits)
    with Deferred Inr show ?thesis by (auto simp: definite_def deferred_file_resolve_hierarchy_def Let_def split: if_splits)
  next
    case (Load_Balanced nm loads now)
    have "code err \<noteq> CHILD_NOT_FOUND" if "fst (load_balanced_redirect_for_open_operation cs oper q f) = Inr (err, p', v')" "\<not> ok err" for q f err p' v'
      using that by (cases "cs = []") (auto simp: load_balanced_redirect_for_open_operation_def Let_def elim!: sbind_InrE split: if_splits)
    with Load_Balanced Inr assms(2) show ?thesis by (auto simp: definite_def load_balanced_file_resolve_hierarchy_def Let_def split: if_splits)
  next
    case (Replication nm rd rnd)
    have "code e \<noteq> CHILD_NOT_FOUND" if "resolve_children cs oper q f = (Inr ([], e), f1)" for q f e f1
      using that children_loop_err [of cs oper q 0 "[]" SUCCESS f "[]" e] assms(2) Replication by (simp add: resolve_children_def)
    moreover have "ok err" if "select_child rd rnd oper m q = Inr (err, p', v')" for m q err p' v'
      using that by (auto simp: select_child_def tbind_eq_Inr split: if_splits)
    ultimately show ?thesis using Replication Inr unfolding definite_def
      by (auto simp: repl_file_resolve_hierarchy_def add_self_to_hierarchy_def hp_add_child_def tbind_eq_Inr
          elim!: sbind_InrE split: option.splits if_splits)
  qed
qed

section \<open>Trees\<close>

function definite_tree :: "string \<Rightarrow> file_object \<Rightarrow> resc_tree \<Rightarrow> bool" where
  "definite_tree oper f (Storage k ctx) = steady_context ctx"
| "definite_tree oper f (Coordinating co cs) = (coordinator_name co \<noteq> Inl CHILD_NOT_FOUND \<and> (case co of
      Passthru _ _ \<Rightarrow> \<forall>x\<in>set cs. definite_tree oper f (snd x)
    | Random n _ \<Rightarrow> (\<forall>x\<in>set cs. definite_tree oper f (snd x)) \<and> (case n of Inl _ \<Rightarrow> True | Inr n \<Rightarrow> placed n (map fst cs) f)
    | Deferred _ \<Rightarrow> True | Load_Balanced _ _ _ \<Rightarrow> oper \<noteq> CREATE_OPERATION | Replication _ _ _ \<Rightarrow> cs \<noteq> []))"
  by pat_completeness auto
termination
  by (relation "measure (size \<circ> snd \<circ> snd)") (auto intro: size_child)

lemma definite_tree: "definite_tree oper f t \<Longrightarrow> definite oper f (resolve_tree env t)"
proof (induction env t rule: resolve_tree.induct)
  case (1 env k ctx)
  then show ?case by (simp add: definite_storage)
next
  case (2 env co cs)
  show ?case unfolding resolve_tree.simps
    by (rule definite_coordinator) (use 2 in \<open>auto simp: comp_def split: coordinator.splits sum.splits\<close>)
qed

text \<open>A tree on which resolution is well-behaved: its names can be printed and parsed, and below a replication
  resource no resource reports a missing child.\<close>

definition name_ok :: "string property \<Rightarrow> bool" where
  "name_ok n = (case n of Inl _ \<Rightarrow> True | Inr n \<Rightarrow> valid_name n)"

function tree_ok :: "string \<Rightarrow> file_object \<Rightarrow> resc_tree \<Rightarrow> bool" where
  "tree_ok oper f (Storage k ctx) = name_ok (vc_name ctx)"
| "tree_ok oper f (Coordinating co cs) = (name_ok (coordinator_name co) \<and> (\<forall>x\<in>set cs. tree_ok oper f (snd x)) \<and>
     (case co of Replication _ _ _ \<Rightarrow> \<forall>x\<in>set cs. definite_tree oper f (snd x) | _ \<Rightarrow> True))"
  by pat_completeness auto
termination
  by (relation "measure (size \<circ> snd \<circ> snd)") (auto intro: size_child)

fun is_replication :: "coordinator \<Rightarrow> bool" where
  "is_replication (Replication n read rnd) = True"
| "is_replication _ = False"

function has_replication :: "resc_tree \<Rightarrow> bool" where
  "has_replication (Storage k ctx) = False"
| "has_replication (Coordinating co cs) = (is_replication co \<or> (\<exists>x\<in>set cs. has_replication (snd x)))"
  by pat_completeness auto
termination
  by (relation "measure size") (auto intro: size_child)

lemma leads_missing_name:
  assumes "coordinator_name co = Inl c" "is_replication co \<Longrightarrow> fo_hier_str f0 \<noteq> None \<Longrightarrow> cl"
  shows "leads_to env oper f0 cl L (coordinator_resolve env co cs)"
proof (rule leads_toI)
  fix p v f err p' v'
  assume f: "object_view f = object_view f0" and r: "fst (coordinator_resolve env co cs oper p v f) = Inr (err, p', v')"
  have fh: "fo_hier_str f = fo_hier_str f0" using object_view_eqD(4) [OF f] .
  show "if ok err then v' \<noteq> 0 \<longrightarrow> continues env oper f0 cl L p p' else v = 0 \<longrightarrow> v' = 0"
  proof (cases "is_replication co \<and> fo_hier_str f0 \<noteq> None")
    case True
    then obtain n rd rnd hier where co: "co = Replication n rd rnd" "fo_hier_str f0 = Some hier" by (cases co) auto
    with replication_client [of n rd rnd cs oper p v f err p' v' hier] r fh assms(2) show ?thesis
      by (simp add: continues_def client_hierarchy_def)
  next
    case False
    with r assms(1) fh show ?thesis
      by (cases co) (auto simp: passthru_file_resolve_hierarchy_def random_file_resolve_hierarchy_def deferred_file_resolve_hierarchy_def
          load_balanced_file_resolve_hierarchy_def repl_file_resolve_hierarchy_def add_self_to_hierarchy_def elim!: sbind_InrE)
  qed
qed

lemma valid_not_delim: "valid_name n \<Longrightarrow> n \<noteq> DELIM"
  by (auto simp: valid_name_def DELIM_def)

lemma leads_coordinator:
  assumes "reliable env oper f0 cl L cs" "coordinator_name co = Inr n" "valid_name n" "\<forall>w. te_mul env 0 w = 0"
    "is_replication co \<Longrightarrow> fo_hier_str f0 \<noteq> None \<Longrightarrow> cl"
    "case co of Replication _ _ _ \<Rightarrow> \<forall>c\<in>set cs. definite oper f0 (ch_call c) | _ \<Rightarrow> True"
  shows "leads_to env oper f0 cl ((\<lambda>(q, ctx). (n # q, ctx)) ` L) (coordinator_resolve env co cs)"
proof (cases "is_replication co")
  case True
  with assms(2) obtain rd rnd where co: "co = Replication (Inr n) rd rnd" by (cases co) auto
  with assms leads_replication [OF assms(1) _ valid_not_delim [OF assms(3)]] show ?thesis by simp
next
  case False
  with assms valid_not_delim [OF assms(3)] show ?thesis
    by (cases co) (simp_all add: leads_passthru leads_random leads_deferred leads_load_balanced)
qed

lemma leads_nameless_storage:
  assumes "vc_name ctx = Inl c"
  shows "leads_to env oper f cl L (storage_resolve env k ctx)"
proof (rule leads_toI)
  fix p v g err p' v'
  assume r: "fst (storage_resolve env k ctx oper p v g) = Inr (err, p', v')"
  show "if ok err then v' \<noteq> 0 \<longrightarrow> continues env oper f cl L p p' else v = 0 \<longrightarrow> v' = 0"
  proof (cases k)
    case Unixfilesystem
    with r assms show ?thesis by (simp add: unix_file_resolve_hierarchy_def get_property_def sbind_def)
  next
    case Mockarchive
    with r assms show ?thesis by (auto simp: mock_archive_file_resolve_hierarchy_def)
  qed
qed

lemma leads_tree:
  assumes "\<forall>w. te_mul env 0 w = 0"
  shows "tree_ok oper f t \<Longrightarrow> leads_to env oper f (has_replication t) (set (leaves t)) (resolve_tree env t)"
  using assms
proof (induction env t rule: resolve_tree.induct)
  case (1 env k ctx)
  show ?case
  proof (cases "vc_name ctx")
    case (Inl c)
    from leads_nameless_storage [OF this] show ?thesis by simp
  next
    case (Inr n)
    with 1(1) have "n \<noteq> DELIM" by (simp add: name_ok_def valid_not_delim)
    from leads_storage [OF this Inr] Inr show ?thesis by simp
  qed
next
  case (2 env co cs)
  let ?cs = "map (\<lambda>x. \<lparr>ch_key = fst x, ch_name = resc_name (snd x), ch_call = resolve_tree env (snd x)\<rparr>) cs"
  have ok: "name_ok (coordinator_name co)" "\<forall>x\<in>set cs. tree_ok oper f (snd x)"
    "case co of Replication _ _ _ \<Rightarrow> \<forall>x\<in>set cs. definite_tree oper f (snd x) | _ \<Rightarrow> True"
    using 2(2) unfolding tree_ok.simps by blast+
  show ?case
  proof (cases "coordinator_name co")
    case (Inl c)
    from leads_missing_name [OF Inl] show ?thesis by (simp add: resolve_tree.simps)
  next
    case (Inr n)
    let ?L = "\<Union>x\<in>set cs. set (leaves (snd x))"
    let ?cl = "has_replication (Coordinating co cs)"
    have "leads_to env oper f ?cl ?L (resolve_tree env (snd x))" if "x \<in> set cs" for x
    proof (rule leads_to_mono)
      show "leads_to env oper f (has_replication (snd x)) (set (leaves (snd x))) (resolve_tree env (snd x))"
        using 2(1) [OF that] ok(2) that 2(3) by blast
    qed (use that in auto)
    then have rel: "reliable env oper f ?cl ?L ?cs" unfolding reliable_def set_map by (simp add: neutral_tree)
    have "case co of Replication _ _ _ \<Rightarrow> \<forall>c\<in>set ?cs. definite oper f (ch_call c) | _ \<Rightarrow> True"
      using ok(3) definite_tree by (cases co) auto
    moreover have "valid_name n" using ok(1) Inr by (simp add: name_ok_def)
    ultimately have "leads_to env oper f ?cl ((\<lambda>(q, ctx). (n # q, ctx)) ` ?L) (coordinator_resolve env co ?cs)"
      using leads_coordinator [OF rel Inr _ 2(3)] by auto
    moreover have "set (leaves (Coordinating co cs)) = (\<lambda>(q, ctx). (n # q, ctx)) ` ?L" using Inr by simp
    ultimately show ?thesis by (simp only: resolve_tree.simps)
  qed
qed

text \<open>The paths of a tree end in the storage resource.\<close>

lemma leaves_path:
  "(path, ctx) \<in> set (leaves t) \<Longrightarrow> path \<noteq> [] \<and> vc_name ctx = Inr (last path) \<and> (tree_ok oper f t \<longrightarrow> list_all valid_name path)"
proof (induction t arbitrary: path rule: leaves.induct)
  case (1 k ctx')
  then show ?case by (cases "vc_name ctx'") (auto simp: name_ok_def)
next
  case (2 co cs)
  from 2(2) obtain n q x where n: "coordinator_name co = Inr n" "path = n # q" and x: "x \<in> set cs" "(q, ctx) \<in> set (leaves (snd x))"
    by (cases "coordinator_name co") auto
  from 2(1) [OF n(1) x] n x(1) show ?case by (simp add: name_ok_def)
qed

section \<open>From the request to the storage resource\<close>

text \<open>An offer for an operation on an existing object: the resource is up, and the replica with the given number in
  the list is on it and accessible.\<close>

definition serves :: "tree_env \<Rightarrow> file_object \<Rightarrow> vote_context \<Rightarrow> nat \<Rightarrow> bool" where
  "serves env f ctx i = (vc_status ctx \<noteq> Inr INT_RESC_STATUS_DOWN \<and> i < length (fo_replicas f) \<and>
     (case hierarchy_parser (po_resc_hier (fo_replicas f ! i)) of Inl _ \<Rightarrow> False | Inr l \<Rightarrow> vc_name ctx = Inr (hp_last_resc l)) \<and>
     offered (te_access env) f (fo_replicas f ! i))"

lemma offers_serves:
  assumes "offers env oper f ctx" "oper \<noteq> CREATE_OPERATION"
  obtains i where "serves env f ctx i"
proof -
  from assms(1) obtain v where v: "fst (calculate (te_cast_space env) (te_access env) oper ctx f) = Inr v" "v \<noteq> 0"
    by (auto simp: offers_def split: sum.splits)
  from calculate_vote(2) [OF v(1) assms(2) v(2)] obtain i where i: "vc_status ctx \<noteq> Inr INT_RESC_STATUS_DOWN"
    "find_local_replica ctx f = Inr (Some i)" "offered (te_access env) f (fo_replicas f ! i)" by blast
  obtain l where "i < length (fo_replicas f)" "hierarchy_parser (po_resc_hier (fo_replicas f ! i)) = Inr l" "vc_name ctx = Inr (hp_last_resc l)"
    by (rule find_local_replica_Some [OF i(2)])
  with i have "serves env f ctx i" by (simp add: serves_def)
  then show thesis by (rule that)
qed

text \<open>C5 (safety). Take a tree of passthru, random, deferred, load-balanced and replication resources over storage
  resources with \<open>tree_ok\<close>: every name can be printed and parsed, and the children of a replication resource have
  \<open>definite_tree\<close>, which rules out that one reports \<^verbatim>\<open>CHILD_NOT_FOUND\<close>. Let 0 times a weight be 0, and let the
  incoming hierarchy have no delimiter as a name.
  A resolution that succeeds with a vote other than 0 returns one of two hierarchies. It is the incoming one
  continued along a path of the tree from its root to a storage resource that itself votes for the operation;
  for an operation on an existing object that resource is up and holds an accessible replica. Or the tree has a
  replication resource and the hierarchy is the one the client has named with \<^verbatim>\<open>RESC_HIER_STR_KW\<close>, which the
  resource passes on unchecked. Nothing of the object but the votes changes.\<close>

theorem tree_resolution_reaches_storage:
  assumes "\<forall>w. te_mul env 0 w = 0" "tree_ok oper f t" "DELIM \<notin> set p"
    "resolve_tree env t oper p v f = (Inr (err, p', v'), f')" "ok err" "v' \<noteq> 0"
  shows "object_view f' = object_view f \<and> ((\<exists>path ctx. (path, ctx) \<in> set (leaves t) \<and> p' = p @ path \<and> offers env oper f ctx \<and>
    (oper \<noteq> CREATE_OPERATION \<longrightarrow> (\<exists>i. serves env f ctx i))) \<or> has_replication t \<and> client_hierarchy f p')"
proof -
  have "object_view f' = object_view f"
    using votes_onlyD(1) [of "resolve_tree env t oper p v" f] neutral_tree [of env t] assms(4) by (simp add: neutral_def)
  moreover have "continues env oper f (has_replication t) (set (leaves t)) p p'"
    by (rule leads_toD(1) [OF leads_tree [OF assms(1,2)] refl assms(3-6)])
  ultimately show ?thesis unfolding continues_def using offers_serves by metis
qed

text \<open>A deferred resource over one storage resource, and an object with a replica there.\<close>

definition sample_tree :: resc_tree where
  "sample_tree = Coordinating (Deferred (Inr ''d'')) [(''r'', Storage Unixfilesystem (sample_context ''h''))]"

definition sample_tree_env :: tree_env where
  "sample_tree_env = \<lparr>te_split = (\<lambda>_ _ _. None), te_cast = (\<lambda>_. None), te_mul = (*), te_cast_space = Map.empty, te_access = []\<rparr>"

definition sample_tree_object :: "rat \<Rightarrow> file_object" where
  "sample_tree_object v = (sample_object GOOD_REPLICA v)\<lparr>fo_replicas :=
     [\<lparr>po_id = 1, po_repl_num = 0, po_status = GOOD_REPLICA, po_resc_hier = ''d;r'', po_vote = v\<rparr>]\<rparr>"

lemma parse_tree_sample: "hierarchy_parser ''d;r'' = Inr [''d'', ''r'']"
  using hierarchy_parser_hp_str [of "[''d'', ''r'']"] by (simp add: hp_str_def Let_def valid_name_def DELIM_def)

lemma resolve_sample_tree:
  "resolve_tree sample_tree_env sample_tree OPEN_OPERATION [] 0 (sample_tree_object 0) = (Inr (SUCCESS, [''d'', ''r''], 1), sample_tree_object 1)"
proof -
  have "calculate Map.empty [] OPEN_OPERATION (sample_context ''h'') (sample_tree_object 0) = (Inr 1, sample_tree_object 1)"
    by (simp add: calculate_def calculators_def calculate_for_open_def calculate_with_repl_status_def throw_if_resource_is_down_def
        find_local_replica_def get_property_def sample_context_def sample_tree_object_def sample_object_def parse_tree_sample
        hp_last_resc_def Let_def)
  then show ?thesis
    by (simp add: sample_tree_def sample_tree_env_def deferred_file_resolve_hierarchy_def deferred_redirect_for_operation_def
        unix_file_resolve_hierarchy_def vote_or_error_def sbind_def get_property_def sample_name hp_add_child_def
        DELIM_def Let_def)
qed

lemma sample_tree_ok: "tree_ok oper f sample_tree" "fo_hier_str (sample_tree_object v) = None" "\<forall>w. te_mul sample_tree_env 0 w = 0"
  by (simp_all add: sample_tree_def name_ok_def valid_name_def sample_name sample_tree_object_def sample_object_def sample_tree_env_def)

theorem tree_resolution_reaches_storage_witness:
  "\<exists>path ctx i. (path, ctx) \<in> set (leaves sample_tree) \<and> [''d'', ''r''] = path \<and> serves sample_tree_env (sample_tree_object 0) ctx i"
  using tree_resolution_reaches_storage [OF sample_tree_ok(3,1) _ resolve_sample_tree] sample_tree_ok(2)
  by (auto simp: DELIM_def client_hierarchy_def)

text \<open>The root resources of a zone, by name.\<close>

definition tree_redirect :: "tree_env \<Rightarrow> (string \<times> resc_tree) list \<Rightarrow> redirect_env \<Rightarrow> redirect_env" where
  "tree_redirect env rs renv = renv\<lparr>re_call := (\<lambda>oper name. case map_of rs name of
      None \<Rightarrow> sreturn (ERROR KEY_NOT_FOUND, [], 0) | Some t \<Rightarrow> resolve_tree env t oper [] 0)\<rparr>"

text \<open>What every answer that counts has, the loop finds: in the best hierarchy, and in the object if the keyword's
  root has answered.\<close>

lemma vote_loop_invariant:
  assumes "records_votes_only env" "\<And>rt g err h v. object_view g = object_view f0 \<Longrightarrow> ok err \<Longrightarrow>
      fst (request_vote_for_file_object env oper rt g) = Inr (err, h, v) \<Longrightarrow> P h"
  shows "vote_loop env oper kw roots b f = (Inr b', f') \<Longrightarrow> object_view f = object_view f0 \<Longrightarrow>
    (max_vote b \<noteq> -1 \<longrightarrow> P (max_hier b)) \<Longrightarrow> (kw_match_found b \<longrightarrow> P (fo_resc_hier f)) \<Longrightarrow>
    object_view f' = object_view f0 \<and> (max_vote b' \<noteq> -1 \<longrightarrow> P (max_hier b')) \<and> (kw_match_found b' \<longrightarrow> P (fo_resc_hier f'))"
proof (induction roots arbitrary: b f)
  case (Cons rt roots)
  note vo = votes_onlyD [OF votes_only_request [OF assms(1), of oper rt]]
  obtain x f1 where c: "request_vote_for_file_object env oper rt f = (x, f1)" by (rule prod.exhaust)
  with Cons.prems(1) obtain err h v where x: "x = Inr (err, h, v)" by (cases x) (auto simp: vote_loop.simps sbind_def)
  have f1: "object_view f1 = object_view f0" "fo_resc_hier f1 = fo_resc_hier f" using vo(1,2) [of f] c Cons.prems(2) by simp_all
  have "fst (request_vote_for_file_object env oper rt f) = Inr (err, h, v)" using c x by simp
  then have P: "P h" if "ok err" using assms(2) [OF Cons.prems(2) that] by blast
  from Cons.prems(1) c x have "(if \<not> ok err then vote_loop env oper kw roots b f1
        else if kw_match_found b then vote_loop env oper kw roots b f1
        else
          (let m = (\<not> vote_is_zero v \<and> kw \<noteq> [] \<and> rt = kw);
               f' = (if m then f1\<lparr>fo_resc_hier := h\<rparr> else f1);
               b' = (if m then b\<lparr>kw_match_found := True\<rparr> else b)
           in vote_loop env oper kw roots
                (if v > max_vote b then b'\<lparr>max_vote := v, max_hier := h\<rparr> else b') f')) = (Inr b', f')"
    by (simp add: vote_loop.simps sbind_def)
  then show ?case using Cons.IH f1 P Cons.prems(3,4) by (auto simp: Let_def split: if_splits)
qed simp

lemma resolve_result:
  assumes "resolve_hier_for_open_or_write env kw oper f = (Inr h, f')"
  shows "\<exists>roots b f1. vote_loop env oper kw roots \<lparr>kw_match_found = False, max_hier = [], max_vote = -1\<rparr> f = (Inr b, f1) \<and>
    \<not> vote_is_zero (max_vote b) \<and> (fo_repl_requested f1 > -1 \<or> kw_match_found b \<and> h = fo_resc_hier f1 \<and> f' = f1 \<or>
      h = max_hier b \<and> f' = f1\<lparr>fo_resc_hier := max_hier b\<rparr>)"
proof -
  let ?b = "\<lparr>kw_match_found = False, max_hier = [], max_vote = -1\<rparr>"
  from assms obtain roots where roots: "root_map (fo_replicas f) [] = Inr roots" "roots \<noteq> []"
    unfolding resolve_hier_for_open_or_write_def by (auto split: sum.splits if_splits)
  obtain x f1 where l: "vote_loop env oper kw (map fst roots) ?b f = (x, f1)" by (rule prod.exhaust)
  from assms roots l obtain b where b: "x = Inr b" unfolding resolve_hier_for_open_or_write_def by (cases x) auto
  have "\<not> vote_is_zero (max_vote b) \<and> (fo_repl_requested f1 > -1 \<or> kw_match_found b \<and> h = fo_resc_hier f1 \<and> f' = f1 \<or>
      h = max_hier b \<and> f' = f1\<lparr>fo_resc_hier := max_hier b\<rparr>)"
    using assms roots l b unfolding resolve_hier_for_open_or_write_def by (auto split: if_splits)
  with l b show ?thesis by blast
qed

text \<open>When the selection over such trees returns a hierarchy for an existing object, without a requested replica, that
  hierarchy is one of a root resource: it is the text of a path of its tree to a storage resource that serves the
  object, or the client's own if the tree has a replication resource; and the object is left with that hierarchy.\<close>

lemma selected_serves:
  assumes "\<forall>w. te_mul env 0 w = 0" "fo_repl_requested f \<le> -1" "oper \<noteq> CREATE_OPERATION"
    "\<forall>x\<in>set rs. tree_ok oper f (snd x)" "resolve_hier_for_open_or_write (tree_redirect env rs renv) kw oper f = (Inr h, f')"
  shows "fo_resc_hier f' = h \<and> (\<exists>rt t. (rt, t) \<in> set rs \<and> \<not> re_has_parent renv rt \<and>
    ((\<exists>path ctx i. (path, ctx) \<in> set (leaves t) \<and> h = hp_str path [] \<and> serves env f ctx i) \<or>
     (\<exists>l. has_replication t \<and> client_hierarchy f l \<and> h = hp_str l [])))"
proof -
  let ?env = "tree_redirect env rs renv"
  let ?P = "\<lambda>h. \<exists>rt t. (rt, t) \<in> set rs \<and> \<not> re_has_parent renv rt \<and>
    ((\<exists>path ctx i. (path, ctx) \<in> set (leaves t) \<and> h = hp_str path [] \<and> serves env f ctx i) \<or>
     (\<exists>l. has_replication t \<and> client_hierarchy f l \<and> h = hp_str l []))"
  have votes: "records_votes_only ?env" unfolding records_votes_only_def tree_redirect_def
    using neutral_tree by (auto simp: neutral_def intro!: votes_intro split: option.split)
  have P: "?P h" if f: "object_view g = object_view f" "ok err" and r: "fst (request_vote_for_file_object ?env oper rt g) = Inr (err, h, v)" for rt g err h v
  proof -
    from request_Inr [OF r f(2)] obtain p e where call: "ok e" "fst (re_call ?env oper rt g) = Inr (e, p, v)" "h = hp_str p []" "\<not> vote_is_zero v"
      and "\<not> re_has_parent ?env rt"
      by (metis ok_simps(1))
    then have rt: "\<not> re_has_parent renv rt" by (simp add: tree_redirect_def)
    from call obtain t where t: "map_of rs rt = Some t" "fst (resolve_tree env t oper [] 0 g) = Inr (e, p, v)"
      by (cases "map_of rs rt") (auto simp: tree_redirect_def)
    then obtain g1 where g1: "resolve_tree env t oper [] 0 g = (Inr (e, p, v), g1)" by (cases "resolve_tree env t oper [] 0 g") auto
    from map_of_SomeD [OF t(1)] have in_rs: "(rt, t) \<in> set rs" .
    with assms(4) have ok: "tree_ok oper f t" by force
    have "v \<noteq> 0" using call(4) by (auto simp: vote_is_zero_def)
    with leads_toD(1) [OF leads_tree [OF assms(1) ok] f(1) _ g1 call(1)]
    have "continues env oper f (has_replication t) (set (leaves t)) [] p" by simp
    then consider ctx where "(p, ctx) \<in> set (leaves t)" "offers env oper f ctx" | "has_replication t" "client_hierarchy f p"
      by (auto simp: continues_def)
    then show ?thesis
    proof cases
      case (1 ctx)
      moreover obtain i where "serves env f ctx i" by (rule offers_serves [OF 1(2) assms(3)])
      ultimately show ?thesis using in_rs rt call(3) by blast
    qed (use in_rs rt call(3) in blast)
  qed
  from resolve_result [OF assms(5)] obtain roots b f1
    where l: "vote_loop ?env oper kw roots \<lparr>kw_match_found = False, max_hier = [], max_vote = -1\<rparr> f = (Inr b, f1)" "\<not> vote_is_zero (max_vote b)"
      and rest: "fo_repl_requested f1 > -1 \<or> kw_match_found b \<and> h = fo_resc_hier f1 \<and> f' = f1 \<or> h = max_hier b \<and> f' = f1\<lparr>fo_resc_hier := max_hier b\<rparr>"
    by blast
  have "object_view f1 = object_view f \<and> (max_vote b \<noteq> -1 \<longrightarrow> ?P (max_hier b)) \<and> (kw_match_found b \<longrightarrow> ?P (fo_resc_hier f1))"
  proof (rule vote_loop_invariant [where P = ?P, OF votes _ l(1) refl])
    show "?P h" if "object_view g = object_view f" "ok err" "fst (request_vote_for_file_object ?env oper rt g) = Inr (err, h, v)" for rt g err h v
      using that by (rule P)
  qed simp_all
  then have inv: "object_view f1 = object_view f" "max_vote b \<noteq> -1 \<longrightarrow> ?P (max_hier b)" "kw_match_found b \<longrightarrow> ?P (fo_resc_hier f1)"
    by blast+
  have "\<not> fo_repl_requested f1 > -1" using object_view_eqD(1) [OF inv(1)] assms(2) by simp
  with rest consider "kw_match_found b" "h = fo_resc_hier f1" "f' = f1" | "h = max_hier b" "f' = f1\<lparr>fo_resc_hier := max_hier b\<rparr>"
    by blast
  then show ?thesis
  proof cases
    case 1
    with inv(3) show ?thesis by blast
  next
    case 2
    moreover have "max_vote b \<noteq> -1" using l(2) by (auto simp: vote_is_zero_def)
    ultimately show ?thesis using inv(2) by simp
  qed
qed

end
