(* ===== verification/Resource_Manager.thy ===== *)
theory Resource_Manager
  imports Hierarchy_Parser Children_Parser Std_Number "HOL-Library.Multiset"
begin

text \<open>
  The table of resources of a server (\<^verbatim>\<open>server/core/src/irods_resource_manager.cpp\<close>), the resources in it
  (\<^verbatim>\<open>irods_resource_plugin.cpp\<close>) and their properties (\<^verbatim>\<open>irods_lookup_table.hpp\<close>). The manager is filled from the
  rows of the catalog, connects the resources to trees and translates between resource ids, names and
  hierarchies. Resources are shared between two tables and each other, so they are kept in a store and
  pointers are positions in it. Loops along the tree are \<open>partial_function\<close>s: on a cyclic catalog they do not
  return.
\<close>

section \<open>The model\<close>

abbreviation (input) SYS_RESC_DOES_NOT_EXIST :: int where "SYS_RESC_DOES_NOT_EXIST \<equiv> - 78000"
abbreviation (input) USER_NULL_INPUT_ERR :: int where "USER_NULL_INPUT_ERR \<equiv> - 316000"
abbreviation (input) KEY_TYPE_MISMATCH :: int where "KEY_TYPE_MISMATCH \<equiv> - 1801000"
abbreviation (input) BAD_HIERARCHY :: int where "BAD_HIERARCHY \<equiv> - 1803000"
abbreviation (input) NO_PDMO_DEFINED :: int where "NO_PDMO_DEFINED \<equiv> - 1806000"
abbreviation (input) INVALID_LEXICAL_CAST :: int where "INVALID_LEXICAL_CAST \<equiv> - 1819000"
abbreviation (input) PLUGIN_ERROR_MISSING_SHARED_OBJECT :: int where "PLUGIN_ERROR_MISSING_SHARED_OBJECT \<equiv> - 1827000"

subsection \<open>Lookup tables\<close>

text \<open>A table is the list of its entries in the order of iteration. That order is not specified: after an insertion
  it is the one \<open>order\<close> gives, provided it is an order of the keys.\<close>

definition lt_set :: "('k list \<Rightarrow> 'k list) \<Rightarrow> 'k \<Rightarrow> 'v \<Rightarrow> ('k \<times> 'v) list \<Rightarrow> ('k \<times> 'v) list" where
  "lt_set order k v t =
     (if map_of t k \<noteq> None then map (\<lambda>e. if fst e = k then (k, v) else e) t
      else let t' = (k, v) # t; ks = order (map fst t') in
        if distinct ks \<and> set ks = set (map fst t') then map (\<lambda>x. (x, the (map_of t' x))) ks else t')"

definition lt_erase :: "'k \<Rightarrow> ('k \<times> 'v) list \<Rightarrow> ('k \<times> 'v) list" where
  "lt_erase k t = filter (\<lambda>e. fst e \<noteq> k) t"

text \<open>Properties are values of any type; reading one as another type fails.\<close>

datatype any = AString string | ALong int | AInt int | AHost "nat option"

type_synonym property_map = "string \<rightharpoonup> any"

definition set_property :: "string \<Rightarrow> any \<Rightarrow> property_map \<Rightarrow> property_map" where
  "set_property k v p = (if k = [] then p else p(k \<mapsto> v))"

definition lookup_property :: "(any \<Rightarrow> 'a option) \<Rightarrow> property_map \<Rightarrow> string \<Rightarrow> int + 'a" where
  "lookup_property any_cast p k =
     (if k = [] then Inl KEY_NOT_FOUND
      else case p k of
        None \<Rightarrow> Inl KEY_NOT_FOUND
      | Some v \<Rightarrow> (case any_cast v of None \<Rightarrow> Inl KEY_TYPE_MISMATCH | Some x \<Rightarrow> Inr x))"

definition get_string :: "property_map \<Rightarrow> string \<Rightarrow> int + string" where
  "get_string = lookup_property (\<lambda>v. case v of AString s \<Rightarrow> Some s | _ \<Rightarrow> None)"

definition get_long :: "property_map \<Rightarrow> string \<Rightarrow> int + int" where
  "get_long = lookup_property (\<lambda>v. case v of ALong i \<Rightarrow> Some i | _ \<Rightarrow> None)"

definition get_host :: "property_map \<Rightarrow> string \<Rightarrow> int + nat option" where
  "get_host = lookup_property (\<lambda>v. case v of AHost h \<Rightarrow> Some h | _ \<Rightarrow> None)"

abbreviation RESOURCE_HOST :: string where "RESOURCE_HOST \<equiv> ''resource_property_host''"
abbreviation RESOURCE_ID :: string where "RESOURCE_ID \<equiv> ''resource_property_id''"
abbreviation RESOURCE_FREESPACE :: string where "RESOURCE_FREESPACE \<equiv> ''resource_property_freespace''"
abbreviation RESOURCE_QUOTA :: string where "RESOURCE_QUOTA \<equiv> ''resource_property_quota''"
abbreviation RESOURCE_ZONE :: string where "RESOURCE_ZONE \<equiv> ''resource_property_zone''"
abbreviation RESOURCE_NAME :: string where "RESOURCE_NAME \<equiv> ''resource_property_name''"
abbreviation RESOURCE_LOCATION :: string where "RESOURCE_LOCATION \<equiv> ''resource_property_location''"
abbreviation RESOURCE_TYPE :: string where "RESOURCE_TYPE \<equiv> ''resource_property_type''"
abbreviation RESOURCE_CLASS :: string where "RESOURCE_CLASS \<equiv> ''resource_property_class''"
abbreviation RESOURCE_PATH :: string where "RESOURCE_PATH \<equiv> ''resource_property_path''"
abbreviation RESOURCE_INFO :: string where "RESOURCE_INFO \<equiv> ''resource_property_info''"
abbreviation RESOURCE_COMMENTS :: string where "RESOURCE_COMMENTS \<equiv> ''resource_property_comments''"
abbreviation RESOURCE_CREATE_TS :: string where "RESOURCE_CREATE_TS \<equiv> ''resource_property_create_ts''"
abbreviation RESOURCE_MODIFY_TS :: string where "RESOURCE_MODIFY_TS \<equiv> ''resource_property_modify_ts''"
abbreviation RESOURCE_STATUS :: string where "RESOURCE_STATUS \<equiv> ''resource_property_status''"
abbreviation RESOURCE_PARENT :: string where "RESOURCE_PARENT \<equiv> ''resource_property_parent''"
abbreviation RESOURCE_PARENT_CONTEXT :: string where "RESOURCE_PARENT_CONTEXT \<equiv> ''resource_property_parent_context''"
abbreviation RESOURCE_CHILDREN :: string where "RESOURCE_CHILDREN \<equiv> ''resource_property_children''"
abbreviation RESOURCE_CONTEXT :: string where "RESOURCE_CONTEXT \<equiv> ''resource_property_context''"

subsection \<open>Resources\<close>

text \<open>The children are kept with their name, the data of the connection and the pointer. \<open>rs_pdmo\<close> is the operation to
  run after a disconnect, if the plugin has one.\<close>

record resource =
  rs_properties :: property_map
  rs_children :: "(string \<times> string \<times> nat) list"
  rs_parent :: "nat option"
  rs_pdmo :: "nat option"
  rs_needs_pdmo :: bool

definition add_child :: "(string list \<Rightarrow> string list) \<Rightarrow> string \<Rightarrow> string \<Rightarrow> nat option \<Rightarrow> resource \<Rightarrow> error \<times> resource" where
  "add_child order name data resc r =
     (if name = [] then (ERROR SYS_INVALID_INPUT_PARAM, r)
      else case resc of
        None \<Rightarrow> (ERROR SYS_INVALID_INPUT_PARAM, r)
      | Some a \<Rightarrow> (SUCCESS, r\<lparr>rs_children := lt_set order name (data, a) (rs_children r)\<rparr>))"

definition remove_child :: "string \<Rightarrow> resource \<Rightarrow> error \<times> resource" where
  "remove_child name r =
     (if map_of (rs_children r) name \<noteq> None then (SUCCESS, r\<lparr>rs_children := lt_erase name (rs_children r)\<rparr>)
      else (ERROR SYS_INVALID_INPUT_PARAM, r))"

definition set_parent :: "nat option \<Rightarrow> resource \<Rightarrow> error \<times> resource" where
  "set_parent resc r = (SUCCESS, r\<lparr>rs_parent := resc\<rparr>)"

definition get_parent :: "resource \<Rightarrow> error \<times> nat option" where
  "get_parent r = (if rs_parent r \<noteq> None then SUCCESS else ERROR SYS_INVALID_INPUT_PARAM, rs_parent r)"

definition num_children :: "resource \<Rightarrow> nat" where
  "num_children r = length (rs_children r)"

definition child_names :: "resource \<Rightarrow> string list" where
  "child_names r = map fst (rs_children r)"

subsection \<open>The manager\<close>

text \<open>What is outside of it: the order of the tables, the loading of a plugin with its own properties and maintenance
  operation, what its start and stop operations make of the properties, the address of a host and the cast
  of boost.\<close>

record catalog_env =
  ce_order :: "string list \<Rightarrow> string list"
  ce_load :: "string \<Rightarrow> string \<Rightarrow> string \<Rightarrow> int + (property_map \<times> nat option \<times> bool)"
  ce_resolve_host :: "string \<Rightarrow> string \<Rightarrow> nat option"
  ce_cast :: "string \<Rightarrow> int option"
  ce_start :: "resource \<Rightarrow> property_map"
  ce_stop :: "resource \<Rightarrow> property_map"

record resource_manager =
  store :: "resource list"
  resource_name_map :: "(string \<times> nat) list"
  resource_id_map :: "int \<rightharpoonup> nat"
  maintenance_operations :: "nat list list"

definition resource_manager :: resource_manager where
  "resource_manager = \<lparr>store = [], resource_name_map = [], resource_id_map = Map.empty, maintenance_operations = []\<rparr>"

abbreviation deref :: "resource_manager \<Rightarrow> nat \<Rightarrow> resource" where
  "deref m a \<equiv> store m ! a"

definition resolve :: "resource_manager \<Rightarrow> string \<Rightarrow> int + nat" where
  "resolve m key =
     (if key = [] then Inl SYS_INVALID_INPUT_PARAM
      else case map_of (resource_name_map m) key of Some a \<Rightarrow> Inr a | None \<Rightarrow> Inl SYS_RESC_DOES_NOT_EXIST)"

definition resolve_id :: "resource_manager \<Rightarrow> int \<Rightarrow> int + nat" where
  "resolve_id m i = (case resource_id_map m i of Some a \<Rightarrow> Inr a | None \<Rightarrow> Inl SYS_RESC_DOES_NOT_EXIST)"

definition impostor_resource :: resource where
  "impostor_resource = \<lparr>rs_properties = Map.empty, rs_children = [], rs_parent = None, rs_pdmo = None, rs_needs_pdmo = False\<rparr>"

definition load_resource_plugin :: "catalog_env \<Rightarrow> string \<Rightarrow> string \<Rightarrow> string \<Rightarrow> int + resource" where
  "load_resource_plugin env type inst context = (case ce_load env type inst context of
      Inr (props, op, needs) \<Rightarrow> Inr \<lparr>rs_properties = props, rs_children = [], rs_parent = None, rs_pdmo = op, rs_needs_pdmo = needs\<rparr>
    | Inl c \<Rightarrow> if c = PLUGIN_ERROR_MISSING_SHARED_OBJECT then Inr impostor_resource else Inl c)"

text \<open>The first resource of the host whose vault path occurs in the given path.\<close>

fun vault_loop :: "resource_manager \<Rightarrow> string \<Rightarrow> nat \<Rightarrow> (string \<times> nat) list \<Rightarrow> string option" where
  "vault_loop m physical_path host [] = None"
| "vault_loop m physical_path host (e # es) =
     (let props = rs_properties (deref m (snd e));
          svr_host = (case get_host props RESOURCE_HOST of Inr h \<Rightarrow> h | Inl _ \<Rightarrow> None) in
      if svr_host \<noteq> Some host then vault_loop m physical_path host es
      else case get_string props RESOURCE_PATH of
        Inl _ \<Rightarrow> vault_loop m physical_path host es
      | Inr path \<Rightarrow> if path \<noteq> [] \<and> contains_str physical_path path then Some path else vault_loop m physical_path host es)"

definition validate_vault_path :: "resource_manager \<Rightarrow> string \<Rightarrow> nat option \<Rightarrow> string \<Rightarrow> error \<times> string" where
  "validate_vault_path m physical_path svr_host out_path = (case svr_host of
      None \<Rightarrow> (ERROR USER_NULL_INPUT_ERR, out_path)
    | Some host \<Rightarrow>
        if resource_name_map m = [] then (ERROR SYS_INVALID_INPUT_PARAM, out_path)
        else if physical_path = [] then (ERROR SYS_INVALID_INPUT_PARAM, out_path)
        else case vault_loop m physical_path host (resource_name_map m) of
          Some path \<Rightarrow> (SUCCESS, path)
        | None \<Rightarrow> (ERROR SYS_INVALID_INPUT_PARAM, out_path))"

text \<open>The columns of the query of \<^verbatim>\<open>init_from_catalog\<close>.\<close>

record resc_row =
  row_id :: string
  row_name :: string
  row_zone :: string
  row_type :: string
  row_class :: string
  row_loc :: string
  row_path :: string
  row_free_space :: string
  row_info :: string
  row_comment :: string
  row_create :: string
  row_modify :: string
  row_status :: string
  row_children :: string
  row_context :: string
  row_parent :: string
  row_parent_context :: string

definition row_properties :: "catalog_env \<Rightarrow> resc_row \<Rightarrow> property_map \<Rightarrow> property_map" where
  "row_properties env row p =
     (let p = set_property RESOURCE_HOST (AHost (if ''EMPTY_RESC_HOST'' \<noteq> row_loc row
                then ce_resolve_host env (row_loc row) (row_zone row) else None)) p;
          p = set_property RESOURCE_ID (ALong (strtoll (row_id row))) p;
          p = set_property RESOURCE_QUOTA (ALong (-1)) p;
          p = set_property RESOURCE_STATUS (AInt (if row_status row = ''down'' then 1 else 0)) p;
          p = set_property RESOURCE_FREESPACE (AString (row_free_space row)) p;
          p = set_property RESOURCE_ZONE (AString (row_zone row)) p;
          p = set_property RESOURCE_NAME (AString (row_name row)) p;
          p = set_property RESOURCE_LOCATION (AString (row_loc row)) p;
          p = set_property RESOURCE_TYPE (AString (row_type row)) p;
          p = set_property RESOURCE_CLASS (AString (row_class row)) p;
          p = set_property RESOURCE_PATH (AString (row_path row)) p;
          p = set_property RESOURCE_INFO (AString (row_info row)) p;
          p = set_property RESOURCE_COMMENTS (AString (row_comment row)) p;
          p = set_property RESOURCE_CREATE_TS (AString (row_create row)) p;
          p = set_property RESOURCE_MODIFY_TS (AString (row_modify row)) p;
          p = set_property RESOURCE_CHILDREN (AString (row_children row)) p;
          p = set_property RESOURCE_CONTEXT (AString (row_context row)) p;
          p = set_property RESOURCE_PARENT (AString (row_parent row)) p
      in set_property RESOURCE_PARENT_CONTEXT (AString (row_parent_context row)) p)"

definition load_row :: "catalog_env \<Rightarrow> resc_row \<Rightarrow> resource_manager \<Rightarrow> resource_manager" where
  "load_row env row m = (case load_resource_plugin env (row_type row) (row_name row) (row_context row) of
      Inl _ \<Rightarrow> m
    | Inr resc \<Rightarrow>
        (let a = length (store m) in
         m\<lparr>store := store m @ [resc\<lparr>rs_properties := row_properties env row (rs_properties resc)\<rparr>],
           resource_name_map := lt_set (ce_order env) (row_name row) a (resource_name_map m),
           resource_id_map := (resource_id_map m)(strtoll (row_id row) \<mapsto> a)\<rparr>))"

definition update_resource :: "nat \<Rightarrow> (resource \<Rightarrow> error \<times> resource) \<Rightarrow> resource_manager \<Rightarrow> resource_manager" where
  "update_resource a f m = m\<lparr>store := (store m)[a := snd (f (deref m a))]\<rparr>"

definition connect :: "catalog_env \<Rightarrow> string \<times> nat \<Rightarrow> resource_manager \<Rightarrow> resource_manager" where
  "connect env e m =
     (let props = rs_properties (deref m (snd e)) in
      case get_string props RESOURCE_PARENT of
        Inl _ \<Rightarrow> m
      | Inr parent_id_str \<Rightarrow>
          if parent_id_str = [] then m
          else case ce_cast env parent_id_str of
            None \<Rightarrow> m
          | Some parent_id \<Rightarrow> (case resource_id_map m parent_id of
                None \<Rightarrow> m
              | Some parent_resc \<Rightarrow>
                  (let parent_child_context = (case get_string props RESOURCE_PARENT_CONTEXT of Inr c \<Rightarrow> c | Inl _ \<Rightarrow> [])
                   in update_resource (snd e) (set_parent (Some parent_resc))
                        (update_resource parent_resc (add_child (ce_order env) (fst e) parent_child_context (Some (snd e))) m))))"

definition init_child_map :: "catalog_env \<Rightarrow> resource_manager \<Rightarrow> resource_manager" where
  "init_child_map env m = fold (connect env) (resource_name_map m) m"

text \<open>The first loop of \<^verbatim>\<open>gather_operations_recursive\<close> over the children; the state is the list of resources that are
  done and the operations gathered.\<close>

fun gather_children :: "resource_manager \<Rightarrow> string list \<Rightarrow> string list \<times> nat list \<Rightarrow> error \<times> string list \<times> nat list" where
  "gather_children m [] st = (SUCCESS, st)"
| "gather_children m (child # cs) (proc_vec, resc_ops) = (case map_of (resource_name_map m) child of
      None \<Rightarrow> (ERROR SYS_INVALID_INPUT_PARAM, proc_vec, resc_ops)
    | Some a \<Rightarrow> gather_children m cs (proc_vec @ [child],
        case rs_pdmo (deref m a) of Some op \<Rightarrow> resc_ops @ [op] | None \<Rightarrow> resc_ops))"

definition gather_begin :: "resource_manager \<Rightarrow> string \<Rightarrow> string list \<times> nat list \<Rightarrow> string list \<times> error \<times> string list \<times> nat list" where
  "gather_begin m children st =
     (let children_list = map fst (snd (cp_set_string children)) in (children_list, gather_children m children_list st))"

text \<open>The second loop, with the recursion.\<close>

partial_function (option) gather_descend ::
  "resource_manager \<Rightarrow> string list \<Rightarrow> string list \<times> nat list \<Rightarrow> (error \<times> string list \<times> nat list) option" where
  "gather_descend m cs st = (case cs of
      [] \<Rightarrow> Some (SUCCESS, st)
    | child # cs \<Rightarrow> (case map_of (resource_name_map m) child of
        None \<Rightarrow> Some (ERROR SYS_INVALID_INPUT_PARAM, st)
      | Some a \<Rightarrow> (case get_string (rs_properties (deref m a)) RESOURCE_CHILDREN of
          Inl _ \<Rightarrow> gather_descend m cs st
        | Inr child_str \<Rightarrow>
            if child_str = [] then gather_descend m cs st
            else (case gather_begin m child_str st of
                (children_list, err, st') \<Rightarrow>
                  if \<not> ok err then gather_descend m cs st'
                  else Option.bind (gather_descend m children_list st') (\<lambda>(_, st'). gather_descend m cs st')))))"

definition gather_operations_recursive ::
  "resource_manager \<Rightarrow> string \<Rightarrow> string list \<times> nat list \<Rightarrow> (error \<times> string list \<times> nat list) option" where
  "gather_operations_recursive m children st = (case gather_begin m children st of
      (children_list, err, st') \<Rightarrow> if \<not> ok err then Some (err, st') else gather_descend m children_list st')"

fun gather_loop :: "resource_manager \<Rightarrow> (string \<times> nat) list \<Rightarrow> string list \<Rightarrow> nat list list \<Rightarrow> (error \<times> nat list list) option" where
  "gather_loop m [] proc_vec ops = Some (SUCCESS, ops)"
| "gather_loop m (e # es) proc_vec ops =
     (let resc = deref m (snd e) in
      case get_string (rs_properties resc) RESOURCE_NAME of
        Inl c \<Rightarrow> Some (ERROR c, ops)
      | Inr name \<Rightarrow>
          if name \<in> set proc_vec then gather_loop m es proc_vec ops
          else
            (let st = (proc_vec @ [name], case rs_pdmo resc of Some op \<Rightarrow> [op] | None \<Rightarrow> []);
                 st' = (case get_string (rs_properties resc) RESOURCE_CHILDREN of
                     Inl _ \<Rightarrow> Some st
                   | Inr child_str \<Rightarrow> if child_str = [] then Some st
                       else map_option snd (gather_operations_recursive m child_str st))
             in Option.bind st' (\<lambda>(proc_vec, resc_ops).
                  gather_loop m es proc_vec (if resc_ops \<noteq> [] then ops @ [resc_ops] else ops))))"

definition gather_operations :: "resource_manager \<Rightarrow> (error \<times> resource_manager) option" where
  "gather_operations m = map_option (\<lambda>(err, ops). (err, m\<lparr>maintenance_operations := ops\<rparr>))
     (gather_loop m (resource_name_map m) [] (maintenance_operations m))"

text \<open>The errors of the operations are logged only.\<close>

definition start_resource_plugins :: "catalog_env \<Rightarrow> resource_manager \<Rightarrow> error \<times> resource_manager" where
  "start_resource_plugins env m = (SUCCESS, fold (\<lambda>e. update_resource (snd e) (\<lambda>r. (SUCCESS, r\<lparr>rs_properties := ce_start env r\<rparr>)))
     (resource_name_map m) m)"

definition shut_down_resources :: "catalog_env \<Rightarrow> resource_manager \<Rightarrow> error \<times> resource_manager" where
  "shut_down_resources env m = (SUCCESS, fold (\<lambda>e. update_resource (snd e) (\<lambda>r. (SUCCESS, r\<lparr>rs_properties := ce_stop env r\<rparr>)))
     (resource_name_map m) m)"

definition init_from_catalog :: "catalog_env \<Rightarrow> resc_row list \<Rightarrow> resource_manager \<Rightarrow> (error \<times> resource_manager) option" where
  "init_from_catalog env rows m = map_option (\<lambda>(err, m). if \<not> ok err then (err, m) else start_resource_plugins env m)
     (gather_operations (init_child_map env (fold (load_row env) rows (m\<lparr>resource_name_map := []\<rparr>))))"

definition init_from_type :: "catalog_env \<Rightarrow> string \<Rightarrow> string \<Rightarrow> string \<Rightarrow> string \<Rightarrow> resource_manager \<Rightarrow> error \<times> resource_manager" where
  "init_from_type env type key inst ctx m = (case load_resource_plugin env type inst ctx of
      Inl c \<Rightarrow> (ERROR c, m)
    | Inr resc \<Rightarrow> (SUCCESS, m\<lparr>store := store m @ [resc],
        resource_name_map := lt_set (ce_order env) key (length (store m)) (resource_name_map m)\<rparr>))"

fun root_loop :: "resource_manager \<Rightarrow> (string \<times> nat) list \<Rightarrow> string list \<Rightarrow> error \<times> string list" where
  "root_loop m [] lst = (SUCCESS, lst)"
| "root_loop m (e # es) lst =
     (if ok (fst (get_parent (deref m (snd e)))) then root_loop m es lst
      else case get_string (rs_properties (deref m (snd e))) RESOURCE_NAME of
        Inl c \<Rightarrow> (ERROR c, lst)
      | Inr resc_name \<Rightarrow> root_loop m es (lst @ [resc_name]))"

definition get_root_resources :: "resource_manager \<Rightarrow> string list \<Rightarrow> error \<times> string list" where
  "get_root_resources m lst = root_loop m (resource_name_map m) lst"

definition get_parent_name :: "catalog_env \<Rightarrow> resource_manager \<Rightarrow> nat \<Rightarrow> int + string" where
  "get_parent_name env m a = (case get_string (rs_properties (deref m a)) RESOURCE_NAME of
      Inl c \<Rightarrow> Inl c
    | Inr my_name \<Rightarrow> (case get_string (rs_properties (deref m a)) RESOURCE_PARENT of
        Inl c \<Rightarrow> Inl c
      | Inr parent_id_str \<Rightarrow>
          if parent_id_str = [] then Inl BAD_HIERARCHY
          else case ce_cast env parent_id_str of
            None \<Rightarrow> Inl INVALID_LEXICAL_CAST
          | Some parent_id \<Rightarrow> (case resolve_id m parent_id of
              Inl c \<Rightarrow> Inl c
            | Inr parent_resc \<Rightarrow> get_string (rs_properties (deref m parent_resc)) RESOURCE_NAME)))"

partial_function (option) hier_to_root_loop ::
  "catalog_env \<Rightarrow> resource_manager \<Rightarrow> string \<Rightarrow> resc_list \<Rightarrow> resc_list throws option" where
  "hier_to_root_loop env m parent_name hierarchy =
     (if parent_name = [] then Some (Inr hierarchy)
      else case resolve m parent_name of
        Inl c \<Rightarrow> Some (Inl (irods_exception c))
      | Inr resc \<Rightarrow> (case get_parent_name env m resc of
          Inl c \<Rightarrow> Some (if BAD_HIERARCHY = c then Inr hierarchy else Inl (irods_exception c))
        | Inr parent_name \<Rightarrow>
            if parent_name \<noteq> [] then
              (case hp_add_parent hierarchy parent_name [] of
                 Inl e \<Rightarrow> Some (Inl e)
               | Inr hierarchy \<Rightarrow> hier_to_root_loop env m parent_name hierarchy)
            else hier_to_root_loop env m parent_name hierarchy))"

definition hier_to_root :: "catalog_env \<Rightarrow> resource_manager \<Rightarrow> string \<Rightarrow> string throws option" where
  "hier_to_root env m resource_name =
     (if resource_name = [] then Some (Inr [])
      else case hierarchy_parser resource_name of
        Inl e \<Rightarrow> Some (Inl e)
      | Inr hierarchy \<Rightarrow> map_option (\<lambda>r. tbind r (\<lambda>l. Inr (hp_str l []))) (hier_to_root_loop env m resource_name hierarchy))"

text \<open>The overload that returns an error, with the hierarchy as far as it was built.\<close>

partial_function (option) get_hier_to_root_loop ::
  "catalog_env \<Rightarrow> resource_manager \<Rightarrow> string \<Rightarrow> string \<Rightarrow> (error \<times> string) option" where
  "get_hier_to_root_loop env m parent_name hierarchy =
     (if parent_name = [] then Some (SUCCESS, hierarchy)
      else case resolve m parent_name of
        Inl c \<Rightarrow> Some (ERROR c, hierarchy)
      | Inr resc \<Rightarrow> (case get_parent_name env m resc of
          Inl c \<Rightarrow> Some (if BAD_HIERARCHY = c then SUCCESS else ERROR c, hierarchy)
        | Inr parent_name \<Rightarrow> get_hier_to_root_loop env m parent_name
            (if parent_name \<noteq> [] then parent_name @ DELIM @ hierarchy else hierarchy)))"

definition get_hier_to_root_for_resc :: "catalog_env \<Rightarrow> resource_manager \<Rightarrow> string \<Rightarrow> (error \<times> string) option" where
  "get_hier_to_root_for_resc env m resc_name = get_hier_to_root_loop env m resc_name resc_name"

text \<open>The leaves below the resources of a list, with the recursion of \<^verbatim>\<open>gather_leaf_bundle_for_child\<close> into the children.\<close>

partial_function (option) leaf_bundle_loop :: "resource_manager \<Rightarrow> string list \<Rightarrow> int list \<Rightarrow> (error \<times> int list) option" where
  "leaf_bundle_loop m cs bundle = (case cs of
      [] \<Rightarrow> Some (SUCCESS, bundle)
    | child # cs \<Rightarrow> Option.bind
        (case resolve m child of
           Inl c \<Rightarrow> Some (ERROR c, bundle)
         | Inr resc \<Rightarrow>
             if num_children (deref m resc) > 0 then leaf_bundle_loop m (child_names (deref m resc)) bundle
             else (case get_long (rs_properties (deref m resc)) RESOURCE_ID of
                 Inl c \<Rightarrow> Some (ERROR c, bundle)
               | Inr resc_id \<Rightarrow> Some (SUCCESS, bundle @ [resc_id])))
        (\<lambda>(err, bundle). if \<not> ok err then Some (err, bundle) else leaf_bundle_loop m cs bundle))"

definition gather_leaf_bundle_for_child :: "resource_manager \<Rightarrow> string \<Rightarrow> int list \<Rightarrow> (error \<times> int list) option" where
  "gather_leaf_bundle_for_child m resc_name bundle = leaf_bundle_loop m [resc_name] bundle"

fun leaf_bundles :: "resource_manager \<Rightarrow> string list \<Rightarrow> int list list throws option" where
  "leaf_bundles m [] = Some (Inr [])"
| "leaf_bundles m (child # cs) = Option.bind (gather_leaf_bundle_for_child m child []) (\<lambda>(err, bundle).
     if \<not> ok err then Some (Inl (irods_exception (code err)))
     else map_option (\<lambda>r. tbind r (\<lambda>bs. Inr (sort bundle # bs))) (leaf_bundles m cs))"

definition gather_leaf_bundles_for_resc :: "resource_manager \<Rightarrow> string \<Rightarrow> int list list throws option" where
  "gather_leaf_bundles_for_resc m resource_name = (case resolve m resource_name of
      Inl c \<Rightarrow> Some (Inl (irods_exception c))
    | Inr resc \<Rightarrow> leaf_bundles m (child_names (deref m resc)))"

definition need_maintenance_operations :: "resource_manager \<Rightarrow> bool" where
  "need_maintenance_operations m = list_ex (\<lambda>e. rs_needs_pdmo (deref m (snd e))) (resource_name_map m)"

text \<open>\<open>outcome\<close> is that of calling an operation, \<open>None\<close> for an empty function object.\<close>

definition call_maintenance_operations :: "(nat \<Rightarrow> error option) \<Rightarrow> resource_manager \<Rightarrow> int" where
  "call_maintenance_operations outcome m = foldl (foldl (\<lambda>result op. case outcome op of
      None \<Rightarrow> SYS_INTERNAL_ERR | Some ret \<Rightarrow> if \<not> ok ret then code ret else result)) 0 (maintenance_operations m)"

subsection \<open>Names, ids and hierarchies\<close>

definition hier_to_leaf_id :: "resource_manager \<Rightarrow> string \<Rightarrow> int throws" where
  "hier_to_leaf_id m hierarchy =
     (if hierarchy = [] then Inl (irods_exception BAD_HIERARCHY)
      else tbind (hierarchy_parser hierarchy) (\<lambda>l.
        case map_of (resource_name_map m) (hp_last_resc l) of
          None \<Rightarrow> Inl (irods_exception SYS_RESC_DOES_NOT_EXIST)
        | Some resc \<Rightarrow> (case get_long (rs_properties (deref m resc)) RESOURCE_ID of
            Inl c \<Rightarrow> Inl (irods_exception c) | Inr i \<Rightarrow> Inr i)))"

definition hier_to_leaf_id_out :: "resource_manager \<Rightarrow> string \<Rightarrow> int \<Rightarrow> (error \<times> int) throws" where
  "hier_to_leaf_id_out m hier i =
     (if hier = [] then Inr (ERROR BAD_HIERARCHY, i)
      else tbind (hp_set_string hier) (\<lambda>(_, l).
        case map_of (resource_name_map m) (hp_last_resc l) of
          None \<Rightarrow> Inr (ERROR SYS_RESC_DOES_NOT_EXIST, i)
        | Some resc \<Rightarrow> Inr (case get_long (rs_properties (deref m resc)) RESOURCE_ID of
            Inl c \<Rightarrow> (ERROR c, i) | Inr leaf \<Rightarrow> (SUCCESS, leaf))))"

partial_function (option) leaf_hier_loop :: "resource_manager \<Rightarrow> nat option \<Rightarrow> resc_list \<Rightarrow> resc_list throws option" where
  "leaf_hier_loop m resc parser = (case resc of
      None \<Rightarrow> Some (Inr parser)
    | Some a \<Rightarrow> (case get_string (rs_properties (deref m a)) RESOURCE_NAME of
        Inl c \<Rightarrow> Some (Inl (irods_exception c))
      | Inr name \<Rightarrow> (case hp_add_parent parser name [] of
          Inl e \<Rightarrow> Some (Inl e)
        | Inr parser \<Rightarrow> leaf_hier_loop m (snd (get_parent (deref m a))) parser)))"

definition leaf_id_to_hier :: "resource_manager \<Rightarrow> int \<Rightarrow> string throws option" where
  "leaf_id_to_hier m i = (case resource_id_map m i of
      None \<Rightarrow> Some (Inl (irods_exception SYS_RESC_DOES_NOT_EXIST))
    | Some a \<Rightarrow> (case get_string (rs_properties (deref m a)) RESOURCE_NAME of
        Inl c \<Rightarrow> Some (Inl (irods_exception c))
      | Inr leaf_name \<Rightarrow> (case hierarchy_parser leaf_name of
          Inl e \<Rightarrow> Some (Inl e)
        | Inr parser \<Rightarrow> map_option (\<lambda>r. tbind r (\<lambda>l. Inr (hp_str l []))) (leaf_hier_loop m (snd (get_parent (deref m a))) parser))))"

partial_function (option) leaf_hier_out_loop :: "resource_manager \<Rightarrow> nat option \<Rightarrow> string \<Rightarrow> (int + string) option" where
  "leaf_hier_out_loop m resc hier = (case resc of
      None \<Rightarrow> Some (Inr hier)
    | Some a \<Rightarrow> (case get_string (rs_properties (deref m a)) RESOURCE_NAME of
        Inl c \<Rightarrow> Some (Inl c)
      | Inr name \<Rightarrow> leaf_hier_out_loop m (snd (get_parent (deref m a))) (name @ '';'' @ hier)))"

definition leaf_id_to_hier_out :: "resource_manager \<Rightarrow> int \<Rightarrow> string \<Rightarrow> (error \<times> string) option" where
  "leaf_id_to_hier_out m i hier = (case resource_id_map m i of
      None \<Rightarrow> Some (ERROR SYS_RESC_DOES_NOT_EXIST, hier)
    | Some a \<Rightarrow> (case get_string (rs_properties (deref m a)) RESOURCE_NAME of
        Inl c \<Rightarrow> Some (ERROR c, hier)
      | Inr name \<Rightarrow> map_option (\<lambda>r. case r of Inl c \<Rightarrow> (ERROR c, hier) | Inr h \<Rightarrow> (SUCCESS, h))
          (leaf_hier_out_loop m (snd (get_parent (deref m a))) name)))"

fun all_hierarchies :: "resource_manager \<Rightarrow> (string \<times> nat) list \<Rightarrow> string list throws option" where
  "all_hierarchies m [] = Some (Inr [])"
| "all_hierarchies m (e # es) =
     (let resc = deref m (snd e) in
      if num_children resc > 0 then all_hierarchies m es
      else case get_long (rs_properties resc) RESOURCE_ID of
        Inl c \<Rightarrow> Some (Inl (irods_exception c))
      | Inr leaf_id \<Rightarrow> Option.bind (leaf_id_to_hier_out m leaf_id []) (\<lambda>(err, curr_hier).
          if \<not> ok err then Some (Inl (irods_exception (code err)))
          else map_option (\<lambda>r. tbind r (\<lambda>hs. Inr (curr_hier # hs))) (all_hierarchies m es)))"

definition get_all_resc_hierarchies :: "resource_manager \<Rightarrow> string list throws option" where
  "get_all_resc_hierarchies m = all_hierarchies m (resource_name_map m)"

definition resc_id_to_name :: "resource_manager \<Rightarrow> int \<Rightarrow> string throws" where
  "resc_id_to_name m i =
     (if i = 0 then Inr []
      else case resource_id_map m i of
        None \<Rightarrow> Inl (irods_exception SYS_RESC_DOES_NOT_EXIST)
      | Some a \<Rightarrow> (case get_string (rs_properties (deref m a)) RESOURCE_NAME of
          Inl c \<Rightarrow> Inl (irods_exception c) | Inr n \<Rightarrow> Inr n))"

definition resc_id_str_to_name :: "catalog_env \<Rightarrow> resource_manager \<Rightarrow> string \<Rightarrow> string throws" where
  "resc_id_str_to_name env m s =
     (if s = [] then Inr []
      else case ce_cast env s of None \<Rightarrow> Inl (irods_exception INVALID_LEXICAL_CAST) | Some i \<Rightarrow> resc_id_to_name m i)"

definition resc_id_to_name_out :: "resource_manager \<Rightarrow> int \<Rightarrow> string \<Rightarrow> error \<times> string" where
  "resc_id_to_name_out m i name =
     (if i = 0 then (SUCCESS, name)
      else case resource_id_map m i of
        None \<Rightarrow> (ERROR SYS_RESC_DOES_NOT_EXIST, name)
      | Some a \<Rightarrow> (case get_string (rs_properties (deref m a)) RESOURCE_NAME of
          Inl c \<Rightarrow> (ERROR c, name) | Inr n \<Rightarrow> (SUCCESS, n)))"

definition resc_id_str_to_name_out :: "catalog_env \<Rightarrow> resource_manager \<Rightarrow> string \<Rightarrow> string \<Rightarrow> error \<times> string" where
  "resc_id_str_to_name_out env m s name =
     (if s = ''0'' \<or> s = [] then (SUCCESS, name)
      else case ce_cast env s of
        None \<Rightarrow> (ERROR INVALID_LEXICAL_CAST, name)
      | Some i \<Rightarrow> (case resource_id_map m i of
          None \<Rightarrow> (ERROR SYS_RESC_DOES_NOT_EXIST, name)
        | Some a \<Rightarrow> (case get_string (rs_properties (deref m a)) RESOURCE_NAME of
            Inl c \<Rightarrow> (ERROR c, name) | Inr n \<Rightarrow> (SUCCESS, n))))"

definition is_coordinating_resource_out :: "resource_manager \<Rightarrow> string \<Rightarrow> bool \<Rightarrow> error \<times> bool" where
  "is_coordinating_resource_out m resc_name ret = (case map_of (resource_name_map m) resc_name of
      None \<Rightarrow> (ERROR SYS_RESC_DOES_NOT_EXIST, ret)
    | Some a \<Rightarrow> (SUCCESS, num_children (deref m a) > 0))"

definition is_coordinating_resource :: "resource_manager \<Rightarrow> string \<Rightarrow> bool throws" where
  "is_coordinating_resource m resc_name = (case map_of (resource_name_map m) resc_name of
      None \<Rightarrow> Inl (irods_exception SYS_RESC_DOES_NOT_EXIST)
    | Some a \<Rightarrow> Inr (num_children (deref m a) > 0))"

section \<open>Lookup tables are dictionaries\<close>

lemma map_of_keys: "x \<in> set ks \<Longrightarrow> map_of (map (\<lambda>x. (x, f x)) ks) x = Some (f x)"
  by (induction ks) auto

lemma map_of_keys_None: "map_of (map (\<lambda>x. (x, f x)) ks) x = None \<longleftrightarrow> x \<notin> set ks"
  by (induction ks) auto

lemma lt_set_replaced: "map_of (map (\<lambda>e. if fst e = k then (k, v) else e) t) x = (if x = k \<and> map_of t k \<noteq> None then Some v else map_of t x)"
  by (induction t) auto

lemma keys_lt_set: "map_of t k \<noteq> None \<Longrightarrow> map fst (lt_set order k v t) = map fst t"
  by (auto simp: lt_set_def)

lemma map_of_reordered:
  assumes "set ks = set (map fst t)"
  shows "map_of (map (\<lambda>x. (x, the (map_of t x))) ks) = map_of t"
proof
  fix x
  show "map_of (map (\<lambda>x. (x, the (map_of t x))) ks) x = map_of t x"
  proof (cases "x \<in> set ks")
    case True
    then obtain v where "map_of t x = Some v" using assms by (cases "map_of t x") (auto simp: map_of_eq_None_iff)
    with True show ?thesis by (simp add: map_of_keys)
  next
    case False
    then have "map_of t x = None" using assms by (simp add: map_of_eq_None_iff)
    with False show ?thesis by (simp add: map_of_keys_None)
  qed
qed

lemma map_of_lt_set: "map_of (lt_set order k v t) = (map_of t)(k \<mapsto> v)"
proof (cases "map_of t k = None")
  case True
  let ?t = "(k, v) # t"
  have "map_of (lt_set order k v t) = map_of ?t"
    using map_of_reordered [of "order (map fst ?t)" ?t] by (simp add: lt_set_def True Let_def)
  then show ?thesis by simp
next
  case False
  then show ?thesis by (auto simp: lt_set_def lt_set_replaced fun_eq_iff)
qed

lemma distinct_lt_set: "distinct (map fst t) \<Longrightarrow> distinct (map fst (lt_set order k v t))"
proof (cases "map_of t k = None")
  case True
  then show "distinct (map fst t) \<Longrightarrow> ?thesis"
    by (auto simp: lt_set_def Let_def map_of_eq_None_iff comp_def)
qed (simp add: keys_lt_set)

lemma map_of_lt_erase: "map_of (lt_erase k t) = (map_of t)(k := None)"
  by (induction t) (auto simp: lt_erase_def fun_eq_iff)

interpretation lt: dictionary "[]" map_of "lt_set order" lt_erase "\<lambda>t. t" "\<lambda>t. distinct (map fst t)" for order
  by unfold_locales (auto simp: map_of_lt_set map_of_lt_erase distinct_lt_set, auto simp: lt_erase_def distinct_map_filter)

section \<open>The tables after loading\<close>

lemma row_lookup:
  "get_string (row_properties env row p) RESOURCE_NAME = Inr (row_name row)"
  "get_long (row_properties env row p) RESOURCE_ID = Inr (strtoll (row_id row))"
  "get_string (row_properties env row p) RESOURCE_PARENT = Inr (row_parent row)"
  "get_string (row_properties env row p) RESOURCE_PARENT_CONTEXT = Inr (row_parent_context row)"
  "get_string (row_properties env row p) RESOURCE_CHILDREN = Inr (row_children row)"
  by (simp_all add: row_properties_def get_string_def get_long_def lookup_property_def set_property_def Let_def)

text \<open>The rows whose plugins can be loaded; the \<open>a\<close>-th of them is the resource at address \<open>a\<close>.\<close>

definition loads :: "catalog_env \<Rightarrow> resc_row \<Rightarrow> bool" where
  "loads env row = (\<exists>r. load_resource_plugin env (row_type row) (row_name row) (row_context row) = Inr r)"

definition same_row :: "resc_row \<Rightarrow> resource \<Rightarrow> bool" where
  "same_row row r = (get_string (rs_properties r) RESOURCE_NAME = Inr (row_name row) \<and>
     get_long (rs_properties r) RESOURCE_ID = Inr (strtoll (row_id row)) \<and>
     get_string (rs_properties r) RESOURCE_PARENT = Inr (row_parent row) \<and>
     get_string (rs_properties r) RESOURCE_PARENT_CONTEXT = Inr (row_parent_context row) \<and>
     get_string (rs_properties r) RESOURCE_CHILDREN = Inr (row_children row))"

definition tables :: "resc_row list \<Rightarrow> resource_manager \<Rightarrow> bool" where
  "tables rs m = (list_all2 same_row rs (store m) \<and> distinct (map fst (resource_name_map m)) \<and>
     (\<forall>n a. map_of (resource_name_map m) n = Some a \<longleftrightarrow> a < length rs \<and> row_name (rs ! a) = n) \<and>
     (\<forall>i a. resource_id_map m i = Some a \<longleftrightarrow> a < length rs \<and> strtoll (row_id (rs ! a)) = i))"

lemma tables_load_row:
  assumes "tables rs m" "loads env row" "row_name row \<notin> row_name ` set rs" "strtoll (row_id row) \<notin> (\<lambda>r. strtoll (row_id r)) ` set rs"
  shows "tables (rs @ [row]) (load_row env row m)"
proof -
  from assms(2) obtain r where r: "load_resource_plugin env (row_type row) (row_name row) (row_context row) = Inr r"
    by (auto simp: loads_def)
  have len: "length (store m) = length rs" using assms(1) by (auto simp: tables_def dest: list_all2_lengthD)
  have new: "row_name (rs ! a) \<noteq> row_name row \<and> strtoll (row_id (rs ! a)) \<noteq> strtoll (row_id row)" if "a < length rs" for a
    using assms(3,4) nth_mem [OF that] unfolding image_iff by metis
  have "same_row row (r\<lparr>rs_properties := row_properties env row (rs_properties r)\<rparr>)" by (simp add: same_row_def row_lookup)
  moreover have "(\<forall>n a. ((map_of (resource_name_map m))(row_name row \<mapsto> length rs)) n = Some a \<longleftrightarrow>
      a < length (rs @ [row]) \<and> row_name ((rs @ [row]) ! a) = n)"
    using assms(1) new by (auto simp: tables_def nth_append less_Suc_eq)
  moreover have "(\<forall>i a. ((resource_id_map m)(strtoll (row_id row) \<mapsto> length rs)) i = Some a \<longleftrightarrow>
      a < length (rs @ [row]) \<and> strtoll (row_id ((rs @ [row]) ! a)) = i)"
    using assms(1) new by (auto simp: tables_def nth_append less_Suc_eq)
  ultimately show ?thesis
    using assms(1) r len
    by (auto simp: load_row_def Let_def tables_def map_of_lt_set distinct_lt_set list_all2_appendI)
qed

lemma tables_load:
  assumes "distinct (map row_name (rs @ filter (loads env) rows))" "distinct (map (\<lambda>r. strtoll (row_id r)) (rs @ filter (loads env) rows))"
  shows "tables rs m \<Longrightarrow> tables (rs @ filter (loads env) rows) (fold (load_row env) rows m)"
  using assms
proof (induction rows arbitrary: rs m)
  case (Cons row rows)
  show ?case
  proof (cases "loads env row")
    case True
    then have "tables (rs @ [row]) (load_row env row m)"
      using Cons.prems by (intro tables_load_row) auto
    from Cons.IH [OF this] True Cons.prems(2,3) show ?thesis by simp
  next
    case False
    then have "load_row env row m = m" by (auto simp: load_row_def loads_def split: sum.split)
    with False Cons show ?thesis by simp
  qed
qed simp

section \<open>The tree after connecting\<close>

text \<open>The row that is the parent of the \<open>a\<close>-th one.\<close>

definition parent_of :: "catalog_env \<Rightarrow> resc_row list \<Rightarrow> nat \<Rightarrow> nat option" where
  "parent_of env rs a =
     (if row_parent (rs ! a) = [] then None
      else case ce_cast env (row_parent (rs ! a)) of
        None \<Rightarrow> None
      | Some i \<Rightarrow> List.find (\<lambda>p. strtoll (row_id (rs ! p)) = i) [0..<length rs])"

lemma parent_of_bound: "parent_of env rs a = Some p \<Longrightarrow> p < length rs"
  by (auto simp: parent_of_def find_Some_iff split: if_splits option.splits)

lemma id_map_find:
  assumes "tables rs m"
  shows "resource_id_map m i = List.find (\<lambda>p. strtoll (row_id (rs ! p)) = i) [0..<length rs]"
proof (cases "List.find (\<lambda>p. strtoll (row_id (rs ! p)) = i) [0..<length rs]")
  case None
  then have "\<nexists>p. resource_id_map m i = Some p" using assms by (auto simp: tables_def find_None_iff)
  with None show ?thesis by auto
next
  case (Some p)
  then have "p < length rs" "strtoll (row_id (rs ! p)) = i" by (auto simp: find_Some_iff)
  then have "resource_id_map m i = Some p" using assms by (auto simp: tables_def)
  with Some show ?thesis by simp
qed

lemma tables_at:
  assumes "tables rs m" "a < length rs"
  shows "same_row (rs ! a) (deref m a)" "a < length (store m)"
  using assms list_all2_nthD [of same_row rs "store m" a] list_all2_lengthD [of same_row rs "store m"] by (auto simp: tables_def)

text \<open>The state after the entries for the addresses in \<open>D\<close> are connected.\<close>

definition connected :: "catalog_env \<Rightarrow> resc_row list \<Rightarrow> nat set \<Rightarrow> resource_manager \<Rightarrow> bool" where
  "connected env rs D m = (tables rs m \<and> D \<subseteq> {..<length rs} \<and> (\<forall>a<length rs.
     rs_parent (deref m a) = (if a \<in> D then parent_of env rs a else None) \<and>
     distinct (map fst (rs_children (deref m a))) \<and>
     (\<forall>n ctx c. map_of (rs_children (deref m a)) n = Some (ctx, c) \<longleftrightarrow>
        c \<in> D \<and> parent_of env rs c = Some a \<and> row_name (rs ! c) = n \<and> ctx = row_parent_context (rs ! c))))"

lemma tables_update:
  assumes "tables rs m" "\<And>r row. same_row row r \<Longrightarrow> same_row row (snd (f r))"
  shows "tables rs (update_resource a f m)"
proof -
  have "same_row row ((store m)[a := snd (f (deref m a))] ! b)" if "b < length (store m)" "same_row row (deref m b)" for b row
    using that assms(2) by (cases "a = b") simp_all
  then have "list_all2 same_row rs ((store m)[a := snd (f (deref m a))])"
    using assms(1) by (simp add: tables_def list_all2_conv_all_nth)
  then show ?thesis using assms(1) by (simp add: tables_def update_resource_def)
qed

lemma connect_none:
  assumes "tables rs m" "c < length rs" "parent_of env rs c = None"
  shows "connect env (n, c) m = m"
  using tables_at(1) [OF assms(1,2)] assms(3) id_map_find [OF assms(1)]
  by (auto simp: connect_def same_row_def parent_of_def Let_def split: if_splits option.splits)

lemma connect_some:
  assumes "tables rs m" "c < length rs" "parent_of env rs c = Some p"
  shows "connect env (n, c) m = update_resource c (set_parent (Some p))
     (update_resource p (add_child (ce_order env) n (row_parent_context (rs ! c)) (Some c)) m)"
  using tables_at(1) [OF assms(1,2)] assms(3) id_map_find [OF assms(1)]
  by (auto simp: connect_def same_row_def parent_of_def Let_def split: if_splits option.splits)

lemma deref_update: "b < length (store m) \<Longrightarrow> deref (update_resource a f m) b = (if a = b then snd (f (deref m a)) else deref m b)"
  by (auto simp: update_resource_def nth_list_update)

lemma connected_connect:
  assumes "connected env rs D m" "c < length rs" "c \<notin> D" "row_name (rs ! c) \<noteq> []" "distinct (map row_name rs)"
  shows "connected env rs (insert c D) (connect env (row_name (rs ! c), c) m)"
proof (cases "parent_of env rs c")
  case None
  with assms show ?thesis by (auto simp: connected_def connect_none)
next
  case (Some p)
  from assms(1) have t: "tables rs m" by (simp add: connected_def)
  let ?n = "row_name (rs ! c)" and ?ctx = "row_parent_context (rs ! c)"
  let ?m1 = "update_resource p (add_child (ce_order env) ?n ?ctx (Some c)) m"
  let ?m = "update_resource c (set_parent (Some p)) ?m1"
  have m: "connect env (?n, c) m = ?m" by (rule connect_some [OF t assms(2) Some])
  have t1: "tables rs ?m1" using t by (rule tables_update) (simp add: add_child_def same_row_def)
  then have t2: "tables rs ?m" by (rule tables_update) (simp add: set_parent_def same_row_def)
  have parent: "rs_parent (deref ?m a) = (if a = c then Some p else rs_parent (deref m a))" if "a < length rs" for a
    using tables_at(2) [OF t that] tables_at(2) [OF t1 that] assms(4) by (auto simp: deref_update set_parent_def add_child_def)
  have children: "rs_children (deref ?m a) = (if a = p then lt_set (ce_order env) ?n (?ctx, c) (rs_children (deref m a)) else rs_children (deref m a))"
    if "a < length rs" for a
    using tables_at(2) [OF t that] tables_at(2) [OF t1 that] assms(4) by (auto simp: deref_update set_parent_def add_child_def)
  have other: "row_name (rs ! d) \<noteq> ?n" if "d \<in> D" for d
    using that assms(1,2,3,5) unfolding connected_def subset_iff lessThan_iff by (metis length_map nth_eq_iff_index_eq nth_map)
  show ?thesis unfolding connected_def m
  proof (intro conjI allI impI)
    fix a assume a: "a < length rs"
    show "rs_parent (deref ?m a) = (if a \<in> insert c D then parent_of env rs a else None)"
      using assms(1) a Some by (auto simp: parent connected_def)
    show "distinct (map fst (rs_children (deref ?m a)))"
      using assms(1) a by (auto simp: children connected_def distinct_lt_set)
    fix n ctx d
    show "(map_of (rs_children (deref ?m a)) n = Some (ctx, d)) = (d \<in> insert c D \<and> parent_of env rs d = Some a \<and>
        row_name (rs ! d) = n \<and> ctx = row_parent_context (rs ! d))"
      using assms(1,3) a Some other by (auto simp: children map_of_lt_set connected_def)
  qed (use t2 assms(1,2) in \<open>auto simp: connected_def\<close>)
qed

lemma connected_fold:
  assumes "distinct (map row_name rs)" "[] \<notin> row_name ` set rs"
  shows "\<lbrakk>connected env rs D m; distinct (map snd es); D \<inter> snd ` set es = {};
    \<forall>e\<in>set es. snd e < length rs \<and> row_name (rs ! snd e) = fst e\<rbrakk> \<Longrightarrow>
    connected env rs (D \<union> snd ` set es) (fold (connect env) es m)"
proof (induction es arbitrary: D m)
  case (Cons e es)
  then have e: "snd e < length rs" "e = (row_name (rs ! snd e), snd e)" "snd e \<notin> D" by (auto simp: prod_eq_iff)
  have "row_name (rs ! snd e) \<noteq> []" using assms(2) nth_mem [OF e(1)] by (metis imageI)
  from connected_connect [OF Cons.prems(1) e(1,3) this assms(1)]
  have "connected env rs (insert (snd e) D) (connect env e m)" using e(2) by simp
  from Cons.IH [OF this] Cons.prems show ?case by auto
qed simp

text \<open>Before they are connected, the resources loaded have no parents and no children.\<close>

definition unconnected :: "resource_manager \<Rightarrow> bool" where
  "unconnected m = list_all (\<lambda>r. rs_parent r = None \<and> rs_children r = []) (store m)"

lemma unconnected_load: "unconnected m \<Longrightarrow> unconnected (fold (load_row env) rows m)"
proof (induction rows arbitrary: m)
  case (Cons row rows)
  have "rs_parent r = None \<and> rs_children r = []" if "load_resource_plugin env t n c = Inr r" for t n c r
    using that by (auto simp: load_resource_plugin_def impostor_resource_def split: sum.splits if_splits prod.splits)
  then have "unconnected (load_row env row m)"
    using Cons.prems by (auto simp: unconnected_def load_row_def Let_def split: sum.split)
  from Cons.IH [OF this] show ?case by simp
qed simp

text \<open>The catalog: different ids, and different names that can be printed and parsed. The start operations of the plugins
  leave the identity of their resources alone.\<close>

definition starts_ok :: "catalog_env \<Rightarrow> bool" where
  "starts_ok env = (\<forall>r row. same_row row r \<longrightarrow> same_row row (r\<lparr>rs_properties := ce_start env r\<rparr>))"

definition catalog_ok :: "catalog_env \<Rightarrow> resc_row list \<Rightarrow> bool" where
  "catalog_ok env rows = (let rs = filter (loads env) rows in starts_ok env \<and>
     distinct (map row_name rs) \<and> distinct (map (\<lambda>r. strtoll (row_id r)) rs) \<and> list_all (\<lambda>r. valid_name (row_name r)) rs)"

abbreviation wired :: "catalog_env \<Rightarrow> resc_row list \<Rightarrow> resource_manager \<Rightarrow> bool" where
  "wired env rs m \<equiv> connected env rs {..<length rs} m"

lemma name_map_addresses:
  assumes "tables rs m"
  shows "distinct (map snd (resource_name_map m))" "snd ` set (resource_name_map m) = {..<length rs}"
    "\<forall>e\<in>set (resource_name_map m). snd e < length rs \<and> row_name (rs ! snd e) = fst e"
proof -
  have iff: "e \<in> set (resource_name_map m) \<longleftrightarrow> snd e < length rs \<and> row_name (rs ! snd e) = fst e" for e
    using assms lt.in_entries [of "resource_name_map m" e] by (simp add: tables_def)
  then show "\<forall>e\<in>set (resource_name_map m). snd e < length rs \<and> row_name (rs ! snd e) = fst e" by blast
  have "inj_on snd (set (resource_name_map m))" by (rule inj_onI) (auto simp: iff prod_eq_iff)
  moreover have "distinct (resource_name_map m)" using assms by (simp add: tables_def distinct_map)
  ultimately show "distinct (map snd (resource_name_map m))" by (simp add: distinct_map)
  have "a \<in> snd ` set (resource_name_map m)" if "a < length rs" for a
    using that by (intro image_eqI [of _ _ "(row_name (rs ! a), a)"]) (simp_all add: iff)
  then show "snd ` set (resource_name_map m) = {..<length rs}" by (auto simp: iff)
qed

lemma wired_init:
  assumes "catalog_ok env rows" "rs = filter (loads env) rows"
  shows "wired env rs (init_child_map env (fold (load_row env) rows resource_manager))"
proof -
  let ?m = "fold (load_row env) rows resource_manager"
  have dist: "distinct (map row_name rs)" "distinct (map (\<lambda>r. strtoll (row_id r)) rs)" "[] \<notin> row_name ` set rs"
    using assms by (auto simp: catalog_ok_def Let_def list_all_iff valid_name_def)
  have "tables [] resource_manager" by (simp add: tables_def resource_manager_def)
  from tables_load [OF _ _ this, of env rows] have t: "tables rs ?m" using dist assms(2) by simp
  have "unconnected ?m" by (rule unconnected_load) (simp add: unconnected_def resource_manager_def)
  then have "connected env rs {} ?m" using t tables_at(2) [OF t] by (simp add: connected_def unconnected_def list_all_length)
  from connected_fold [OF dist(1,3) this name_map_addresses(1) [OF t] _ name_map_addresses(3) [OF t]]
  show ?thesis by (simp add: init_child_map_def name_map_addresses(2) [OF t])
qed

section \<open>Maintenance operations are gathered\<close>

text \<open>A numbering of the rows that decreases along the children named in the column of children.\<close>

definition children_ranked :: "(nat \<Rightarrow> nat) \<Rightarrow> resc_row list \<Rightarrow> bool" where
  "children_ranked rank rs = (\<forall>a<length rs. \<forall>b<length rs.
     row_name (rs ! b) \<in> set (map fst (snd (cp_set_string (row_children (rs ! a))))) \<longrightarrow> rank b < rank a)"

lemma gather_descend_Nil: "gather_descend m [] st = Some (SUCCESS, st)"
  by (subst gather_descend.simps) simp

lemma tables_name: "tables rs m \<Longrightarrow> map_of (resource_name_map m) n = Some a \<longleftrightarrow> a < length rs \<and> row_name (rs ! a) = n"
  by (simp add: tables_def)

lemma tables_self:
  assumes "tables rs m" "a < length rs"
  shows "map_of (resource_name_map m) (row_name (rs ! a)) = Some a" "resource_id_map m (strtoll (row_id (rs ! a))) = Some a"
  using assms unfolding tables_def by blast+

lemma gather_descend_returns:
  assumes "tables rs m" "children_ranked rank rs"
  shows "(\<forall>b<length rs. row_name (rs ! b) \<in> set cs \<longrightarrow> rank b < n) \<Longrightarrow> \<exists>r. gather_descend m cs st = Some r"
proof (induction n arbitrary: cs st rule: less_induct)
  case (less n)
  from less.prems show ?case
  proof (induction cs arbitrary: st)
    case (Cons child cs)
    have IH: "\<exists>r. gather_descend m cs st = Some r" for st using Cons.prems by (intro Cons.IH) simp
    show ?case
    proof (cases "map_of (resource_name_map m) child")
      case (Some a)
      then have a: "a < length rs" "row_name (rs ! a) = child" using tables_name [OF assms(1)] by simp_all
      have str: "get_string (rs_properties (deref m a)) RESOURCE_CHILDREN = Inr (row_children (rs ! a))"
        using tables_at(1) [OF assms(1) a(1)] by (simp add: same_row_def)
      obtain ch err st' where b: "gather_begin m (row_children (rs ! a)) st = (ch, err, st')" by (rule prod_cases3)
      then have "ch = map fst (snd (cp_set_string (row_children (rs ! a))))" by (auto simp: gather_begin_def Let_def)
      then have "\<exists>r. gather_descend m ch st' = Some r"
        using Cons.prems a assms(2) by (intro less.IH [of "rank a"]) (auto simp: children_ranked_def)
      then show ?thesis using IH Some str b by (subst gather_descend.simps) (auto simp: split_beta)
    qed (subst gather_descend.simps, simp)
  qed (simp add: gather_descend_Nil)
qed

lemma gather_returns:
  assumes "tables rs m" "children_ranked rank rs"
  shows "set es \<subseteq> set (resource_name_map m) \<Longrightarrow> \<exists>ops'. gather_loop m es proc_vec ops = Some (SUCCESS, ops')"
proof (induction es arbitrary: proc_vec ops)
  case (Cons e es)
  have rec: "\<exists>r. gather_operations_recursive m s st = Some r" for s st
  proof -
    obtain ch err st' where b: "gather_begin m s st = (ch, err, st')" by (rule prod_cases3)
    have "\<exists>r. gather_descend m ch st' = Some r"
      by (rule gather_descend_returns [OF assms, of _ "Suc (Max (rank ` {..<length rs}))"]) (auto simp: less_Suc_eq_le)
    with b show ?thesis by (simp add: gather_operations_recursive_def)
  qed
  have "snd e < length rs" using Cons.prems name_map_addresses(3) [OF assms(1)] by auto
  from tables_at(1) [OF assms(1) this]
  obtain n s where e: "get_string (rs_properties (deref m (snd e))) RESOURCE_NAME = Inr n" "get_string (rs_properties (deref m (snd e))) RESOURCE_CHILDREN = Inr s"
    by (auto simp: same_row_def)
  have IH: "\<exists>ops'. gather_loop m es proc_vec ops = Some (SUCCESS, ops')" for proc_vec ops using Cons by simp
  obtain r where "gather_operations_recursive m s (proc_vec @ [n], case rs_pdmo (deref m (snd e)) of Some op \<Rightarrow> [op] | None \<Rightarrow> []) = Some r"
    using rec by blast
  with IH e show ?case by (cases r) (simp add: Let_def split_beta)
qed simp

lemma wired_ops: "wired env rs (m\<lparr>maintenance_operations := x\<rparr>) \<longleftrightarrow> wired env rs m"
  by (simp add: connected_def tables_def)

lemma connected_start:
  assumes "starts_ok env" "wired env rs m"
  shows "wired env rs (update_resource a (\<lambda>r. (SUCCESS, r\<lparr>rs_properties := ce_start env r\<rparr>)) m)"
proof -
  let ?m = "update_resource a (\<lambda>r. (SUCCESS, r\<lparr>rs_properties := ce_start env r\<rparr>)) m"
  have t: "tables rs m" using assms(2) by (simp add: connected_def)
  have "tables rs ?m" using t by (rule tables_update) (use assms(1) in \<open>simp add: starts_ok_def\<close>)
  moreover have eq: "rs_parent (deref ?m b) = rs_parent (deref m b)" "rs_children (deref ?m b) = rs_children (deref m b)" if "b < length rs" for b
    using tables_at(2) [OF t that] by (simp_all add: deref_update)
  ultimately show ?thesis using assms(2) unfolding connected_def by (simp only: eq cong: imp_cong) blast
qed

lemma wired_start: "starts_ok env \<Longrightarrow> wired env rs m \<Longrightarrow> wired env rs (snd (start_resource_plugins env m))"
proof -
  assume s: "starts_ok env"
  have "wired env rs (fold (\<lambda>e. update_resource (snd e) (\<lambda>r. (SUCCESS, r\<lparr>rs_properties := ce_start env r\<rparr>))) es m)" if "wired env rs m" for es m
    using that by (induction es arbitrary: m) (auto intro: connected_start [OF s])
  then show "wired env rs m \<Longrightarrow> wired env rs (snd (start_resource_plugins env m))" by (simp add: start_resource_plugins_def)
qed

lemma init_wired:
  assumes "catalog_ok env rows" "rs = filter (loads env) rows" "init_from_catalog env rows resource_manager = Some (err, m)"
  shows "wired env rs m"
proof -
  have eq: "resource_manager\<lparr>resource_name_map := []\<rparr> = resource_manager" by (simp add: resource_manager_def)
  have "starts_ok env" using assms(1) by (simp add: catalog_ok_def Let_def)
  from wired_start [OF this] assms(3) wired_init [OF assms(1,2)] show ?thesis
    by (auto simp: init_from_catalog_def gather_operations_def wired_ops eq prod_eq_iff split: if_splits)
qed

lemma init_returns:
  assumes "catalog_ok env rows" "rs = filter (loads env) rows" "children_ranked rank rs"
  shows "\<exists>m. init_from_catalog env rows resource_manager = Some (SUCCESS, m)"
proof -
  have eq: "resource_manager\<lparr>resource_name_map := []\<rparr> = resource_manager" by (simp add: resource_manager_def)
  let ?m = "init_child_map env (fold (load_row env) rows resource_manager)"
  have "tables rs ?m"
    using wired_init [OF assms(1,2)] by (simp add: connected_def)
  from gather_returns [OF this assms(3) subset_refl] obtain ops where
    "gather_loop ?m (resource_name_map ?m) [] (maintenance_operations ?m) = Some (SUCCESS, ops)" by blast
  then show ?thesis by (simp add: init_from_catalog_def gather_operations_def eq start_resource_plugins_def)
qed

lemma wired_child:
  assumes "wired env rs m" "a < length rs"
  shows "(n, ctx, c) \<in> set (rs_children (deref m a)) \<longleftrightarrow>
    c < length rs \<and> parent_of env rs c = Some a \<and> row_name (rs ! c) = n \<and> ctx = row_parent_context (rs ! c)"
proof -
  from assms have d: "distinct (map fst (rs_children (deref m a)))" unfolding connected_def by blast
  have "map_of (rs_children (deref m a)) n = Some (ctx, c) \<longleftrightarrow> c \<in> {..<length rs} \<and>
      parent_of env rs c = Some a \<and> row_name (rs ! c) = n \<and> ctx = row_parent_context (rs ! c)"
    using assms unfolding connected_def by blast
  with lt.in_entries [OF d, of "(n, ctx, c)"] show ?thesis by simp
qed

lemma wired_child_names:
  assumes "wired env rs m" "a < length rs"
  shows "distinct (child_names (deref m a))"
    "set (child_names (deref m a)) = {row_name (rs ! c) | c. c < length rs \<and> parent_of env rs c = Some a}"
proof -
  show "distinct (child_names (deref m a))" using assms by (simp add: connected_def child_names_def)
  show "set (child_names (deref m a)) = {row_name (rs ! c) | c. c < length rs \<and> parent_of env rs c = Some a}"
    unfolding child_names_def set_map
  proof (intro equalityI subsetI)
    fix x assume "x \<in> fst ` set (rs_children (deref m a))"
    then obtain ctx c where "(x, ctx, c) \<in> set (rs_children (deref m a))" by force
    with wired_child [OF assms, of x ctx c] show "x \<in> {row_name (rs ! c) | c. c < length rs \<and> parent_of env rs c = Some a}" by blast
  next
    fix x assume "x \<in> {row_name (rs ! c) | c. c < length rs \<and> parent_of env rs c = Some a}"
    then obtain c where "c < length rs" "parent_of env rs c = Some a" "x = row_name (rs ! c)" by blast
    with wired_child [OF assms, of x "row_parent_context (rs ! c)" c] have "(x, row_parent_context (rs ! c), c) \<in> set (rs_children (deref m a))" by simp
    then show "x \<in> fst ` set (rs_children (deref m a))" by force
  qed
qed

text \<open>C6 (invariant). Initialization from a catalog with valid and different names and different ids returns, provided
  the children named in the rows do not form a cycle. Afterwards every resource whose plugin could be loaded
  is found under its name and under its id, its parent is the resource with the id given as its parent, and
  its children are exactly the resources that have it as their parent.\<close>

theorem init_connects_resources:
  assumes "catalog_ok env rows" "rs = filter (loads env) rows" "children_ranked rank rs"
  shows "\<exists>m. init_from_catalog env rows resource_manager = Some (SUCCESS, m) \<and> (\<forall>a<length rs.
    resolve m (row_name (rs ! a)) = Inr a \<and> resolve_id m (strtoll (row_id (rs ! a))) = Inr a \<and>
    snd (get_parent (deref m a)) = parent_of env rs a \<and>
    distinct (child_names (deref m a)) \<and> set (child_names (deref m a)) = {row_name (rs ! c) | c. c < length rs \<and> parent_of env rs c = Some a})"
proof -
  from init_returns [OF assms] obtain m where m: "init_from_catalog env rows resource_manager = Some (SUCCESS, m)" by blast
  from init_wired [OF assms(1,2) m] have w: "wired env rs m" .
  then have t: "tables rs m" by (simp add: connected_def)
  have valid: "row_name (rs ! a) \<noteq> []" if "a < length rs" for a
    using assms(1,2) nth_mem [OF that] by (auto simp: catalog_ok_def Let_def list_all_iff valid_name_def)
  have "rs_parent (deref m a) = parent_of env rs a" if "a < length rs" for a using w that by (simp add: connected_def)
  with wired_child_names [OF w] tables_self [OF t] valid m show ?thesis
    by (auto simp: resolve_def resolve_id_def get_parent_def)
qed

section \<open>A catalog\<close>

text \<open>A root with two leaves.\<close>

definition sample_row :: "string \<Rightarrow> string \<Rightarrow> string \<Rightarrow> resc_row" where
  "sample_row i n p = \<lparr>row_id = i, row_name = n, row_zone = ''z'', row_type = ''t'', row_class = [], row_loc = ''h'', row_path = ''/v'',
     row_free_space = [], row_info = [], row_comment = [], row_create = [], row_modify = [], row_status = [], row_children = [],
     row_context = [], row_parent = p, row_parent_context = []\<rparr>"

definition sample_rows :: "resc_row list" where
  "sample_rows = [sample_row ''1'' ''d'' [], sample_row ''2'' ''r'' ''1'', sample_row ''3'' ''s'' ''1'']"

definition sample_catalog :: catalog_env where
  "sample_catalog = \<lparr>ce_order = rev, ce_load = (\<lambda>_ _ _. Inr (Map.empty, None, False)), ce_resolve_host = (\<lambda>_ _. Some 0),
     ce_cast = (\<lambda>s. Some (strtoll s)), ce_start = rs_properties, ce_stop = rs_properties\<rparr>"

lemma sample_loads: "filter (loads sample_catalog) sample_rows = sample_rows" "length sample_rows = 3"
  by (simp_all add: loads_def sample_catalog_def load_resource_plugin_def sample_rows_def)

lemma strtoll_sample: "strtoll ''1'' = 1" "strtoll ''2'' = 2" "strtoll ''3'' = 3"
  by code_simp+

lemma sample_starts: "starts_ok sample_catalog"
  by (simp add: starts_ok_def sample_catalog_def same_row_def)

lemma sample_ok: "catalog_ok sample_catalog sample_rows" "children_ranked (\<lambda>_. 0) sample_rows"
  unfolding catalog_ok_def children_ranked_def sample_loads
  by (simp_all add: sample_starts sample_rows_def sample_row_def strtoll_sample valid_name_def cp_set_string_def Let_def less_Suc_eq numeral_3_eq_3)

theorem init_connects_resources_witness:
  "\<exists>m. init_from_catalog sample_catalog sample_rows resource_manager = Some (SUCCESS, m) \<and> resolve m ''r'' = Inr 1 \<and> resolve_id m 2 = Inr 1"
  using init_connects_resources [OF sample_ok(1) refl, of "\<lambda>_. 0"] sample_ok(2) unfolding sample_loads
  by (auto simp: sample_rows_def sample_row_def strtoll_sample numeral_3_eq_3 All_less_Suc)

end
