(* ===== verification/Resource_Hierarchies.thy ===== *)
theory Resource_Hierarchies
  imports Resource_Manager
begin

text \<open>
  The trees of resources of a manager that was filled from a catalog: the hierarchies of the resources, by
  pointers and by names, the leaves below a resource and the list of all hierarchies.
\<close>

section \<open>Hierarchies\<close>

text \<open>The names on the way from the root of the tree to a resource.\<close>

inductive hier_path :: "catalog_env \<Rightarrow> resc_row list \<Rightarrow> nat \<Rightarrow> string list \<Rightarrow> bool" for env rs where
  hier_root: "parent_of env rs a = None \<Longrightarrow> hier_path env rs a [row_name (rs ! a)]"
| hier_child: "parent_of env rs a = Some p \<Longrightarrow> hier_path env rs p path \<Longrightarrow> hier_path env rs a (path @ [row_name (rs ! a)])"

inductive_cases hier_pathE: "hier_path env rs a path"

definition parents_ranked :: "catalog_env \<Rightarrow> (nat \<Rightarrow> nat) \<Rightarrow> resc_row list \<Rightarrow> bool" where
  "parents_ranked env rank rs = (\<forall>a<length rs. case parent_of env rs a of None \<Rightarrow> True | Some p \<Rightarrow> rank p < rank a)"

lemma ranked_path: "parents_ranked env rank rs \<Longrightarrow> a < length rs \<Longrightarrow> \<exists>path. hier_path env rs a path"
proof (induction "rank a" arbitrary: a rule: less_induct)
  case less
  show ?case
  proof (cases "parent_of env rs a")
    case (Some p)
    then have "rank p < rank a" "p < length rs" using less.prems parent_of_bound [OF Some] by (auto simp: parents_ranked_def)
    then obtain path where "hier_path env rs p path" using less by blast
    with Some show ?thesis by (blast intro: hier_child)
  qed (blast intro: hier_root)
qed

lemma hier_path_last: "hier_path env rs a path \<Longrightarrow> path \<noteq> [] \<and> last path = row_name (rs ! a)"
  by (induction rule: hier_path.cases) auto

lemma hier_path_names:
  "hier_path env rs a path \<Longrightarrow> a < length rs \<Longrightarrow> list_all (\<lambda>r. valid_name (row_name r)) rs \<Longrightarrow> list_all valid_name path"
  by (induction rule: hier_path.induct) (auto simp: list_all_length [of _ rs] dest: parent_of_bound)

lemma hier_path_unique: "hier_path env rs a path \<Longrightarrow> hier_path env rs a path' \<Longrightarrow> path = path'"
proof (induction arbitrary: path' rule: hier_path.induct)
  case (hier_root a)
  from hier_root.prems hier_root.hyps show ?case by (auto elim: hier_path.cases)
next
  case (hier_child a p path)
  from hier_child.prems hier_child.hyps(1) obtain q where "path' = q @ [row_name (rs ! a)]" "hier_path env rs p q"
    by (auto elim: hier_path.cases)
  with hier_child.IH show ?case by simp
qed

lemma wired_at:
  assumes "wired env rs m" "a < length rs"
  shows "get_string (rs_properties (deref m a)) RESOURCE_NAME = Inr (row_name (rs ! a))"
    "get_long (rs_properties (deref m a)) RESOURCE_ID = Inr (strtoll (row_id (rs ! a)))"
    "get_string (rs_properties (deref m a)) RESOURCE_PARENT = Inr (row_parent (rs ! a))"
    "rs_parent (deref m a) = parent_of env rs a"
    "map_of (resource_name_map m) (row_name (rs ! a)) = Some a" "resource_id_map m (strtoll (row_id (rs ! a))) = Some a"
proof -
  have t: "tables rs m" using assms(1) by (simp add: connected_def)
  from tables_at(1) [OF t assms(2)] show
    "get_string (rs_properties (deref m a)) RESOURCE_NAME = Inr (row_name (rs ! a))"
    "get_long (rs_properties (deref m a)) RESOURCE_ID = Inr (strtoll (row_id (rs ! a)))"
    "get_string (rs_properties (deref m a)) RESOURCE_PARENT = Inr (row_parent (rs ! a))"
    by (simp_all add: same_row_def)
  show "rs_parent (deref m a) = parent_of env rs a" using assms by (simp add: connected_def)
  show "map_of (resource_name_map m) (row_name (rs ! a)) = Some a" "resource_id_map m (strtoll (row_id (rs ! a))) = Some a"
    by (rule tables_self [OF t assms(2)])+
qed

lemma leaf_hier_loop_None: "leaf_hier_loop m None p = Some (Inr p)" "leaf_hier_out_loop m None h = Some (Inr h)"
  by (subst leaf_hier_loop.simps, simp, subst leaf_hier_out_loop.simps, simp)

lemma valid_add_parent: "valid_name n \<Longrightarrow> hp_add_parent l n [] = Inr (n # l)"
  by (auto simp: hp_add_parent_def valid_name_def DELIM_def)

lemma leaf_hier_loop_path:
  assumes "wired env rs m" "list_all (\<lambda>r. valid_name (row_name r)) rs"
  shows "hier_path env rs a path \<Longrightarrow> a < length rs \<Longrightarrow> leaf_hier_loop m (Some a) p = Some (Inr (path @ p))"
proof (induction arbitrary: p rule: hier_path.induct)
  case (hier_root a)
  then have "valid_name (row_name (rs ! a))" using assms(2) by (simp add: list_all_length)
  with hier_root wired_at [OF assms(1), of a] show ?case
    by (subst leaf_hier_loop.simps) (simp add: valid_add_parent get_parent_def leaf_hier_loop_None)
next
  case (hier_child a q path)
  then have "valid_name (row_name (rs ! a))" "q < length rs" using assms(2) by (auto simp: list_all_length dest: parent_of_bound)
  with hier_child wired_at [OF assms(1), of a] show ?case
    by (subst leaf_hier_loop.simps) (simp add: valid_add_parent get_parent_def)
qed

lemma leaf_hier_out_loop_path:
  assumes "wired env rs m"
  shows "hier_path env rs a path \<Longrightarrow> a < length rs \<Longrightarrow> p \<noteq> [] \<Longrightarrow> leaf_hier_out_loop m (Some a) (joins DELIM p) = Some (Inr (joins DELIM (path @ p)))"
proof (induction arbitrary: p rule: hier_path.induct)
  case (hier_root a)
  with wired_at [OF assms(1), of a] show ?case
    by (subst leaf_hier_out_loop.simps) (simp add: get_parent_def leaf_hier_loop_None joins_Cons DELIM_def)
next
  case (hier_child a q path)
  from hier_child.IH [of "row_name (rs ! a) # p"] hier_child wired_at [OF assms(1), of a] parent_of_bound show ?case
    by (subst leaf_hier_out_loop.simps) (simp add: get_parent_def joins_Cons DELIM_def)
qed

text \<open>When the loop returns, there is a way to a root.\<close>

lemma leaf_hier_loop_root:
  "leaf_hier_loop m resc p = Some r \<Longrightarrow> wired env rs m \<Longrightarrow> list_all (\<lambda>r. valid_name (row_name r)) rs \<Longrightarrow>
    resc = Some a \<Longrightarrow> a < length rs \<Longrightarrow> \<exists>path. hier_path env rs a path"
proof (induction arbitrary: a rule: leaf_hier_loop.raw_induct [rotated, consumes 1, case_names 1])
  case (1 loop m resc p r)
  note at = wired_at [OF 1(3,6)]
  have valid: "valid_name (row_name (rs ! a))" using 1(4,6) by (simp add: list_all_length)
  show ?case
  proof (cases "parent_of env rs a")
    case (Some q)
    with 1(2,5) at valid have "loop m (Some q) (row_name (rs ! a) # p) = Some r" by (simp add: valid_add_parent get_parent_def)
    from 1(1) [OF this 1(3,4) refl parent_of_bound [OF Some]] Some show ?thesis by (blast intro: hier_child)
  qed (blast intro: hier_root)
qed

lemma hp_str_valid: "list_all valid_name path \<Longrightarrow> hp_str path [] = joins DELIM path"
  by (auto simp: hp_str_joins list_all_iff valid_name_def)

lemma parse_joins: "path \<noteq> [] \<Longrightarrow> list_all valid_name path \<Longrightarrow> hierarchy_parser (joins DELIM path) = Inr path"
  using hierarchy_parser_hp_str [of path] by (simp add: hp_str_valid)

lemma parse_set_string: "hierarchy_parser h = Inr l \<Longrightarrow> hp_set_string h = Inr (SUCCESS, l)"
  by (auto simp: hierarchy_parser_def hp_set_string_def tbind_eq_Inr split: if_splits)

lemma joins_not_empty: "path \<noteq> [] \<Longrightarrow> list_all valid_name path \<Longrightarrow> joins DELIM path \<noteq> []"
  by (cases path; cases "tl path") (auto simp: valid_name_def)

text \<open>What the rest of the section is about: a manager filled from a catalog.\<close>

definition filled :: "catalog_env \<Rightarrow> resc_row list \<Rightarrow> resource_manager \<Rightarrow> bool" where
  "filled env rs m = (wired env rs m \<and> distinct (map row_name rs) \<and> distinct (map (\<lambda>r. strtoll (row_id r)) rs) \<and>
     list_all (\<lambda>r. valid_name (row_name r)) rs)"

lemma init_filled:
  assumes "catalog_ok env rows" "init_from_catalog env rows resource_manager = Some (err, m)"
  shows "filled env (filter (loads env) rows) m"
  using init_wired [OF assms(1) refl assms(2)] assms(1) by (simp add: filled_def catalog_ok_def Let_def)

lemma filledD:
  assumes "filled env rs m"
  shows "wired env rs m" "list_all (\<lambda>r. valid_name (row_name r)) rs" "tables rs m"
    "a < length rs \<Longrightarrow> valid_name (row_name (rs ! a))"
    "a < length rs \<Longrightarrow> b < length rs \<Longrightarrow> row_name (rs ! a) = row_name (rs ! b) \<longleftrightarrow> a = b"
    "a < length rs \<Longrightarrow> b < length rs \<Longrightarrow> strtoll (row_id (rs ! a)) = strtoll (row_id (rs ! b)) \<longleftrightarrow> a = b"
proof -
  show "wired env rs m" "list_all (\<lambda>r. valid_name (row_name r)) rs" "tables rs m"
    using assms unfolding filled_def connected_def by blast+
  show "a < length rs \<Longrightarrow> valid_name (row_name (rs ! a))" using assms by (simp add: filled_def list_all_length)
  show "a < length rs \<Longrightarrow> b < length rs \<Longrightarrow> row_name (rs ! a) = row_name (rs ! b) \<longleftrightarrow> a = b"
    using assms nth_eq_iff_index_eq [of "map row_name rs" a b] by (simp add: filled_def)
  show "a < length rs \<Longrightarrow> b < length rs \<Longrightarrow> strtoll (row_id (rs ! a)) = strtoll (row_id (rs ! b)) \<longleftrightarrow> a = b"
    using assms nth_eq_iff_index_eq [of "map (\<lambda>r. strtoll (row_id r)) rs" a b] by (simp add: filled_def)
qed

lemma id_to_hier:
  assumes "filled env rs m" "a < length rs" "hier_path env rs a path"
  shows "leaf_id_to_hier m (strtoll (row_id (rs ! a))) = Some (Inr (joins DELIM path))"
    "leaf_id_to_hier_out m (strtoll (row_id (rs ! a))) h = Some (SUCCESS, joins DELIM path)"
proof -
  note at = wired_at [OF filledD(1) [OF assms(1)] assms(2)] and valid = filledD(4) [OF assms(1,2)]
  have names: "list_all valid_name path" by (rule hier_path_names [OF assms(3,2) filledD(2) [OF assms(1)]])
  have one: "hierarchy_parser (row_name (rs ! a)) = Inr [row_name (rs ! a)]" using parse_joins [of "[row_name (rs ! a)]"] valid by simp
  from assms(3) have loops: "leaf_hier_loop m (parent_of env rs a) [row_name (rs ! a)] = Some (Inr path) \<and>
      leaf_hier_out_loop m (parent_of env rs a) (row_name (rs ! a)) = Some (Inr (joins DELIM path))"
  proof cases
    case (hier_child p q)
    then show ?thesis
      using leaf_hier_loop_path [OF filledD(1,2) [OF assms(1)] hier_child(3)] leaf_hier_out_loop_path [OF filledD(1) [OF assms(1)] hier_child(3), of "[row_name (rs ! a)]"]
        parent_of_bound [OF hier_child(2)] by simp
  qed (simp add: leaf_hier_loop_None)
  then show "leaf_id_to_hier m (strtoll (row_id (rs ! a))) = Some (Inr (joins DELIM path))"
    "leaf_id_to_hier_out m (strtoll (row_id (rs ! a))) h = Some (SUCCESS, joins DELIM path)"
    using at one names by (simp_all add: leaf_id_to_hier_def leaf_id_to_hier_out_def get_parent_def hp_str_valid)
qed

lemma id_to_hier_returns:
  assumes "filled env rs m" "a < length rs" "leaf_id_to_hier m (strtoll (row_id (rs ! a))) = Some r"
  shows "\<exists>path. hier_path env rs a path"
proof (cases "parent_of env rs a")
  case (Some p)
  note at = wired_at [OF filledD(1) [OF assms(1)] assms(2)]
  have "hierarchy_parser (row_name (rs ! a)) = Inr [row_name (rs ! a)]"
    using parse_joins [of "[row_name (rs ! a)]"] filledD(4) [OF assms(1,2)] by simp
  with assms(3) at Some obtain r' where "leaf_hier_loop m (Some p) [row_name (rs ! a)] = Some r'"
    by (auto simp: leaf_id_to_hier_def get_parent_def)
  from leaf_hier_loop_root [OF this filledD(1,2) [OF assms(1)] refl parent_of_bound [OF Some]] Some
  show ?thesis by (blast intro: hier_child)
qed (blast intro: hier_root)

lemma hier_to_id:
  assumes "filled env rs m" "a < length rs" "hier_path env rs a path"
  shows "hier_to_leaf_id m (joins DELIM path) = Inr (strtoll (row_id (rs ! a)))"
    "hier_to_leaf_id_out m (joins DELIM path) k = Inr (SUCCESS, strtoll (row_id (rs ! a)))"
proof -
  note at = wired_at [OF filledD(1) [OF assms(1)] assms(2)]
  have names: "list_all valid_name path" by (rule hier_path_names [OF assms(3,2) filledD(2) [OF assms(1)]])
  have last: "path \<noteq> []" "hp_last_resc path = row_name (rs ! a)" using hier_path_last [OF assms(3)] by (simp_all add: hp_last_resc_def)
  note parse = parse_joins [OF last(1) names]
  from parse parse_set_string [OF parse] joins_not_empty [OF last(1) names] at last(2)
  show "hier_to_leaf_id m (joins DELIM path) = Inr (strtoll (row_id (rs ! a)))"
    "hier_to_leaf_id_out m (joins DELIM path) k = Inr (SUCCESS, strtoll (row_id (rs ! a)))"
    by (simp_all add: hier_to_leaf_id_def hier_to_leaf_id_out_def)
qed

text \<open>C7 (roundtrip). For a resource from which a root is reached, the id is translated into the hierarchy that names
  the resources from the root to it, and that hierarchy back into the id, by both variants of each
  translation. If the parents form a cycle above the resource, the translation of its id does not return.\<close>

theorem hierarchy_id_roundtrip:
  assumes "catalog_ok env rows" "init_from_catalog env rows resource_manager = Some (err, m)" "rs = filter (loads env) rows" "a < length rs"
  shows "let i = strtoll (row_id (rs ! a)) in
    (\<forall>path. hier_path env rs a path \<longrightarrow> leaf_id_to_hier m i = Some (Inr (joins DELIM path)) \<and>
       leaf_id_to_hier_out m i h = Some (SUCCESS, joins DELIM path) \<and> hier_to_leaf_id m (joins DELIM path) = Inr i \<and>
       hier_to_leaf_id_out m (joins DELIM path) k = Inr (SUCCESS, i)) \<and>
    ((\<nexists>path. hier_path env rs a path) \<longrightarrow> leaf_id_to_hier m i = None)"
proof -
  from init_filled [OF assms(1,2)] assms(3) have f: "filled env rs m" by simp
  from id_to_hier [OF f assms(4)] hier_to_id [OF f assms(4)] id_to_hier_returns [OF f assms(4)]
  show ?thesis by (cases "leaf_id_to_hier m (strtoll (row_id (rs ! a)))") (auto simp: Let_def)
qed

text \<open>The way to the root by names instead of pointers, when no parent id is dangling.\<close>

definition parents_known :: "catalog_env \<Rightarrow> resc_row list \<Rightarrow> bool" where
  "parents_known env rs = (\<forall>a<length rs. parent_of env rs a = None \<longrightarrow> row_parent (rs ! a) = [])"

lemma get_parent_name_row:
  assumes "filled env rs m" "a < length rs" "parents_known env rs"
  shows "get_parent_name env m a = (case parent_of env rs a of None \<Rightarrow> Inl BAD_HIERARCHY | Some p \<Rightarrow> Inr (row_name (rs ! p)))"
proof (cases "parent_of env rs a")
  case (Some p)
  have "ce_cast env (row_parent (rs ! a)) \<noteq> None" "row_parent (rs ! a) \<noteq> []" using Some by (auto simp: parent_of_def split: if_splits option.splits)
  moreover from this have "resolve_id m (the (ce_cast env (row_parent (rs ! a)))) = Inr p"
    using Some id_map_find [OF filledD(3) [OF assms(1)]] by (auto simp: parent_of_def resolve_id_def)
  ultimately show ?thesis
    using Some wired_at [OF filledD(1) [OF assms(1)] assms(2)] wired_at(1) [OF filledD(1) [OF assms(1)] parent_of_bound [OF Some]]
    by (auto simp: get_parent_name_def)
next
  case None
  with assms(2,3) wired_at [OF filledD(1) [OF assms(1)] assms(2)] show ?thesis
    by (simp add: get_parent_name_def parents_known_def)
qed

lemma hier_to_root_loop_path:
  assumes "filled env rs m" "parents_known env rs"
  shows "hier_path env rs a path \<Longrightarrow> a < length rs \<Longrightarrow> hier_to_root_loop env m (row_name (rs ! a)) l = Some (Inr (butlast path @ l)) \<and>
    (l \<noteq> [] \<longrightarrow> get_hier_to_root_loop env m (row_name (rs ! a)) (joins DELIM l) = Some (SUCCESS, joins DELIM (butlast path @ l)))"
proof (induction arbitrary: l rule: hier_path.induct)
  case (hier_root a)
  have "resolve m (row_name (rs ! a)) = Inr a" "row_name (rs ! a) \<noteq> []"
    using filledD(4) [OF assms(1) hier_root(2)] wired_at(5) [OF filledD(1) [OF assms(1)] hier_root(2)] by (auto simp: resolve_def valid_name_def)
  with hier_root get_parent_name_row [OF assms(1) hier_root(2) assms(2)] show ?case
    by (subst hier_to_root_loop.simps, subst get_hier_to_root_loop.simps) simp
next
  case (hier_child a p path)
  have p: "p < length rs" by (rule parent_of_bound [OF hier_child(1)])
  have "resolve m (row_name (rs ! a)) = Inr a" "row_name (rs ! a) \<noteq> []" "valid_name (row_name (rs ! p))" "row_name (rs ! p) \<noteq> []"
    using filledD(4) [OF assms(1) hier_child(4)] wired_at(5) [OF filledD(1) [OF assms(1)] hier_child(4)] filledD(4) [OF assms(1) p]
    by (auto simp: resolve_def valid_name_def)
  moreover have "path \<noteq> []" "last path = row_name (rs ! p)" using hier_path_last [OF hier_child(2)] by simp_all
  then have eq: "butlast path @ row_name (rs ! p) # l = path @ l" by (metis append_butlast_last_id append.assoc append_Cons append_Nil)
  have "hier_to_root_loop env m (row_name (rs ! p)) (row_name (rs ! p) # l) = Some (Inr (path @ l))"
    "l \<noteq> [] \<Longrightarrow> get_hier_to_root_loop env m (row_name (rs ! p)) (row_name (rs ! p) @ DELIM @ joins DELIM l) = Some (SUCCESS, joins DELIM (path @ l))"
    using hier_child.IH [OF p, of "row_name (rs ! p) # l"] by (simp_all add: eq joins_Cons)
  moreover note hier_child(1) get_parent_name_row [OF assms(1) hier_child(4) assms(2)]
  ultimately show ?case
    by (subst hier_to_root_loop.simps, subst get_hier_to_root_loop.simps) (simp add: valid_add_parent)
qed

text \<open>When no parent id is dangling, the two ways to a hierarchy agree: following the parent ids by
  name, with either variant, gives the hierarchy that following the pointers gives.\<close>

lemma hierarchy_by_name_and_by_pointer:
  assumes "catalog_ok env rows" "init_from_catalog env rows resource_manager = Some (err, m)" "rs = filter (loads env) rows" "a < length rs"
    "parents_known env rs" "hier_path env rs a path"
  shows "hier_to_root env m (row_name (rs ! a)) = leaf_id_to_hier m (strtoll (row_id (rs ! a))) \<and>
    get_hier_to_root_for_resc env m (row_name (rs ! a)) = leaf_id_to_hier_out m (strtoll (row_id (rs ! a))) h"
proof -
  from init_filled [OF assms(1,2)] assms(3) have f: "filled env rs m" by simp
  note valid = filledD(4) [OF f assms(4)] and names = hier_path_names [OF assms(6,4) filledD(2) [OF f]]
  have one: "hierarchy_parser (row_name (rs ! a)) = Inr [row_name (rs ! a)]" using parse_joins [of "[row_name (rs ! a)]"] valid by simp
  have "path \<noteq> []" "last path = row_name (rs ! a)" using hier_path_last [OF assms(6)] by simp_all
  then have "butlast path @ [row_name (rs ! a)] = path" by (metis append_butlast_last_id)
  with hier_to_root_loop_path [OF f assms(5,6,4), of "[row_name (rs ! a)]"] valid one names id_to_hier [OF f assms(4,6)]
  show ?thesis by (simp add: hier_to_root_def get_hier_to_root_for_resc_def hp_str_valid valid_name_def)
qed

section \<open>The leaves below a resource\<close>

inductive below :: "catalog_env \<Rightarrow> resc_row list \<Rightarrow> nat \<Rightarrow> nat \<Rightarrow> bool" for env rs a where
  below_self: "below env rs a a"
| below_step: "parent_of env rs l = Some p \<Longrightarrow> below env rs a p \<Longrightarrow> below env rs a l"

definition is_leaf :: "catalog_env \<Rightarrow> resc_row list \<Rightarrow> nat \<Rightarrow> bool" where
  "is_leaf env rs l = (\<forall>c<length rs. parent_of env rs c \<noteq> Some l)"

definition leaves_below :: "catalog_env \<Rightarrow> resc_row list \<Rightarrow> nat \<Rightarrow> nat set" where
  "leaves_below env rs a = {l. l < length rs \<and> is_leaf env rs l \<and> below env rs a l}"

lemma below_trans: "below env rs b l \<Longrightarrow> below env rs a b \<Longrightarrow> below env rs a l"
  by (induction rule: below.induct) (auto intro: below_step)

lemma below_child: "below env rs a l \<Longrightarrow> l < length rs \<Longrightarrow> l = a \<or> (\<exists>c<length rs. parent_of env rs c = Some a \<and> below env rs c l)"
proof (induction rule: below.induct)
  case (below_step l p)
  then have p: "p < length rs" by (auto dest: parent_of_bound)
  show ?case
  proof (cases "p = a")
    case True
    with below_step show ?thesis by (blast intro: below_self)
  next
    case False
    with below_step.IH [OF p] obtain c where "c < length rs" "parent_of env rs c = Some a" "below env rs c p" by blast
    with below_step(1) show ?thesis by (blast intro: below.below_step)
  qed
qed simp

lemma below_linear: "below env rs a l \<Longrightarrow> below env rs b l \<Longrightarrow> below env rs a b \<or> below env rs b a"
proof (induction rule: below.induct)
  case (below_step l p)
  from below_step.prems below_step.hyps(1) have "b = l \<or> below env rs b p" by (auto elim: below.cases)
  with below_step show ?case by (auto intro: below.below_step)
qed simp

lemma below_rank:
  assumes "parents_ranked env rank rs"
  shows "below env rs a l \<Longrightarrow> l < length rs \<Longrightarrow> rank a \<le> rank l"
proof (induction rule: below.induct)
  case (below_step l p)
  then have "rank p < rank l" "p < length rs" using assms by (auto simp: parents_ranked_def dest: parent_of_bound)
  with below_step.IH show ?case by simp
qed simp

lemma finite_leaves_below [simp]: "finite (leaves_below env rs a)"
  by (rule finite_subset [of _ "{..<length rs}"]) (auto simp: leaves_below_def)

lemma siblings_disjoint:
  assumes "parents_ranked env rank rs" "c < length rs" "d < length rs" "parent_of env rs c = Some a" "parent_of env rs d = Some a" "c \<noteq> d"
  shows "leaves_below env rs c \<inter> leaves_below env rs d = {}"
proof -
  have no: "\<not> below env rs x y" if "x < length rs" "y < length rs" "x \<noteq> y" "parent_of env rs x = Some a" "parent_of env rs y = Some a" for x y
  proof
    assume "below env rs x y"
    then have "below env rs x a" using that(3,5) by (auto elim: below.cases)
    from below_rank [OF assms(1) this parent_of_bound [OF that(4)]] that(1,4) assms(1) show False by (auto simp: parents_ranked_def)
  qed
  show ?thesis using below_linear [of env rs c _ d] no [OF assms(2,3,6,4,5)] no [OF assms(3,2) _ assms(5,4)] assms(6)
    by (auto simp: leaves_below_def)
qed

lemma leaves_below_split:
  assumes "a < length rs"
  shows "leaves_below env rs a = (if is_leaf env rs a then {a} else (\<Union>c\<in>{c. c < length rs \<and> parent_of env rs c = Some a}. leaves_below env rs c))"
proof (cases "is_leaf env rs a")
  case True
  then have "l = a" if "below env rs a l" "l < length rs" for l using below_child [OF that] by (auto simp: is_leaf_def)
  with True assms show ?thesis by (auto simp: leaves_below_def intro: below_self)
next
  case False
  have up: "below env rs a l" if "below env rs c l" "parent_of env rs c = Some a" for c l
    using below_trans [OF that(1) below_step [OF that(2) below_self]] .
  show ?thesis
  proof (intro set_eqI)
    fix l
    show "l \<in> leaves_below env rs a \<longleftrightarrow> l \<in> (if is_leaf env rs a then {a} else (\<Union>c\<in>{c. c < length rs \<and> parent_of env rs c = Some a}. leaves_below env rs c))"
      using False up below_child [of env rs a l] by (auto simp: leaves_below_def)
  qed
qed

lemma mset_leaves_siblings:
  assumes "parents_ranked env rank rs"
  shows "distinct cs \<Longrightarrow> (\<forall>c\<in>set cs. c < length rs \<and> parent_of env rs c = Some a) \<Longrightarrow>
    (\<Sum>c\<leftarrow>cs. mset_set (leaves_below env rs c)) = mset_set (\<Union>c\<in>set cs. leaves_below env rs c)"
proof (induction cs)
  case (Cons c cs)
  have "leaves_below env rs c \<inter> leaves_below env rs d = {}" if "d \<in> set cs" for d
    using that Cons.prems by (intro siblings_disjoint [OF assms, of c d a]) auto
  then have "leaves_below env rs c \<inter> (\<Union>d\<in>set cs. leaves_below env rs d) = {}" by auto
  then have "mset_set (leaves_below env rs c \<union> (\<Union>d\<in>set cs. leaves_below env rs d)) =
      mset_set (leaves_below env rs c) + mset_set (\<Union>d\<in>set cs. leaves_below env rs d)"
    by (intro mset_set_Union) auto
  with Cons show ?case by simp
qed simp

definition child_addresses :: "resource \<Rightarrow> nat list" where
  "child_addresses r = map (\<lambda>e. snd (snd e)) (rs_children r)"

lemma wired_addresses:
  assumes "wired env rs m" "a < length rs"
  shows "child_names (deref m a) = map (\<lambda>c. row_name (rs ! c)) (child_addresses (deref m a))"
    "distinct (child_addresses (deref m a))" "set (child_addresses (deref m a)) = {c. c < length rs \<and> parent_of env rs c = Some a}"
    "num_children (deref m a) > 0 \<longleftrightarrow> \<not> is_leaf env rs a"
proof -
  note child = wired_child [OF assms]
  have name: "fst e = row_name (rs ! snd (snd e))" if "e \<in> set (rs_children (deref m a))" for e
    using that child [of "fst e" "fst (snd e)" "snd (snd e)"] by simp
  then show names: "child_names (deref m a) = map (\<lambda>c. row_name (rs ! c)) (child_addresses (deref m a))"
    by (simp add: child_names_def child_addresses_def)
  from wired_child_names(1) [OF assms] show "distinct (child_addresses (deref m a))"
    unfolding names by (simp add: distinct_map)
  have mem: "c \<in> set (child_addresses (deref m a)) \<longleftrightarrow> (\<exists>n ctx. (n, ctx, c) \<in> set (rs_children (deref m a)))" for c
    by (force simp: child_addresses_def image_iff)
  show addr: "set (child_addresses (deref m a)) = {c. c < length rs \<and> parent_of env rs c = Some a}"
  proof (intro set_eqI)
    fix c show "c \<in> set (child_addresses (deref m a)) \<longleftrightarrow> c \<in> {c. c < length rs \<and> parent_of env rs c = Some a}"
      unfolding mem using child [of _ _ c] by simp
  qed
  have "num_children (deref m a) > 0 \<longleftrightarrow> set (child_addresses (deref m a)) \<noteq> {}" by (simp add: num_children_def child_addresses_def)
  then show "num_children (deref m a) > 0 \<longleftrightarrow> \<not> is_leaf env rs a" unfolding addr by (auto simp: is_leaf_def)
qed

lemma leaf_bundle_loop_Nil: "leaf_bundle_loop m [] b = Some (SUCCESS, b)"
  by (subst leaf_bundle_loop.simps) simp

lemma leaf_bundle_loop_Cons:
  "leaf_bundle_loop m (child # cs) b = Option.bind (case resolve m child of
       Inl c \<Rightarrow> Some (ERROR c, b)
     | Inr resc \<Rightarrow> if num_children (deref m resc) > 0 then leaf_bundle_loop m (child_names (deref m resc)) b
         else (case get_long (rs_properties (deref m resc)) RESOURCE_ID of Inl c \<Rightarrow> Some (ERROR c, b) | Inr i \<Rightarrow> Some (SUCCESS, b @ [i])))
     (\<lambda>(err, b). if \<not> ok err then Some (err, b) else leaf_bundle_loop m cs b)"
  by (subst leaf_bundle_loop.simps) simp

lemma leaf_bundle_loop_leaves:
  assumes "filled env rs m" "parents_ranked env rank rs" "\<forall>a<length rs. rank a \<le> H"
  shows "\<forall>a\<in>set as. a < length rs \<and> H - rank a < n \<Longrightarrow> \<exists>ls. set ls \<subseteq> {..<length rs} \<and>
    leaf_bundle_loop m (map (\<lambda>a. row_name (rs ! a)) as) b = Some (SUCCESS, b @ map (\<lambda>l. strtoll (row_id (rs ! l))) ls) \<and>
    mset ls = (\<Sum>a\<leftarrow>as. mset_set (leaves_below env rs a))"
proof (induction n arbitrary: as b rule: less_induct)
  case (less n)
  note w = filledD(1) [OF assms(1)]
  from less.prems show ?case
  proof (induction as arbitrary: b)
    case (Cons a as)
    then have a: "a < length rs" "H - rank a < n" by simp_all
    have res: "resolve m (row_name (rs ! a)) = Inr a" using wired_at(5) [OF w a(1)] filledD(4) [OF assms(1) a(1)] by (auto simp: resolve_def valid_name_def)
    obtain ls1 where ls1: "set ls1 \<subseteq> {..<length rs}" "mset ls1 = mset_set (leaves_below env rs a)"
      "(if num_children (deref m a) > 0 then leaf_bundle_loop m (child_names (deref m a)) b
        else (case get_long (rs_properties (deref m a)) RESOURCE_ID of Inl c \<Rightarrow> Some (ERROR c, b) | Inr i \<Rightarrow> Some (SUCCESS, b @ [i]))) =
        Some (SUCCESS, b @ map (\<lambda>l. strtoll (row_id (rs ! l))) ls1)"
    proof (cases "is_leaf env rs a")
      case True
      then show thesis using that [of "[a]"] a wired_at(2) [OF w a(1)] wired_addresses(4) [OF w a(1)] leaves_below_split [OF a(1), of env] by simp
    next
      case False
      note ch = wired_addresses [OF w a(1)]
      have "H - rank c < H - rank a" if "c < length rs" "parent_of env rs c = Some a" for c
        using that assms(2,3) by (fastforce simp: parents_ranked_def)
      then have "\<exists>ls. set ls \<subseteq> {..<length rs} \<and> leaf_bundle_loop m (map (\<lambda>a. row_name (rs ! a)) (child_addresses (deref m a))) b =
          Some (SUCCESS, b @ map (\<lambda>l. strtoll (row_id (rs ! l))) ls) \<and> mset ls = (\<Sum>a\<leftarrow>child_addresses (deref m a). mset_set (leaves_below env rs a))"
        using ch(3) by (intro less.IH [OF a(2)]) auto
      moreover have "(\<Sum>a\<leftarrow>child_addresses (deref m a). mset_set (leaves_below env rs a)) = mset_set (leaves_below env rs a)"
        using mset_leaves_siblings [OF assms(2) ch(2), of a] ch(3) False by (simp add: leaves_below_split [OF a(1)])
      ultimately show thesis using that False ch(1,4) by auto
    qed
    from Cons obtain ls2 where "set ls2 \<subseteq> {..<length rs}" "mset ls2 = (\<Sum>a\<leftarrow>as. mset_set (leaves_below env rs a))"
      "leaf_bundle_loop m (map (\<lambda>a. row_name (rs ! a)) as) (b @ map (\<lambda>l. strtoll (row_id (rs ! l))) ls1) =
         Some (SUCCESS, (b @ map (\<lambda>l. strtoll (row_id (rs ! l))) ls1) @ map (\<lambda>l. strtoll (row_id (rs ! l))) ls2)"
      by (metis list.set_intros(2))
    with res ls1 show ?case by (intro exI [of _ "ls1 @ ls2"]) (simp add: leaf_bundle_loop_Cons)
  qed (simp add: leaf_bundle_loop_Nil)
qed

lemma sorted_ids:
  assumes "filled env rs m" "mset ls = mset_set (leaves_below env rs c)"
  shows "sort (map (\<lambda>l. strtoll (row_id (rs ! l))) ls) = sorted_list_of_set ((\<lambda>l. strtoll (row_id (rs ! l))) ` leaves_below env rs c)"
proof -
  have set: "set ls = leaves_below env rs c" using arg_cong [OF assms(2), of set_mset] by simp
  have "distinct ls" using assms(2) by (metis distinct_count_atmost_1 count_mset_set(1,3) finite_leaves_below set)
  moreover have "inj_on (\<lambda>l. strtoll (row_id (rs ! l))) (set ls)"
    unfolding set using filledD(6) [OF assms(1)] by (auto simp: inj_on_def leaves_below_def)
  ultimately have "distinct (map (\<lambda>l. strtoll (row_id (rs ! l))) ls)" by (simp add: distinct_map)
  then show ?thesis by (intro sorted_distinct_set_unique) (simp_all add: set)
qed

lemma leaf_bundles_rows:
  assumes "filled env rs m" "parents_ranked env rank rs"
  shows "\<forall>c\<in>set cs. c < length rs \<Longrightarrow> leaf_bundles m (map (\<lambda>c. row_name (rs ! c)) cs) =
    Some (Inr (map (\<lambda>c. sorted_list_of_set ((\<lambda>l. strtoll (row_id (rs ! l))) ` leaves_below env rs c)) cs))"
proof (induction cs)
  case (Cons c cs)
  let ?H = "Max (rank ` {..<length rs})"
  have "\<exists>ls. set ls \<subseteq> {..<length rs} \<and> leaf_bundle_loop m (map (\<lambda>a. row_name (rs ! a)) [c]) [] =
      Some (SUCCESS, [] @ map (\<lambda>l. strtoll (row_id (rs ! l))) ls) \<and> mset ls = (\<Sum>a\<leftarrow>[c]. mset_set (leaves_below env rs a))"
    using Cons.prems by (intro leaf_bundle_loop_leaves [OF assms, where H = ?H and n = "Suc ?H"]) auto
  then obtain ls where "gather_leaf_bundle_for_child m (row_name (rs ! c)) [] = Some (SUCCESS, map (\<lambda>l. strtoll (row_id (rs ! l))) ls)"
    "mset ls = mset_set (leaves_below env rs c)" by (auto simp: gather_leaf_bundle_for_child_def)
  with Cons sorted_ids [OF assms(1), of ls c] show ?case by simp
qed simp

text \<open>C38 (functional). The bundles gathered for a resource are, one for each of its children, the ids of the leaves below
  that child, in increasing order and each once.\<close>

theorem leaf_bundles_partition:
  assumes "catalog_ok env rows" "init_from_catalog env rows resource_manager = Some (err, m)" "rs = filter (loads env) rows" "a < length rs"
    "parents_ranked env rank rs"
  shows "\<exists>cs. distinct cs \<and> set cs = {c. c < length rs \<and> parent_of env rs c = Some a} \<and>
    gather_leaf_bundles_for_resc m (row_name (rs ! a)) =
      Some (Inr (map (\<lambda>c. sorted_list_of_set ((\<lambda>l. strtoll (row_id (rs ! l))) ` leaves_below env rs c)) cs))"
proof -
  from init_filled [OF assms(1,2)] assms(3) have f: "filled env rs m" by simp
  note ch = wired_addresses [OF filledD(1) [OF f] assms(4)]
  have "resolve m (row_name (rs ! a)) = Inr a"
    using wired_at(5) [OF filledD(1) [OF f] assms(4)] filledD(4) [OF f assms(4)] by (auto simp: resolve_def valid_name_def)
  then have "gather_leaf_bundles_for_resc m (row_name (rs ! a)) = leaf_bundles m (map (\<lambda>c. row_name (rs ! c)) (child_addresses (deref m a)))"
    by (simp add: gather_leaf_bundles_for_resc_def ch(1))
  with leaf_bundles_rows [OF f assms(5), of "child_addresses (deref m a)"] ch(2,3) show ?thesis by auto
qed

lemma all_hierarchies_rows:
  assumes "filled env rs m" "\<forall>a<length rs. hier_path env rs a (path a)"
  shows "\<forall>e\<in>set es. snd e < length rs \<Longrightarrow> all_hierarchies m es =
    Some (Inr (map (\<lambda>e. joins DELIM (path (snd e))) (filter (\<lambda>e. is_leaf env rs (snd e)) es)))"
proof (induction es)
  case (Cons e es)
  then have e: "snd e < length rs" by simp
  note w = filledD(1) [OF assms(1)]
  have "leaf_id_to_hier_out m (strtoll (row_id (rs ! snd e))) [] = Some (SUCCESS, joins DELIM (path (snd e)))"
    using assms(2) e by (intro id_to_hier(2) [OF assms(1) e]) simp
  with Cons wired_at(2) [OF w e] wired_addresses(4) [OF w e] show ?case by (simp add: Let_def)
qed simp

text \<open>The list of all hierarchies holds the hierarchy of every leaf, and nothing else, each once.\<close>

lemma all_hierarchies_are_leaves:
  assumes "catalog_ok env rows" "init_from_catalog env rows resource_manager = Some (err, m)" "rs = filter (loads env) rows"
    "parents_ranked env rank rs"
  shows "\<exists>hs. get_all_resc_hierarchies m = Some (Inr hs) \<and> distinct hs \<and>
    set hs = {joins DELIM path | path l. l < length rs \<and> is_leaf env rs l \<and> hier_path env rs l path}"
proof -
  from init_filled [OF assms(1,2)] assms(3) have f: "filled env rs m" by simp
  from ranked_path [OF assms(4)] have "\<forall>a. \<exists>path. a < length rs \<longrightarrow> hier_path env rs a path" by blast
  then obtain path where path: "\<forall>a<length rs. hier_path env rs a (path a)" by metis
  note addr = name_map_addresses [OF filledD(3) [OF f]]
  let ?es = "filter (\<lambda>e. is_leaf env rs (snd e)) (resource_name_map m)"
  let ?h = "\<lambda>a. joins DELIM (path a)"
  have all: "get_all_resc_hierarchies m = Some (Inr (map (\<lambda>e. ?h (snd e)) ?es))"
    unfolding get_all_resc_hierarchies_def using addr(3) by (intro all_hierarchies_rows [OF f path]) auto
  have id: "hier_to_leaf_id m (?h a) = Inr (strtoll (row_id (rs ! a)))" if "a < length rs" for a
    using path that by (intro hier_to_id(1) [OF f that]) simp
  have "inj_on ?h {l. l < length rs \<and> is_leaf env rs l}"
  proof (rule inj_onI)
    fix a b assume ab: "a \<in> {l. l < length rs \<and> is_leaf env rs l}" "b \<in> {l. l < length rs \<and> is_leaf env rs l}" "?h a = ?h b"
    with id [of a] id [of b] filledD(6) [OF f, of a b] show "a = b" by simp
  qed
  moreover have leafs: "set (map snd ?es) = {l. l < length rs \<and> is_leaf env rs l}" using addr(2) by auto
  moreover have "distinct (map snd ?es)" using addr(1) by (simp add: distinct_map_filter)
  ultimately have "distinct (map ?h (map snd ?es))" by (simp only: distinct_map)
  moreover have "?h ` {l. l < length rs \<and> is_leaf env rs l} = {joins DELIM path | path l. l < length rs \<and> is_leaf env rs l \<and> hier_path env rs l path}"
  proof (intro equalityI subsetI)
    fix x assume "x \<in> {joins DELIM path | path l. l < length rs \<and> is_leaf env rs l \<and> hier_path env rs l path}"
    then obtain q l where l: "l < length rs" "is_leaf env rs l" "hier_path env rs l q" "x = joins DELIM q" by blast
    then have "q = path l" using path hier_path_unique by blast
    with l show "x \<in> ?h ` {l. l < length rs \<and> is_leaf env rs l}" by blast
  qed (use path in blast)
  then have "set (map ?h (map snd ?es)) = {joins DELIM path | path l. l < length rs \<and> is_leaf env rs l \<and> hier_path env rs l path}"
    by (simp only: set_map [of ?h] leafs)
  moreover have "get_all_resc_hierarchies m = Some (Inr (map ?h (map snd ?es)))" using all by (simp add: comp_def)
  ultimately show ?thesis by blast
qed

section \<open>The sample catalog\<close>

lemma sample_parents: "parent_of sample_catalog sample_rows 0 = None" "parent_of sample_catalog sample_rows 1 = Some 0"
  "parent_of sample_catalog sample_rows 2 = Some 0"
  by (simp_all add: parent_of_def sample_rows_def sample_row_def sample_catalog_def strtoll_sample numeral_2_eq_2 upt_rec)

lemma sample_ranked: "parents_ranked sample_catalog id sample_rows" "parents_known sample_catalog sample_rows"
proof -
  have "a = 0 \<or> a = 1 \<or> a = 2" if "a < length sample_rows" for a using that by (auto simp: sample_loads)
  then show "parents_ranked sample_catalog id sample_rows" "parents_known sample_catalog sample_rows"
    unfolding parents_ranked_def parents_known_def using sample_parents by (fastforce, fastforce simp: sample_rows_def sample_row_def)
qed

lemma sample_path: "hier_path sample_catalog sample_rows 1 [''d'', ''r'']"
  using hier_child [OF sample_parents(2) hier_root [OF sample_parents(1)]] by (simp add: sample_rows_def sample_row_def)

lemma sample_id: "strtoll (row_id (sample_rows ! 1)) = 2"
  by (simp add: sample_rows_def sample_row_def strtoll_sample)

theorem hierarchy_id_roundtrip_witness:
  "\<exists>m. init_from_catalog sample_catalog sample_rows resource_manager = Some (SUCCESS, m) \<and>
     leaf_id_to_hier m 2 = Some (Inr ''d;r'') \<and> hier_to_leaf_id m ''d;r'' = Inr 2"
proof -
  obtain m where m: "init_from_catalog sample_catalog sample_rows resource_manager = Some (SUCCESS, m)"
    using init_returns [OF sample_ok(1) refl, of "\<lambda>_. 0"] sample_ok(2) unfolding sample_loads by blast
  have "leaf_id_to_hier m 2 = Some (Inr (joins DELIM [''d'', ''r''])) \<and> hier_to_leaf_id m (joins DELIM [''d'', ''r'']) = Inr 2"
    using hierarchy_id_roundtrip [OF sample_ok(1) m sample_loads(1) [symmetric], of 1] sample_path
    unfolding Let_def sample_loads(2) sample_id by (metis one_less_numeral_iff semiring_norm(77))
  with m show ?thesis by (auto simp: DELIM_def)
qed

theorem leaf_bundles_partition_witness:
  "\<exists>m cs. init_from_catalog sample_catalog sample_rows resource_manager = Some (SUCCESS, m) \<and> set cs = {1, 2} \<and> distinct cs \<and>
     gather_leaf_bundles_for_resc m ''d'' = Some (Inr (map (\<lambda>c. sorted_list_of_set ((\<lambda>l. strtoll (row_id (sample_rows ! l))) ` leaves_below sample_catalog sample_rows c)) cs))"
proof -
  obtain m where m: "init_from_catalog sample_catalog sample_rows resource_manager = Some (SUCCESS, m)"
    using init_returns [OF sample_ok(1) refl, of "\<lambda>_. 0"] sample_ok(2) unfolding sample_loads by blast
  have "{c. c < length sample_rows \<and> parent_of sample_catalog sample_rows c = Some 0} = {1, 2}"
    using sample_parents by (auto simp: sample_loads(2) numeral_3_eq_3 less_Suc_eq numeral_2_eq_2)
  moreover have "row_name (sample_rows ! 0) = ''d''" by (simp add: sample_rows_def sample_row_def)
  ultimately show ?thesis
    using leaf_bundles_partition [OF sample_ok(1) m sample_loads(1) [symmetric] _ sample_ranked(1), of 0] m sample_loads(2) by auto
qed

end
