(* ===== verification/Resource_Catalog.thy ===== *)
theory Resource_Catalog
  imports Resource_Resolution Resource_Hierarchies
begin

text \<open>
  The resource manager and the selection of a hierarchy together: the trees that answer the requests for a vote
  are the ones the manager has connected, so the hierarchy selected for a data object is one the manager
  translates into the id under which the replica is registered, and back.
\<close>

section \<open>The trees of a manager\<close>

text \<open>What the plugin of a resource does: it coordinates its children or stores data. The tree below a resource
  is unfolded to the depth \<open>n\<close>.\<close>

type_synonym plugins = "resource \<Rightarrow> coordinator + storage_kind \<times> vote_context"

fun tree_of :: "plugins \<Rightarrow> resource_manager \<Rightarrow> nat \<Rightarrow> nat \<Rightarrow> resc_tree" where
  "tree_of plug m 0 a = (case plug (deref m a) of Inl co \<Rightarrow> Coordinating co [] | Inr (k, ctx) \<Rightarrow> Storage k ctx)"
| "tree_of plug m (Suc n) a = (case plug (deref m a) of
      Inl co \<Rightarrow> Coordinating co (map (\<lambda>e. (fst e, tree_of plug m n (snd (snd e)))) (rs_children (deref m a)))
    | Inr (k, ctx) \<Rightarrow> Storage k ctx)"

definition manager_redirect :: "tree_env \<Rightarrow> plugins \<Rightarrow> resource_manager \<Rightarrow> redirect_env \<Rightarrow> redirect_env" where
  "manager_redirect env plug m renv = tree_redirect env
     (map (\<lambda>e. (fst e, tree_of plug m (length (store m)) (snd e))) (resource_name_map m))
     (renv\<lparr>re_resolve := (\<lambda>n. case resolve m n of Inl c \<Rightarrow> ERROR c | Inr _ \<Rightarrow> SUCCESS),
       re_has_parent := (\<lambda>n. case resolve m n of Inl _ \<Rightarrow> False | Inr a \<Rightarrow> ok (fst (get_parent (deref m a))))\<rparr>)"

text \<open>A plugin knows itself by the name in its properties.\<close>

definition plugin_names :: "plugins \<Rightarrow> bool" where
  "plugin_names plug = (\<forall>r. case plug r of
      Inl co \<Rightarrow> coordinator_name co = get_string (rs_properties r) RESOURCE_NAME
    | Inr (k, ctx) \<Rightarrow> vc_name ctx = get_string (rs_properties r) RESOURCE_NAME)"

lemma plugin_namesD:
  assumes "plugin_names plug"
  shows "plug r = Inl co \<Longrightarrow> coordinator_name co = get_string (rs_properties r) RESOURCE_NAME"
    "plug r = Inr (k, ctx) \<Longrightarrow> vc_name ctx = get_string (rs_properties r) RESOURCE_NAME"
  using assms unfolding plugin_names_def by (auto split: sum.splits)

text \<open>As deep as there are resources is deep enough.\<close>

definition descendants :: "catalog_env \<Rightarrow> resc_row list \<Rightarrow> nat \<Rightarrow> nat set" where
  "descendants cenv rs a = {l. l < length rs \<and> below cenv rs a l}"

lemma descendants_child:
  assumes "parents_ranked cenv rank rs" "a < length rs" "c < length rs" "parent_of cenv rs c = Some a"
  shows "card (descendants cenv rs c) < card (descendants cenv rs a)"
proof (rule psubset_card_mono)
  show "finite (descendants cenv rs a)" by (rule finite_subset [of _ "{..<length rs}"]) (auto simp: descendants_def)
  have "\<not> below cenv rs c a" using below_rank [OF assms(1), of c a] assms by (auto simp: parents_ranked_def)
  then have "a \<notin> descendants cenv rs c" by (simp add: descendants_def)
  moreover have "a \<in> descendants cenv rs a" using assms(2) by (simp add: descendants_def below_self)
  moreover have "descendants cenv rs c \<subseteq> descendants cenv rs a"
    using below_trans [OF _ below_step [OF assms(4) below_self]] by (auto simp: descendants_def)
  ultimately show "descendants cenv rs c \<subset> descendants cenv rs a" by blast
qed

lemma tree_of_deep:
  assumes "wired cenv rs m" "parents_ranked cenv rank rs"
  shows "a < length rs \<Longrightarrow> card (descendants cenv rs a) \<le> n \<Longrightarrow> tree_of plug m (n + k) a = tree_of plug m n a"
proof (induction n arbitrary: a)
  case 0
  have "finite (descendants cenv rs a)" by (rule finite_subset [of _ "{..<length rs}"]) (auto simp: descendants_def)
  moreover have "a \<in> descendants cenv rs a" using 0(1) by (simp add: descendants_def below_self)
  ultimately show ?case using 0(2) by auto
next
  case (Suc n)
  have "tree_of plug m (n + k) (snd (snd e)) = tree_of plug m n (snd (snd e))" if "e \<in> set (rs_children (deref m a))" for e
  proof -
    have "snd (snd e) < length rs" "parent_of cenv rs (snd (snd e)) = Some a"
      using that wired_child [OF assms(1) Suc.prems(1), of "fst e" "fst (snd e)" "snd (snd e)"] by simp_all
    with descendants_child [OF assms(2) Suc.prems(1) this] Suc.prems(2) show ?thesis by (intro Suc.IH) simp_all
  qed
  then show ?case by (auto split: sum.split cong: map_cong)
qed

lemma tree_of_complete:
  assumes "wired cenv rs m" "parents_ranked cenv rank rs" "a < length rs"
  shows "tree_of plug m (length (store m) + k) a = tree_of plug m (length (store m)) a"
proof (rule tree_of_deep [OF assms])
  have "card (descendants cenv rs a) \<le> card {..<length rs}" by (rule card_mono) (auto simp: descendants_def)
  also have "\<dots> = length (store m)" using assms(1) by (auto simp: connected_def tables_def dest: list_all2_lengthD)
  finally show "card (descendants cenv rs a) \<le> length (store m)" .
qed

text \<open>The leaves of the tree below a resource are resources of the manager, and the path to one continues the hierarchy
  of the resource to its own.\<close>

lemma tree_leaves:
  assumes "wired cenv rs m" "plugin_names plug"
  shows "a < length rs \<Longrightarrow> hier_path cenv rs a pa \<Longrightarrow> (q, ctx) \<in> set (leaves (tree_of plug m n a)) \<Longrightarrow>
    \<exists>l<length rs. hier_path cenv rs l (butlast pa @ q) \<and> (\<exists>k. plug (deref m l) = Inr (k, ctx))"
proof (induction n arbitrary: a pa q)
  case (Suc n)
  have pa: "butlast pa @ [row_name (rs ! a)] = pa" using hier_path_last [OF Suc.prems(2)] by (metis append_butlast_last_id)
  note name = wired_at(1) [OF assms(1) Suc.prems(1)]
  show ?case
  proof (cases "plug (deref m a)")
    case (Inl co)
    then have "coordinator_name co = Inr (row_name (rs ! a))" using plugin_namesD(1) [OF assms(2)] name by simp
    with Suc.prems(3) Inl obtain e p where e: "e \<in> set (rs_children (deref m a))" "q = row_name (rs ! a) # p"
      "(p, ctx) \<in> set (leaves (tree_of plug m n (snd (snd e))))" by auto
    have c: "snd (snd e) < length rs" "parent_of cenv rs (snd (snd e)) = Some a"
      using e(1) wired_child [OF assms(1) Suc.prems(1), of "fst e" "fst (snd e)" "snd (snd e)"] by simp_all
    from Suc.IH [OF c(1) hier_child [OF c(2) Suc.prems(2)] e(3)] e(2) show ?thesis
      using pa by (metis append.assoc append_Cons append_Nil butlast_snoc)
  next
    case (Inr x)
    then show ?thesis using Suc.prems pa name plugin_namesD(2) [OF assms(2), of "deref m a"] by (cases x) auto
  qed
next
  case 0
  have pa: "butlast pa @ [row_name (rs ! a)] = pa" using hier_path_last [OF 0(2)] by (metis append_butlast_last_id)
  show ?case
  proof (cases "plug (deref m a)")
    case (Inr x)
    then show ?thesis using 0 pa wired_at(1) [OF assms(1) 0(1)] plugin_namesD(2) [OF assms(2), of "deref m a"] by (cases x) auto
  qed (use 0(3) in \<open>auto split: sum.splits\<close>)
qed

section \<open>From the request to the registered replica\<close>

lemma root_leaf_registered:
  assumes "filled cenv rs m" "plugin_names plug" "e \<in> set (resource_name_map m)"
    "\<not> (case resolve m (fst e) of Inl _ \<Rightarrow> False | Inr a \<Rightarrow> ok (fst (get_parent (deref m a))))"
    "(path, ctx) \<in> set (leaves (tree_of plug m n (snd e)))"
  shows "\<exists>l<length rs. \<exists>k. plug (deref m l) = Inr (k, ctx) \<and> hier_to_leaf_id m (hp_str path []) = Inr (strtoll (row_id (rs ! l))) \<and>
    leaf_id_to_hier m (strtoll (row_id (rs ! l))) = Some (Inr (hp_str path []))"
proof -
  note w = filledD(1) [OF assms(1)]
  have e: "snd e < length rs" "fst e = row_name (rs ! snd e)" using name_map_addresses(3) [OF filledD(3) [OF assms(1)]] assms(3) by auto
  then have res: "resolve m (fst e) = Inr (snd e)"
    using wired_at(5) [OF w e(1)] filledD(4) [OF assms(1) e(1)] by (auto simp: resolve_def valid_name_def)
  have "parent_of cenv rs (snd e) = None"
    using assms(4) unfolding res sum.case get_parent_def wired_at(4) [OF w e(1)] by (auto split: if_splits)
  from tree_leaves [OF w assms(2) e(1) hier_root [OF this] assms(5)] obtain l k
    where l: "l < length rs" "hier_path cenv rs l path" "plug (deref m l) = Inr (k, ctx)" by auto
  have path: "hp_str path [] = joins DELIM path" using hier_path_names [OF l(2,1) filledD(2) [OF assms(1)]] by (simp add: hp_str_valid)
  from l hier_to_id(1) [OF assms(1) l(1,2)] id_to_hier(1) [OF assms(1) l(1,2)] show ?thesis unfolding path by blast
qed

text \<open>C1 (safety). Let the manager be filled from a catalog in order, its plugins know the names of their resources, 0
  times a weight be 0, and every tree of resources have \<open>tree_ok\<close>: names that can be printed and parsed, and
  below a replication resource only resources with \<open>definite_tree\<close>, which never report \<^verbatim>\<open>CHILD_NOT_FOUND\<close>. When
  the selection over these resources returns a hierarchy for opening, writing or unlinking an existing
  object, without a requested replica, the object is left with that hierarchy, and one of two things holds. The
  hierarchy belongs to a storage resource of the catalog that is up and holds a replica of the object which
  is neither locked nor, unless the client presents its token, intermediate, and it translates into the id of
  that resource and the id back into the hierarchy. Or it is the hierarchy the client itself has named with
  \<^verbatim>\<open>RESC_HIER_STR_KW\<close>, and the catalog has a replication resource, which passes it on unchecked.\<close>

theorem selected_hierarchy_registered:
  assumes "catalog_ok cenv rows" "init_from_catalog cenv rows resource_manager = Some (err, m)" "rs = filter (loads cenv) rows"
    "plugin_names plug" "\<forall>w. te_mul env 0 w = 0" "fo_repl_requested f \<le> -1" "oper \<noteq> CREATE_OPERATION"
    "\<forall>a<length rs. tree_ok oper f (tree_of plug m (length rs) a)"
    "resolve_hier_for_open_or_write (manager_redirect env plug m renv) kw oper f = (Inr h, f')"
  shows "fo_resc_hier f' = h \<and> ((\<exists>l<length rs. \<exists>k ctx i. plug (deref m l) = Inr (k, ctx) \<and> serves env f ctx i \<and>
    hier_to_leaf_id m h = Inr (strtoll (row_id (rs ! l))) \<and> leaf_id_to_hier m (strtoll (row_id (rs ! l))) = Some (Inr h)) \<or>
    (\<exists>a<length rs. \<exists>named. has_replication (tree_of plug m (length rs) a) \<and> client_hierarchy f named \<and> h = hp_str named []))"
proof -
  from init_filled [OF assms(1,2)] assms(3) have f: "filled cenv rs m" by simp
  let ?R = "renv\<lparr>re_resolve := (\<lambda>n. case resolve m n of Inl c \<Rightarrow> ERROR c | Inr _ \<Rightarrow> SUCCESS),
       re_has_parent := (\<lambda>n. case resolve m n of Inl _ \<Rightarrow> False | Inr a \<Rightarrow> ok (fst (get_parent (deref m a))))\<rparr>"
  have len: "length (store m) = length rs" using filledD(3) [OF f] by (auto simp: tables_def dest: list_all2_lengthD)
  note addr = name_map_addresses(3) [OF filledD(3) [OF f]]
  have "\<forall>x\<in>set (map (\<lambda>e. (fst e, tree_of plug m (length (store m)) (snd e))) (resource_name_map m)). tree_ok oper f (snd x)"
    using addr assms(8) len by auto
  from selected_serves [OF assms(5-7) this assms(9) [unfolded manager_redirect_def]] obtain rt t
    where h: "fo_resc_hier f' = h" and t: "(rt, t) \<in> set (map (\<lambda>e. (fst e, tree_of plug m (length (store m)) (snd e))) (resource_name_map m))"
      and root': "\<not> re_has_parent ?R rt"
      and sel: "(\<exists>path ctx i. (path, ctx) \<in> set (leaves t) \<and> h = hp_str path [] \<and> serves env f ctx i) \<or>
        (\<exists>l. has_replication t \<and> client_hierarchy f l \<and> h = hp_str l [])"
    by blast
  from root' have root: "\<not> (case resolve m rt of Inl _ \<Rightarrow> False | Inr a \<Rightarrow> ok (fst (get_parent (deref m a))))" by simp
  from t obtain e where e: "e \<in> set (resource_name_map m)" and rt: "rt = fst e" "t = tree_of plug m (length rs) (snd e)" by (auto simp: len)
  from sel show ?thesis
  proof
    assume "\<exists>path ctx i. (path, ctx) \<in> set (leaves t) \<and> h = hp_str path [] \<and> serves env f ctx i"
    then obtain path ctx i where p: "(path, ctx) \<in> set (leaves t)" "h = hp_str path []" "serves env f ctx i" by blast
    from root_leaf_registered [OF f assms(4) e root [unfolded rt] p(1) [unfolded rt]] obtain l k
      where l: "l < length rs" "plug (deref m l) = Inr (k, ctx)" "hier_to_leaf_id m h = Inr (strtoll (row_id (rs ! l)))"
        "leaf_id_to_hier m (strtoll (row_id (rs ! l))) = Some (Inr h)" unfolding p(2) by blast
    from l p(3) h show ?thesis by (intro conjI disjI1 exI)
  next
    assume "\<exists>l. has_replication t \<and> client_hierarchy f l \<and> h = hp_str l []"
    with addr e rt(2) h show ?thesis by blast
  qed
qed

section \<open>The sample tree in a catalog\<close>

definition sample_pair :: "resc_row list" where
  "sample_pair = [sample_row ''1'' ''d'' [], sample_row ''2'' ''r'' ''1'']"

definition sample_plugins :: plugins where
  "sample_plugins r = (case get_string (rs_properties r) RESOURCE_NAME of
      Inl c \<Rightarrow> Inl (Deferred (Inl c))
    | Inr n \<Rightarrow> if n = ''d'' then Inl (Deferred (Inr n)) else Inr (Unixfilesystem, (sample_context ''h'')\<lparr>vc_name := Inr n\<rparr>))"

lemma sample_plugin_names: "plugin_names sample_plugins"
  by (auto simp: plugin_names_def sample_plugins_def split: sum.split)

lemma sample_pair_loads: "filter (loads sample_catalog) sample_pair = sample_pair" "length sample_pair = 2"
  by (simp_all add: loads_def sample_catalog_def load_resource_plugin_def sample_pair_def)

lemma sample_pair_names: "row_name (sample_pair ! 0) = ''d''" "row_name (sample_pair ! 1) = ''r''"
  by (simp_all add: sample_pair_def sample_row_def)

lemma sample_pair_ok: "catalog_ok sample_catalog sample_pair" "children_ranked (\<lambda>_. 0) sample_pair"
  unfolding catalog_ok_def children_ranked_def sample_pair_loads
  by (simp_all add: sample_starts sample_pair_def sample_row_def strtoll_sample valid_name_def cp_set_string_def Let_def less_Suc_eq numeral_2_eq_2)

lemma sample_pair_parents: "parent_of sample_catalog sample_pair 0 = None" "parent_of sample_catalog sample_pair 1 = Some 0"
  by (simp_all add: parent_of_def sample_pair_def sample_row_def sample_catalog_def strtoll_sample upt_rec)

lemma map_of_trees: "map_of (map (\<lambda>e. (fst e, g (snd e))) t) k = map_option g (map_of t k)"
  by (induction t) auto

lemma distinct_singleton_list: "distinct xs \<Longrightarrow> set xs = {x} \<Longrightarrow> xs = [x]"
  by (cases xs; cases "tl xs") auto

lemma sample_pair_tree:
  assumes "filled sample_catalog sample_pair m"
  shows "tree_of sample_plugins m 2 0 = sample_tree" "tree_of sample_plugins m 2 1 = Storage Unixfilesystem (sample_context ''h'')"
proof -
  note w = filledD(1) [OF assms]
  have names: "get_string (rs_properties (deref m 0)) RESOURCE_NAME = Inr ''d''" "get_string (rs_properties (deref m 1)) RESOURCE_NAME = Inr ''r''"
    using wired_at(1) [OF w, of 0] wired_at(1) [OF w, of 1] by (simp_all add: sample_pair_loads(2) sample_pair_names del: One_nat_def)
  have ctx: "(sample_context ''h'')\<lparr>vc_name := Inr ''r''\<rparr> = sample_context ''h''" by (simp add: sample_context_def)
  have "{c. c < length sample_pair \<and> parent_of sample_catalog sample_pair c = Some 0} = {1}"
    using sample_pair_parents by (auto simp: sample_pair_loads(2) less_2_cases_iff)
  with wired_addresses(2,3) [OF w, of 0] have "child_addresses (deref m 0) = [1]"
    by (intro distinct_singleton_list) (simp_all add: sample_pair_loads(2))
  then obtain n x where ch: "rs_children (deref m 0) = [(n, x, 1)]" by (auto simp: child_addresses_def map_eq_Cons_conv)
  with wired_child [OF w, of 0 n x 1] have "n = ''r''"
    by (simp add: sample_pair_loads(2) sample_pair_names del: One_nat_def)
  with ch names ctx show "tree_of sample_plugins m 2 0 = sample_tree" "tree_of sample_plugins m 2 1 = Storage Unixfilesystem (sample_context ''h'')"
    by (simp_all add: numeral_2_eq_2 sample_plugins_def sample_tree_def)
qed

theorem selected_hierarchy_registered_witness:
  "\<exists>m. init_from_catalog sample_catalog sample_pair resource_manager = Some (SUCCESS, m) \<and>
     (\<exists>l<2. \<exists>k ctx i. sample_plugins (deref m l) = Inr (k, ctx) \<and> serves sample_tree_env (sample_tree_object 0) ctx i \<and>
       hier_to_leaf_id m ''d;r'' = Inr (strtoll (row_id (sample_pair ! l))))"
proof -
  obtain m where m: "init_from_catalog sample_catalog sample_pair resource_manager = Some (SUCCESS, m)"
    using init_returns [OF sample_pair_ok(1) refl, of "\<lambda>_. 0"] sample_pair_ok(2) unfolding sample_pair_loads by blast
  have f: "filled sample_catalog sample_pair m" using init_filled [OF sample_pair_ok(1) m] by (simp only: sample_pair_loads)
  note tree = sample_pair_tree [OF f]
  have d: "map_of (resource_name_map m) ''d'' = Some 0" using wired_at(5) [OF filledD(1) [OF f], of 0] by (simp add: sample_pair_loads(2) sample_pair_names)
  have len: "length (store m) = 2" using filledD(3) [OF f] sample_pair_loads(2) by (auto simp: tables_def dest: list_all2_lengthD)
  have root: "rs_parent (deref m 0) = None" using wired_at(4) [OF filledD(1) [OF f], of 0] by (simp add: sample_pair_loads(2) sample_pair_parents)
  let ?renv = "storage_env Map.empty [] (\<lambda>_. sample_context ''h'')"
  let ?env = "manager_redirect sample_tree_env sample_plugins m ?renv"
  have call: "re_call ?env OPEN_OPERATION ''d'' (sample_tree_object 0) = (Inr (SUCCESS, [''d'', ''r''], 1), sample_tree_object 1)"
    using d tree(1) by (simp add: manager_redirect_def tree_redirect_def map_of_trees len resolve_sample_tree)
  have env: "ok (re_resolve ?env ''d'')" "\<not> re_has_parent ?env ''d''"
    using d root by (simp_all add: manager_redirect_def tree_redirect_def resolve_def get_parent_def)
  have "request_vote_for_file_object ?env OPEN_OPERATION ''d'' (sample_tree_object 0) = (Inr (SUCCESS, ''d;r'', 1), sample_tree_object 1)"
    by (simp add: request_vote_for_file_object_def env sbind_def call vote_is_zero_def hp_str_def DELIM_def Let_def)
  moreover have "root_map (fo_replicas (sample_tree_object 0)) [] = Inr [(''d'', 0)]"
    by (simp add: sample_tree_object_def parse_tree_sample hp_first_resc_def)
  moreover have "fo_repl_requested (sample_tree_object v) = -1" for v by (simp add: sample_tree_object_def sample_object_def)
  ultimately have sel: "resolve_hier_for_open_or_write ?env [] OPEN_OPERATION (sample_tree_object 0) =
      (Inr ''d;r'', (sample_tree_object 1)\<lparr>fo_resc_hier := ''d;r''\<rparr>)"
    by (simp add: resolve_hier_for_open_or_write_def vote_loop.simps sbind_def vote_is_zero_def Let_def)
  have "\<forall>a<length sample_pair. tree_ok OPEN_OPERATION (sample_tree_object 0) (tree_of sample_plugins m (length sample_pair) a)"
    using tree sample_tree_ok(1) by (auto simp: sample_pair_loads(2) less_2_cases_iff name_ok_def sample_name valid_name_def)
  from selected_hierarchy_registered [OF sample_pair_ok(1) m sample_pair_loads(1) [symmetric] sample_plugin_names sample_tree_ok(3) _ _ this sel]
  show ?thesis using m by (auto simp: client_hierarchy_def sample_tree_object_def sample_object_def sample_pair_loads(2))
qed

end
