(* ===== verification/Base64.thy ===== *)
theory Base64
  imports Std_String "HOL-Library.Word"
begin

unbundle bit_operations_syntax

text \<open>
  Base64, \<^verbatim>\<open>lib/core/src/base64.cpp\<close>. Bytes are words of eight bits, the text is a string, and the
  output buffer is the list of what has been written to it, with the capacity \<^verbatim>\<open>*outlen\<close> as an argument.
  The C integer promotions are written out: the encoder computes with 32-bit values, the decoder shifts
  into an \<^verbatim>\<open>unsigned long\<close> of 64 bits.
\<close>

abbreviation BASE64_BUFFER_OVERFLOW :: int where "BASE64_BUFFER_OVERFLOW \<equiv> - 324000"
abbreviation BASE64_INVALID_PACKET :: int where "BASE64_INVALID_PACKET \<equiv> - 325000"

type_synonym byte = "8 word"

definition codes :: string where
  "codes = ''ABCDEFGHIJKLMNOPQRSTUVWXYZabcdefghijklmnopqrstuvwxyz0123456789+/''"

definition mymap :: "byte list" where
  "mymap =
    [255, 255, 255, 255, 255, 255, 255, 255, 255, 255, 255, 255, 255, 255, 255, 255, 255, 255, 255, 255, 255, 255,
     255, 255, 255, 255, 255, 255, 255, 255, 255, 255, 255, 255, 255, 255, 255, 255, 255, 255, 255, 255, 255, 62,
     255, 255, 255, 63, 52, 53, 54, 55, 56, 57, 58, 59, 60, 61, 255, 255, 255, 254, 255, 255, 255, 0,
     1, 2, 3, 4, 5, 6, 7, 8, 9, 10, 11, 12, 13, 14, 15, 16, 17, 18, 19, 20, 21, 22,
     23, 24, 25, 255, 255, 255, 255, 255, 255, 26, 27, 28, 29, 30, 31, 32, 33, 34, 35, 36, 37, 38,
     39, 40, 41, 42, 43, 44, 45, 46, 47, 48, 49, 50, 51, 255, 255, 255, 255, 255, 255, 255, 255, 255,
     255, 255, 255, 255, 255, 255, 255, 255, 255, 255, 255, 255, 255, 255, 255, 255, 255, 255, 255, 255, 255, 255,
     255, 255, 255, 255, 255, 255, 255, 255, 255, 255, 255, 255, 255, 255, 255, 255, 255, 255, 255, 255, 255, 255,
     255, 255, 255, 255, 255, 255, 255, 255, 255, 255, 255, 255, 255, 255, 255, 255, 255, 255, 255, 255, 255, 255,
     255, 255, 255, 255, 255, 255, 255, 255, 255, 255, 255, 255, 255, 255, 255, 255, 255, 255, 255, 255, 255, 255,
     255, 255, 255, 255, 255, 255, 255, 255, 255, 255, 255, 255, 255, 255, 255, 255, 255, 255, 255, 255, 255, 255,
     255, 255, 255, 255, 255, 255, 255, 255, 255, 255, 255, 255, 255, 255]"

section \<open>The encoder\<close>

definition code_at :: "32 word \<Rightarrow> char" where
  "code_at w = codes ! unat (w AND 0x3F)"

text \<open>The loop over the whole groups of three bytes, and the padded group after it.\<close>

definition encode_pad :: "byte list \<Rightarrow> string" where
  "encode_pad inp =
     (if inp = [] then []
      else let a = ucast (inp ! 0) :: 32 word;
               b = (if 1 < length inp then ucast (inp ! 1) else 0) :: 32 word in
        [code_at (drop_bit 2 a),
         code_at (push_bit 4 (a AND 3) + drop_bit 4 b),
         (if 1 < length inp then code_at (push_bit 2 (b AND 0xF)) else CHR ''=''),
         CHR ''=''])"

fun encode_groups :: "byte list \<Rightarrow> string" where
  "encode_groups (x # y # z # inp) =
     (let a = ucast x :: 32 word; b = ucast y :: 32 word; c = ucast z :: 32 word in
        [code_at (drop_bit 2 a),
         code_at (push_bit 4 (a AND 3) + drop_bit 4 b),
         code_at (push_bit 2 (b AND 0xF) + drop_bit 6 c),
         code_at c]) @ encode_groups inp"
| "encode_groups inp = encode_pad inp"

definition encoded_length :: "nat \<Rightarrow> nat" where
  "encoded_length inlen = (4 * (((inlen + 2) mod 2 ^ 64) div 3)) mod 2 ^ 64"

text \<open>The result code, and the text left in the buffer without its terminating zero byte; its length
  is the new \<^verbatim>\<open>*outlen\<close>.\<close>

definition base64_encode :: "byte list \<Rightarrow> nat \<Rightarrow> int \<times> string" where
  "base64_encode inp outlen =
     (if outlen < encoded_length (length inp) + 1 then (BASE64_BUFFER_OVERFLOW, [])
      else (0, encode_groups inp))"

section \<open>The decoder\<close>

record decoder =
  dec_t :: "64 word"
  dec_y :: nat
  dec_g :: int
  dec_out :: "byte list"

definition decode_flush :: "decoder \<Rightarrow> decoder" where
  "decode_flush d = d\<lparr>dec_out := dec_out d @ [ucast (drop_bit 16 (dec_t d) AND 255)]
       @ (if dec_g d > 1 then [ucast (drop_bit 8 (dec_t d) AND 255)] else [])
       @ (if dec_g d > 2 then [ucast (dec_t d AND 255)] else []),
     dec_y := 0, dec_t := 0\<rparr>"

definition decode_push :: "byte \<Rightarrow> decoder \<Rightarrow> decoder" where
  "decode_push c d = d\<lparr>dec_t := push_bit 6 (dec_t d) OR ucast c, dec_y := dec_y d + 1\<rparr>"

definition decode_store :: "nat \<Rightarrow> decoder \<Rightarrow> int + decoder" where
  "decode_store outlen d =
     (if dec_y d = 4 then
        (if int (length (dec_out d)) + dec_g d > int outlen then Inl BASE64_BUFFER_OVERFLOW
         else Inr (decode_flush d))
      else Inr d)"

definition decode_char :: "nat \<Rightarrow> char \<Rightarrow> decoder \<Rightarrow> int + decoder" where
  "decode_char outlen ch d =
     (let c = mymap ! (of_char ch :: nat) in
      if c = 255 then Inr d
      else if c = 254 then
        (if dec_g d - 1 < 0 then Inl BASE64_INVALID_PACKET
         else decode_store outlen (decode_push 0 (d\<lparr>dec_g := dec_g d - 1\<rparr>)))
      else if dec_g d \<noteq> 3 then Inl BASE64_INVALID_PACKET
      else decode_store outlen (decode_push c d))"

fun decode_loop :: "nat \<Rightarrow> string \<Rightarrow> decoder \<Rightarrow> int \<times> byte list" where
  "decode_loop outlen [] d = (if dec_y d \<noteq> 0 then BASE64_INVALID_PACKET else 0, dec_out d)"
| "decode_loop outlen (ch # inp) d = (case decode_char outlen ch d of
      Inl ec \<Rightarrow> (ec, dec_out d)
    | Inr d' \<Rightarrow> decode_loop outlen inp d')"

text \<open>The result code, and all bytes written to the buffer.\<close>

definition base64_decode :: "string \<Rightarrow> nat \<Rightarrow> int \<times> byte list" where
  "base64_decode inp outlen = decode_loop outlen inp \<lparr>dec_t = 0, dec_y = 0, dec_g = 3, dec_out = []\<rparr>"

section \<open>What the bit operations compute\<close>

lemma unat_and_63: "unat (w AND 0x3F :: 32 word) = unat w mod 64"
proof -
  have "w AND 0x3F = take_bit 6 w" by (simp add: take_bit_eq_mask mask_eq_exp_minus_1)
  then show ?thesis
    using unsigned_take_bit_eq [of 6 w, where 'a = nat] by (simp add: take_bit_eq_mod)
qed

lemma code_at_unat: "code_at w = codes ! (unat w mod 64)"
  by (simp add: code_at_def unat_and_63)

lemma byte_less: "unat (x :: byte) < 256"
  using unsigned_less [of x, where 'a = nat] by simp

lemma unat_ucast_byte: "unat (ucast (x :: byte) :: 32 word) = unat x"
  using byte_less [of x] by (simp add: unsigned_ucast_eq take_bit_eq_mod)

lemma unat_shift_mask:
  "unat (push_bit 4 (a AND 3) :: 32 word) = unat a mod 4 * 16"
  "unat (push_bit 2 (b AND 0xF) :: 32 word) = unat b mod 16 * 4"
proof -
  have "a AND 3 = take_bit 2 a" "b AND 0xF = take_bit 4 b"
    by (simp_all add: take_bit_eq_mask mask_eq_exp_minus_1)
  then show "unat (push_bit 4 (a AND 3) :: 32 word) = unat a mod 4 * 16"
    "unat (push_bit 2 (b AND 0xF) :: 32 word) = unat b mod 16 * 4"
    by (simp_all del: push_bit_and add: push_bit_eq_mult unat_word_ariths unsigned_take_bit_eq take_bit_eq_mod)
qed

lemma unat_drop: "unat (drop_bit n w) = unat w div 2 ^ n"
  using unsigned_drop_bit_eq [of n w, where 'a = nat]
  by (simp add: drop_bit_eq_div take_bit_nat_eq_self)

lemma unat_second: "unat (push_bit 4 (a AND 3) + drop_bit 4 (ucast (y :: byte)) :: 32 word) = unat a mod 4 * 16 + unat y div 16"
  using byte_less [of y] unat_shift_mask(1) [of a]
  by (simp add: unat_word_ariths unat_drop unat_ucast_byte)

lemma unat_third: "unat (push_bit 2 (b AND 0xF) + drop_bit 6 (ucast (z :: byte)) :: 32 word) = unat b mod 16 * 4 + unat z div 64"
  using byte_less [of z] unat_shift_mask(2) [of b]
  by (simp add: unat_word_ariths unat_drop unat_ucast_byte)

text \<open>The four codes of a group, as numbers.\<close>

definition group_codes :: "nat \<Rightarrow> nat \<Rightarrow> nat \<Rightarrow> nat list" where
  "group_codes x y z = [x div 4, x mod 4 * 16 + y div 16, y mod 16 * 4 + z div 64, z mod 64]"

lemma encode_group_codes:
  "encode_groups (x # y # z # r) = map ((!) codes) (group_codes (unat x) (unat y) (unat z)) @ encode_groups r"
  using byte_less [of x] byte_less [of y] byte_less [of z]
  by (simp add: code_at_unat unat_second unat_third unat_drop unat_ucast_byte group_codes_def Let_def
      del: push_bit_and)

lemma encode_pad_codes:
  "encode_pad [x] = map ((!) codes) (take 2 (group_codes (unat x) 0 0)) @ ''==''"
  "encode_pad [x, y] = map ((!) codes) (take 3 (group_codes (unat x) (unat y) 0)) @ ''=''"
  using byte_less [of x] byte_less [of y] unat_second [of "ucast x" 0] unat_third [of "ucast y" 0]
  by (simp_all add: encode_pad_def code_at_unat unat_second unat_drop unat_ucast_byte group_codes_def
      Let_def unat_shift_mask del: push_bit_and)

lemma mymap_codes_table: "map (\<lambda>c. mymap ! of_char c) codes = map word_of_nat [0..<64]"
proof -
  have "map (\<lambda>c. mymap ! of_char c) codes = [0, 1, 2, 3, 4, 5, 6, 7, 8, 9, 10, 11, 12, 13, 14, 15, 16, 17,
      18, 19, 20, 21, 22, 23, 24, 25, 26, 27, 28, 29, 30, 31, 32, 33, 34, 35, 36, 37, 38, 39, 40, 41, 42,
      43, 44, 45, 46, 47, 48, 49, 50, 51, 52, 53, 54, 55, 56, 57, 58, 59, 60, 61, 62, 63]"
    by (simp add: mymap_def codes_def)
  then show ?thesis by (simp only:) code_simp
qed

lemma length_codes: "length codes = 64"
  by (simp add: codes_def)

lemma mymap_codes: "k < 64 \<Longrightarrow> mymap ! (of_char (codes ! k)) = word_of_nat k"
  using arg_cong [OF mymap_codes_table, of "\<lambda>xs. xs ! k"] by (simp add: length_codes)

lemma push_bits:
  assumes "k < 64"
  shows "push_bit 6 (word_of_nat t) OR ucast (word_of_nat k :: byte) = (word_of_nat (t * 64 + k) :: 64 word)"
proof -
  have k: "ucast (word_of_nat k :: byte) = (word_of_nat k :: 64 word)"
    using assms by (simp add: word_eq_iff_unsigned unsigned_ucast_eq unsigned_of_nat take_bit_eq_mod)
  have "take_bit 6 (word_of_nat k :: 64 word) = word_of_nat k"
    using assms unsigned_take_bit_eq [of 6 "word_of_nat k :: 64 word", where 'a = nat]
    by (simp only: word_unat_eq_iff) (simp add: unsigned_of_nat take_bit_nat_eq_self)
  then have "push_bit 6 (word_of_nat t) AND word_of_nat k = push_bit 6 (word_of_nat t) AND take_bit 6 (word_of_nat k :: 64 word)"
    by (simp only:)
  also have "\<dots> = 0" by (rule bit_word_eqI) (auto simp: bit_simps)
  finally have "push_bit 6 (word_of_nat t) AND word_of_nat k = (0 :: 64 word)" .
  then show ?thesis
    using disjunctive_add_eq_or [of "push_bit 6 (word_of_nat t) :: 64 word" "word_of_nat k"]
    by (simp add: k push_bit_eq_mult)
qed

lemma flush_byte:
  assumes "t < 2 ^ 24"
  shows "ucast (drop_bit n (word_of_nat t :: 64 word) AND 255) = (word_of_nat (t div 2 ^ n) :: byte)"
proof -
  have "drop_bit n (word_of_nat t :: 64 word) AND 255 = take_bit 8 (drop_bit n (word_of_nat t))"
    by (simp add: take_bit_eq_mask mask_eq_exp_minus_1)
  moreover have "unat (ucast (take_bit 8 (drop_bit n (word_of_nat t :: 64 word))) :: byte) = (t div 2 ^ n) mod 256"
    using assms unsigned_take_bit_eq [of 8 "drop_bit n (word_of_nat t) :: 64 word", where 'a = nat]
    by (simp only: unsigned_ucast_eq unat_drop) (simp add: unsigned_of_nat take_bit_eq_mod)
  ultimately have "unat (ucast (drop_bit n (word_of_nat t :: 64 word) AND 255) :: byte) = (t div 2 ^ n) mod 256"
    by (simp only:)
  then show ?thesis by (simp add: word_unat_eq_iff unsigned_of_nat take_bit_eq_mod)
qed

section \<open>Decoding what was encoded\<close>

definition partial_group :: "nat \<Rightarrow> nat \<Rightarrow> int \<Rightarrow> byte list \<Rightarrow> decoder" where
  "partial_group t y g bs = \<lparr>dec_t = word_of_nat t, dec_y = y, dec_g = g, dec_out = bs\<rparr>"

lemma decode_code:
  assumes "k < 64"
  shows "decode_char n (codes ! k) (partial_group t y 3 bs) = decode_store n (partial_group (t * 64 + k) (Suc y) 3 bs)"
proof -
  have "(word_of_nat k :: byte) \<noteq> 255" "(word_of_nat k :: byte) \<noteq> 254"
    using assms by (simp_all add: word_unat_eq_iff unsigned_of_nat take_bit_eq_mod)
  with assms show ?thesis
    by (simp add: decode_char_def mymap_codes decode_push_def push_bits partial_group_def)
qed

lemma decode_equals:
  "1 \<le> g \<Longrightarrow> decode_char n (CHR ''='') (partial_group t y g bs) = decode_store n (partial_group (t * 64) (Suc y) (g - 1) bs)"
  using push_bits [of 0 t] by (simp add: decode_char_def mymap_def decode_push_def partial_group_def)

lemma decode_store_simps:
  "y < 4 \<Longrightarrow> decode_store n (partial_group t y g bs) = Inr (partial_group t y g bs)"
  "int (length bs) + g \<le> int n \<Longrightarrow> t < 2 ^ 24 \<Longrightarrow> decode_store n (partial_group t 4 g bs) =
     Inr (partial_group 0 0 g (bs @ [word_of_nat (t div 2 ^ 16)] @
       (if g > 1 then [word_of_nat (t div 2 ^ 8)] else []) @ (if g > 2 then [word_of_nat t] else [])))"
  using flush_byte [of t 16] flush_byte [of t 8] flush_byte [of t 0]
  by (simp_all add: decode_store_def decode_flush_def partial_group_def)

lemma decode_loop_code:
  "k < 64 \<Longrightarrow> y < 3 \<Longrightarrow> decode_loop n (codes ! k # r) (partial_group t y 3 bs) =
     decode_loop n r (partial_group (t * 64 + k) (Suc y) 3 bs)"
  by (simp add: decode_code decode_store_simps(1))

lemma decode_loop_equals:
  "y < 3 \<Longrightarrow> 1 \<le> g \<Longrightarrow> decode_loop n (CHR ''='' # r) (partial_group t y g bs) =
     decode_loop n r (partial_group (t * 64) (Suc y) (g - 1) bs)"
  by (simp add: decode_equals decode_store_simps(1))

lemma decode_loop_last:
  "k < 64 \<Longrightarrow> length bs + 3 \<le> n \<Longrightarrow> t < 2 ^ 18 \<Longrightarrow> decode_loop n (codes ! k # r) (partial_group t 3 3 bs) =
     decode_loop n r (partial_group 0 0 3 (bs @ [word_of_nat ((t * 64 + k) div 2 ^ 16), word_of_nat ((t * 64 + k) div 2 ^ 8),
       word_of_nat (t * 64 + k)]))"
  using decode_store_simps(2) [of bs 3 n "t * 64 + k"] by (simp add: decode_code)

lemma decode_loop_last_equals:
  "g = 2 \<or> g = 3 \<Longrightarrow> int (length bs) + (g - 1) \<le> int n \<Longrightarrow> t < 2 ^ 18 \<Longrightarrow>
     decode_loop n ''='' (partial_group t 3 g bs) =
     (0, bs @ [word_of_nat ((t * 64) div 2 ^ 16)] @ (if g = 3 then [word_of_nat ((t * 64) div 2 ^ 8)] else []))"
  using decode_store_simps(2) [of bs "g - 1" n "t * 64"]
  by (auto simp: decode_equals partial_group_def [of 0])

text \<open>The 24 bits of a group are its three bytes.\<close>

lemma group_bits:
  fixes x y z :: nat
  shows "((x div 4 * 64 + (x mod 4 * 16 + y div 16)) * 64 + (y mod 16 * 4 + z div 64)) * 64 + z mod 64 =
    x * 65536 + y * 256 + z"
proof -
  have "((a * 64 + (b * 16 + c)) * 64 + (d * 4 + e)) * 64 + f = (a * 4 + b) * 65536 + (c * 16 + d) * 256 + (e * 64 + f)"
    for a b c d e f :: nat by simp
  from this [of "x div 4" "x mod 4" "y div 16" "y mod 16" "z div 64" "z mod 64"]
  show ?thesis by (simp only: div_mult_mod_eq)
qed

lemma group_codes_less:
  "x < 256 \<Longrightarrow> x div 4 < (64 :: nat)" "y < 256 \<Longrightarrow> x mod 4 * 16 + y div 16 < (64 :: nat)"
  "z < 256 \<Longrightarrow> y mod 16 * 4 + z div 64 < (64 :: nat)"
  using mod_less_divisor [of 4 x] mod_less_divisor [of 16 y] by linarith+

lemma word_of_nat_byte: "(word_of_nat (256 * m + unat x) :: byte) = x"
proof -
  have "unat (word_of_nat (256 * m + unat x) :: byte) = unat x"
    using byte_less [of x] by (simp only: unsigned_of_nat take_bit_eq_mod) simp
  then show ?thesis by (simp only: word_unat_eq_iff)
qed

lemma group_bytes:
  fixes x y z :: byte
  defines "t \<equiv> ((unat x div 4 * 64 + (unat x mod 4 * 16 + unat y div 16)) * 64 + (unat y mod 16 * 4 + unat z div 64)) * 64 + unat z mod 64"
  shows "word_of_nat (t div 2 ^ 16) = x" "word_of_nat (t div 2 ^ 8) = y" "word_of_nat t = z"
proof -
  have t: "t = unat x * 65536 + unat y * 256 + unat z" unfolding t_def by (rule group_bits)
  moreover have "unat x < 256" "unat y < 256" "unat z < 256" by (rule byte_less)+
  ultimately have "t div 2 ^ 16 = 256 * 0 + unat x" "t div 2 ^ 8 = 256 * unat x + unat y"
    "t = 256 * (unat x * 256 + unat y) + unat z" by auto
  then show "word_of_nat (t div 2 ^ 16) = x" "word_of_nat (t div 2 ^ 8) = y" "word_of_nat t = z"
    by (simp_all only: word_of_nat_byte)
qed

lemma decode_loop_three:
  assumes "a < 64" "b < 64" "c < 64"
  shows "decode_loop n (codes ! a # codes ! b # r) (partial_group 0 0 3 bs) =
      decode_loop n r (partial_group (a * 64 + b) 2 3 bs)"
    and "decode_loop n (codes ! a # codes ! b # codes ! c # r) (partial_group 0 0 3 bs) =
      decode_loop n r (partial_group ((a * 64 + b) * 64 + c) 3 3 bs)"
  using assms decode_loop_code [of a 0 n "codes ! b # r" 0 bs] decode_loop_code [of b 1 n r a bs]
    decode_loop_code [of a 0 n "codes ! b # codes ! c # r" 0 bs] decode_loop_code [of b 1 n "codes ! c # r" a bs]
    decode_loop_code [of c 2 n r "a * 64 + b" bs]
  by (simp_all del: decode_loop.simps add: numeral_2_eq_2 numeral_3_eq_3)

lemmas byte_codes_less = group_codes_less [OF byte_less] group_codes_less(2,3) [of 0]

lemma group_prefix_less: "unat (x :: byte) div 4 * 64 + (unat x mod 4 * 16 + unat (y :: byte) div 16) < 2 ^ 12"
  using byte_less [of x] group_codes_less(1) [of "unat x"] group_codes_less(2) [OF byte_less [of y], of "unat x"] by simp

lemma decode_group:
  assumes "length bs + 3 \<le> n"
  shows "decode_loop n (map ((!) codes) (group_codes (unat x) (unat y) (unat z)) @ r) (partial_group 0 0 3 bs) =
    decode_loop n r (partial_group 0 0 3 (bs @ [x, y, z]))"
proof -
  let ?t = "(unat x div 4 * 64 + (unat x mod 4 * 16 + unat y div 16)) * 64 + (unat y mod 16 * 4 + unat z div 64)"
  have "?t < 2 ^ 18"
    using group_prefix_less [of x y] group_codes_less(3) [OF byte_less [of z], of "unat y"] by simp
  then show ?thesis
    using assms decode_loop_last [of "unat z mod 64" bs n ?t r]
    by (simp only: group_codes_def list.map append.simps decode_loop_three byte_codes_less group_bytes
        mod_less_divisor)
qed

lemma decode_pad:
  "length bs + 1 \<le> n \<Longrightarrow> decode_loop n (encode_pad [x]) (partial_group 0 0 3 bs) = (0, bs @ [x])"
  "length bs + 2 \<le> n \<Longrightarrow> decode_loop n (encode_pad [x, y]) (partial_group 0 0 3 bs) = (0, bs @ [x, y])"
proof -
  let ?s = "unat x div 4 * 64 + (unat x mod 4 * 16 + unat (0 :: byte) div 16)"
  have s: "?s * 64 < 2 ^ 18" using group_prefix_less [of x 0] by simp
  have x: "word_of_nat (?s * 64 * 64 div 2 ^ 16) = x"
    using group_bytes(1) [of x 0 0] by simp
  show "decode_loop n (encode_pad [x]) (partial_group 0 0 3 bs) = (0, bs @ [x])" if "length bs + 1 \<le> n"
    using that decode_loop_last_equals [of 2 bs n "?s * 64"] decode_loop_equals [of 2 3 n "''=''" ?s bs] s x
      decode_loop_three(1) [of "unat x div 4" "unat x mod 4 * 16 + unat (0 :: byte) div 16" 0 n "''==''" bs]
      byte_codes_less(1) [of x] byte_codes_less(2) [of "unat x" 0]
    by (simp del: decode_loop.simps add: encode_pad_codes group_codes_def)
  let ?t = "(unat x div 4 * 64 + (unat x mod 4 * 16 + unat y div 16)) * 64 + unat y mod 16 * 4"
  have t: "?t < 2 ^ 18"
    using group_prefix_less [of x y] by (simp add: mod_less_divisor less_mult_imp_div_less)
  have xy: "word_of_nat (?t * 64 div 2 ^ 16) = x" "word_of_nat (?t * 64 div 2 ^ 8) = y"
    using group_bytes(1,2) [of x y 0] by simp_all
  show "decode_loop n (encode_pad [x, y]) (partial_group 0 0 3 bs) = (0, bs @ [x, y])" if "length bs + 2 \<le> n"
    using that decode_loop_last_equals [of 3 bs n ?t] t xy
      decode_loop_three(2) [of "unat x div 4" "unat x mod 4 * 16 + unat y div 16" "unat y mod 16 * 4" n "''=''" bs]
      byte_codes_less(1) [of x] byte_codes_less(2) [of "unat x" y] byte_codes_less(3) [of "unat y" 0]
    by (simp del: decode_loop.simps add: encode_pad_codes group_codes_def)
qed

lemma decode_encode_groups:
  "length bs + length inp \<le> n \<Longrightarrow> decode_loop n (encode_groups inp) (partial_group 0 0 3 bs) = (0, bs @ inp)"
proof (induction inp arbitrary: bs rule: encode_groups.induct)
  case (1 x y z inp)
  then show ?case using 1(1) [of "bs @ [x, y, z]"] by (simp only: encode_group_codes decode_group) (simp add: decode_group)
next
  case "2_1"
  then show ?case by (simp add: encode_pad_def partial_group_def)
qed (simp_all add: decode_pad)

lemma length_encode_groups: "length (encode_groups inp) = 4 * ((length inp + 2) div 3)"
proof (induction inp rule: encode_groups.induct)
  case (1 x y z inp)
  have "(length (x # y # z # inp) + 2) div 3 = Suc ((length inp + 2) div 3)" by simp
  with 1 show ?case by (simp only: encode_group_codes) (simp add: group_codes_def)
qed (simp_all add: Let_def encode_pad_def)

lemma encoded_length_eq: "n < 2 ^ 62 \<Longrightarrow> encoded_length n = 4 * ((n + 2) div 3)"
  by (simp add: encoded_length_def)

lemma base64_encode_ok:
  "length inp < 2 ^ 62 \<Longrightarrow> 4 * ((length inp + 2) div 3) < n \<Longrightarrow> base64_encode inp n = (0, encode_groups inp)"
  by (simp add: base64_encode_def encoded_length_eq)

section \<open>What the decoder writes\<close>

lemma length_decode_store:
  "decode_store n d = Inr d' \<Longrightarrow> 0 \<le> dec_g d \<Longrightarrow> int (length (dec_out d)) \<le> int n \<Longrightarrow>
     dec_g d' = dec_g d \<and> int (length (dec_out d')) \<le> int n + (if dec_g d = 0 then 1 else 0)"
  by (auto simp: decode_store_def decode_flush_def split: if_splits)

lemma decode_char_cases:
  assumes "decode_char n ch d = Inr d'"
  shows "d' = d \<or> (\<exists>d0. decode_store n d0 = Inr d' \<and> dec_out d0 = dec_out d \<and>
    (dec_g d = 3 \<and> dec_g d0 = 3 \<and> mymap ! (of_char ch) \<noteq> 254 \<or>
     0 < dec_g d \<and> dec_g d0 = dec_g d - 1 \<and> mymap ! (of_char ch) = 254))"
  using assms
  by (cases "mymap ! (of_char ch :: nat) = 254")
    (auto simp: decode_char_def decode_push_def Let_def split: if_splits intro: exI [rotated])

lemma decode_char_bound:
  assumes "decode_char n ch d = Inr d'" "0 \<le> dec_g d" "length (dec_out d) \<le> n + (if dec_g d = 0 then 1 else 0)"
  shows "0 \<le> dec_g d' \<and> length (dec_out d') \<le> n + (if dec_g d' = 0 then 1 else 0)"
  using decode_char_cases [OF assms(1)] assms(2,3) length_decode_store [of n _ d'] by fastforce

lemma mymap_254: "list_all (\<lambda>e. snd e = 254 \<longrightarrow> fst e = 61) (enumerate 0 mymap)"
  by (simp add: mymap_def)

lemma mymap_equals: "mymap ! (of_char ch) = 254 \<Longrightarrow> ch = CHR ''=''"
proof -
  assume *: "mymap ! (of_char ch) = 254"
  have "length mymap = 256" by code_simp
  then have "of_char ch < length mymap" by simp
  then have "(of_char ch, mymap ! of_char ch) \<in> set (enumerate 0 mymap)"
    by (auto simp: in_set_enumerate_eq)
  with * mymap_254 have "of_char ch = (of_char (CHR ''='') :: nat)" by (force simp: list_all_iff)
  then show "ch = CHR ''=''" by (simp only: of_char_eq_iff)
qed

lemma decode_loop_bound:
  "0 \<le> dec_g d \<Longrightarrow> length (dec_out d) \<le> n + (if dec_g d = 0 then 1 else 0) \<Longrightarrow>
     length (snd (decode_loop n s d)) \<le> n + 1"
proof (induction s arbitrary: d)
  case (Cons ch s)
  then show ?case
    using decode_char_bound [of n ch d] by (auto split: sum.splits if_splits)
qed (auto split: if_splits)

lemma decode_loop_bound_padded:
  "int (count_list s (CHR ''='')) < dec_g d \<Longrightarrow> length (dec_out d) \<le> n \<Longrightarrow> length (snd (decode_loop n s d)) \<le> n"
proof (induction s arbitrary: d)
  case (Cons ch s)
  have "int (count_list s (CHR ''='')) < dec_g d' \<and> length (dec_out d') \<le> n" if "decode_char n ch d = Inr d'" for d'
    using decode_char_cases [OF that] Cons.prems length_decode_store [of n _ d'] mymap_equals [of ch]
    by (fastforce split: if_splits)
  with Cons show ?case by (auto split: sum.splits)
qed auto

text \<open>C16 (roundtrip). With room for the text and its terminating zero, the encoder succeeds and stays inside the
  buffer, and the decoder, with room for the bytes, reads the same bytes back.\<close>

theorem base64_roundtrip:
  assumes "length inp < 2 ^ 62" "4 * ((length inp + 2) div 3) < n" "length inp \<le> m"
  shows "\<exists>s. base64_encode inp n = (0, s) \<and> length s < n \<and> base64_decode s m = (0, inp)"
  using assms decode_encode_groups [of "[]" inp m]
  by (simp add: base64_encode_ok length_encode_groups base64_decode_def partial_group_def)

theorem base64_roundtrip_witness:
  "\<exists>s. base64_encode [0, 255, 7, 19] 9 = (0, s) \<and> length s < 9 \<and> base64_decode s 4 = (0, [0, 255, 7, 19])"
  by (rule base64_roundtrip) simp_all

text \<open>C39 (bounds). Whatever the text, the decoder writes at most one byte past the given capacity, and it
  stays inside it when the text has at most two padding characters. With three it does not: the check
  \<^verbatim>\<open>z + g > *outlen\<close> asks for no room when \<^verbatim>\<open>g\<close> is zero, and the byte is written all the same.\<close>

theorem base64_decode_bounds:
  "length (snd (base64_decode s n)) \<le> n + 1 \<and>
   (count_list s (CHR ''='') \<le> 2 \<longrightarrow> length (snd (base64_decode s n)) \<le> n) \<and>
   base64_decode ''A==='' 0 = (0, [0])"
proof -
  have "base64_decode ''A==='' 0 = (0, [0])" by code_simp
  then show ?thesis
    using decode_loop_bound [of "partial_group 0 0 3 []" n s] decode_loop_bound_padded [of s "partial_group 0 0 3 []" n]
    by (simp add: base64_decode_def partial_group_def)
qed

theorem base64_decode_bounds_witness:
  "count_list ''QUI='' (CHR ''='') \<le> 2 \<and> length (snd (base64_decode ''QUI='' 2)) \<le> 2"
  using base64_decode_bounds [of "''QUI=''" 2] by simp

end
