(* ===== verification/Hashing.thy ===== *)
theory Hashing
  imports Base64
begin

text \<open>
  Checksums, \<^verbatim>\<open>lib/hasher/src\<close>: the six hash strategies behind the \<^verbatim>\<open>HashStrategy\<close> interface, the
  \<^verbatim>\<open>Hasher\<close> object, the factory that finds a strategy by its name or by the form of a checksum, and
  the checksum of a local file with its verification. The message digests of OpenSSL and the CRC of boost
  are parameters (\<open>digest_library\<close>, with contexts of unknown type); what is documented of them is the
  locale \<open>documented_digests\<close>. Adler-32 is computed by the repository's own code and modelled on 32-bit words.
\<close>

abbreviation SYS_NOT_IMPLEMENTED :: int where "SYS_NOT_IMPLEMENTED \<equiv> - 146000"
abbreviation SYS_HASH_IMMUTABLE :: int where "SYS_HASH_IMMUTABLE \<equiv> - 148000"
abbreviation SYS_UNINITIALIZED :: int where "SYS_UNINITIALIZED \<equiv> - 149000"
abbreviation USER_CHKSUM_MISMATCH :: int where "USER_CHKSUM_MISMATCH \<equiv> - 314000"
abbreviation USER_HASH_TYPE_MISMATCH :: int where "USER_HASH_TYPE_MISMATCH \<equiv> - 380000"
abbreviation UNIX_FILE_OPEN_ERR :: int where "UNIX_FILE_OPEN_ERR \<equiv> - 510000"
abbreviation UNIX_FILE_READ_ERR :: int where "UNIX_FILE_READ_ERR \<equiv> - 512000"
abbreviation DIGEST_INIT_FAILED :: int where "DIGEST_INIT_FAILED \<equiv> - 1831000"
abbreviation DIGEST_UPDATE_FAILED :: int where "DIGEST_UPDATE_FAILED \<equiv> - 1832000"
abbreviation DIGEST_FINAL_FAILED :: int where "DIGEST_FINAL_FAILED \<equiv> - 1833000"

definition CHKSUM_LEN :: nat where "CHKSUM_LEN = 64"
definition LONG_CHKSUM_LEN :: nat where "LONG_CHKSUM_LEN = 128"
definition HASH_BUF_SZ :: nat where "HASH_BUF_SZ = 1024 * 1024"

section \<open>The strategies\<close>

datatype hash_strategy = SHA256 | SHA512 | MD5 | ADLER32 | SHA1 | CRC64NVME

primrec strategy_name :: "hash_strategy \<Rightarrow> string" where
  "strategy_name SHA256 = ''sha256''"
| "strategy_name SHA512 = ''sha512''"
| "strategy_name MD5 = ''md5''"
| "strategy_name ADLER32 = ''adler32''"
| "strategy_name SHA1 = ''sha1''"
| "strategy_name CRC64NVME = ''crc64nvme''"

primrec checksum_prefix :: "hash_strategy \<Rightarrow> string" where
  "checksum_prefix SHA256 = ''sha2:''"
| "checksum_prefix SHA512 = ''sha512:''"
| "checksum_prefix MD5 = ''md5:''"
| "checksum_prefix ADLER32 = ''adler32:''"
| "checksum_prefix SHA1 = ''sha1:''"
| "checksum_prefix CRC64NVME = ''crc64nvme:''"

datatype output_mode = hex_string | base64_encoded_string

record hash_options =
  output_mode :: output_mode
  include_checksum_prefix :: bool

subsection \<open>Output (hash_strategy_utilities.cpp)\<close>

text \<open>A number written with \<^verbatim>\<open>std::hex\<close>, and \<^verbatim>\<open>std::setw\<close> with the fill character \<^verbatim>\<open>0\<close>.\<close>

fun hex_text :: "nat \<Rightarrow> string" where
  "hex_text n = (if n < 16 then [''0123456789abcdef'' ! n] else hex_text (n div 16) @ [''0123456789abcdef'' ! (n mod 16)])"

declare hex_text.simps [simp del]

definition setw :: "nat \<Rightarrow> string \<Rightarrow> string" where
  "setw w s = replicate (w - length s) (CHR ''0'') @ s"

definition prepare_hex_string :: "hash_strategy \<Rightarrow> hash_options \<Rightarrow> byte list \<Rightarrow> string" where
  "prepare_hex_string s opts digest_buffer =
     (if include_checksum_prefix opts then checksum_prefix s else []) @
     concat (map (\<lambda>b. setw 2 (hex_text (unat b))) digest_buffer)"

definition prepare_base64_encoded_string ::
  "hash_strategy \<Rightarrow> hash_options \<Rightarrow> byte list \<Rightarrow> string \<Rightarrow> error \<times> string" where
  "prepare_base64_encoded_string s opts digest_buffer out =
     (let out_len = (if \<not> include_checksum_prefix opts then LONG_CHKSUM_LEN - length (checksum_prefix s)
                     else LONG_CHKSUM_LEN) in
      case base64_encode digest_buffer out_len of
        (ec, t) \<Rightarrow> if ec \<noteq> 0 then (ERROR ec, out)
          else (SUCCESS, (if include_checksum_prefix opts then checksum_prefix s else []) @ t))"

definition prepare_output_string ::
  "hash_strategy \<Rightarrow> hash_options \<Rightarrow> byte list \<Rightarrow> string \<Rightarrow> error \<times> string" where
  "prepare_output_string s opts digest_buffer out = (case output_mode opts of
      base64_encoded_string \<Rightarrow> prepare_base64_encoded_string s opts digest_buffer out
    | hex_string \<Rightarrow> (SUCCESS, prepare_hex_string s opts digest_buffer))"

subsection \<open>Adler-32 (ADLER32Strategy.cpp)\<close>

record adler32_parts =
  part_a :: "32 word"
  part_b :: "32 word"

definition adler32_init :: adler32_parts where
  "adler32_init = \<lparr>part_a = 1, part_b = 0\<rparr>"

fun adler32_update :: "adler32_parts \<Rightarrow> string \<Rightarrow> adler32_parts" where
  "adler32_update parts [] = parts"
| "adler32_update parts (x # data) =
     (let a = (part_a parts + of_char x) mod 65521; b = (part_b parts + a) mod 65521 in
      adler32_update \<lparr>part_a = a, part_b = b\<rparr> data)"

definition adler32_final :: "adler32_parts \<Rightarrow> 32 word" where
  "adler32_final parts = (push_bit 16 (part_b parts) OR part_a parts)"

subsection \<open>The library, and the contexts of the strategies\<close>

text \<open>\<open>evp_init\<close> is \<^verbatim>\<open>EVP_MD_fetch\<close> and \<^verbatim>\<open>EVP_DigestInit_ex2\<close> for the digest of that name; \<open>None\<close> is the
  error result of the function. \<open>crc_basic\<close> constructs boost's CRC computer.\<close>

record ('c, 'd) digest_library =
  evp_init :: "string \<Rightarrow> 'c option"
  evp_update :: "'c \<Rightarrow> string \<Rightarrow> 'c option"
  evp_final :: "'c \<Rightarrow> byte list option"
  crc_basic :: "64 word \<Rightarrow> 64 word \<Rightarrow> 64 word \<Rightarrow> bool \<Rightarrow> bool \<Rightarrow> 'd"
  crc_process :: "'d \<Rightarrow> string \<Rightarrow> 'd"
  crc_checksum :: "'d \<Rightarrow> 64 word"

text \<open>The \<^verbatim>\<open>boost::any\<close> that holds a context. It is empty, or holds \<^verbatim>\<open>nullptr\<close> (the strategies store it
  when they have freed the context), or the context of one kind of strategy; an \<^verbatim>\<open>any_cast\<close> to another
  kind throws.\<close>

datatype ('c, 'd) hash_context = Empty_Any | Null_Any | Evp_Any 'c | Adler_Any adler32_parts | Crc_Any 'd

definition evp_strategy_init :: "('c, 'd) digest_library \<Rightarrow> hash_strategy \<Rightarrow> ('c, 'd) hash_context \<Rightarrow> error \<times> ('c, 'd) hash_context" where
  "evp_strategy_init L s ctx = (case evp_init L (strategy_name s) of
      None \<Rightarrow> (ERROR DIGEST_INIT_FAILED, ctx)
    | Some c \<Rightarrow> (SUCCESS, Evp_Any c))"

definition evp_strategy_update ::
  "('c, 'd) digest_library \<Rightarrow> string \<Rightarrow> ('c, 'd) hash_context \<Rightarrow> error throws \<times> ('c, 'd) hash_context" where
  "evp_strategy_update L data ctx = (case ctx of
      Evp_Any c \<Rightarrow> (case evp_update L c data of
          None \<Rightarrow> (Inr (ERROR DIGEST_UPDATE_FAILED), Null_Any)
        | Some c' \<Rightarrow> (Inr SUCCESS, Evp_Any c'))
    | _ \<Rightarrow> (Inl std_exception, ctx))"

text \<open>The array of the strategy's digest length, zero before \<^verbatim>\<open>EVP_DigestFinal_ex\<close> writes to it.\<close>

primrec digest_length :: "hash_strategy \<Rightarrow> nat" where
  "digest_length SHA256 = 32"
| "digest_length SHA512 = 64"
| "digest_length MD5 = 16"
| "digest_length ADLER32 = 4"
| "digest_length SHA1 = 20"
| "digest_length CRC64NVME = 8"

definition evp_strategy_digest ::
  "('c, 'd) digest_library \<Rightarrow> hash_strategy \<Rightarrow> hash_options \<Rightarrow> ('c, 'd) hash_context \<Rightarrow> string \<Rightarrow>
     error throws \<times> ('c, 'd) hash_context \<times> string" where
  "evp_strategy_digest L s opts ctx out = (case ctx of
      Evp_Any c \<Rightarrow> (case evp_final L c of
          None \<Rightarrow> (Inr (ERROR DIGEST_FINAL_FAILED), Null_Any, out)
        | Some bs \<Rightarrow>
            let buffer = bs @ drop (length bs) (replicate (digest_length s) 0);
                (ret, out') = prepare_output_string s opts buffer out in
            (Inr ret, Null_Any, out'))
    | _ \<Rightarrow> (Inl std_exception, ctx, out))"

definition adler32_strategy_digest ::
  "hash_options \<Rightarrow> ('c, 'd) hash_context \<Rightarrow> string \<Rightarrow> error throws \<times> ('c, 'd) hash_context \<times> string" where
  "adler32_strategy_digest opts ctx out =
     (if output_mode opts \<noteq> hex_string then (Inr (ERROR SYS_NOT_IMPLEMENTED), ctx, out)
      else case ctx of
        Adler_Any parts \<Rightarrow>
          (Inr SUCCESS, ctx, out @ (if include_checksum_prefix opts then checksum_prefix ADLER32 else []) @
             setw (digest_length ADLER32 * 2) (hex_text (unat (adler32_final parts))))
      | _ \<Rightarrow> (Inl std_exception, ctx, out))"

text \<open>The bytes of the CRC, most significant first; the loop fills the array from its end.\<close>

definition crc_bytes :: "64 word \<Rightarrow> byte list" where
  "crc_bytes checksum = rev (map (\<lambda>i. ucast (drop_bit (i * 8) checksum AND 0xFF)) [0..<8])"

definition crc64nvme_strategy_init :: "('c, 'd) digest_library \<Rightarrow> error \<times> ('c, 'd) hash_context" where
  "crc64nvme_strategy_init L =
     (SUCCESS, Crc_Any (crc_basic L 0xAD93D23594C93659 0xFFFFFFFFFFFFFFFF 0xFFFFFFFFFFFFFFFF True True))"

definition crc64nvme_strategy_update ::
  "('c, 'd) digest_library \<Rightarrow> string \<Rightarrow> ('c, 'd) hash_context \<Rightarrow> error \<times> ('c, 'd) hash_context" where
  "crc64nvme_strategy_update L data ctx = (case ctx of
      Crc_Any d \<Rightarrow> (SUCCESS, Crc_Any (crc_process L d data))
    | _ \<Rightarrow> (ERROR SYS_INVALID_INPUT_PARAM, ctx))"

definition crc64nvme_strategy_digest ::
  "('c, 'd) digest_library \<Rightarrow> hash_options \<Rightarrow> ('c, 'd) hash_context \<Rightarrow> string \<Rightarrow> error \<times> ('c, 'd) hash_context \<times> string" where
  "crc64nvme_strategy_digest L opts ctx out = (case ctx of
      Crc_Any d \<Rightarrow>
        let (ret, out') = prepare_output_string CRC64NVME opts (crc_bytes (crc_checksum L d)) out in
        (ret, Null_Any, out')
    | _ \<Rightarrow> (ERROR SYS_INVALID_INPUT_PARAM, ctx, out))"

subsection \<open>The interface\<close>

definition strategy_init ::
  "('c, 'd) digest_library \<Rightarrow> hash_strategy \<Rightarrow> ('c, 'd) hash_context \<Rightarrow> error \<times> ('c, 'd) hash_context" where
  "strategy_init L s ctx = (case s of
      ADLER32 \<Rightarrow> (SUCCESS, Adler_Any adler32_init)
    | CRC64NVME \<Rightarrow> crc64nvme_strategy_init L
    | _ \<Rightarrow> evp_strategy_init L s ctx)"

definition strategy_update ::
  "('c, 'd) digest_library \<Rightarrow> hash_strategy \<Rightarrow> string \<Rightarrow> ('c, 'd) hash_context \<Rightarrow> error throws \<times> ('c, 'd) hash_context" where
  "strategy_update L s data ctx = (case s of
      ADLER32 \<Rightarrow> (case ctx of
          Adler_Any parts \<Rightarrow> (Inr SUCCESS, Adler_Any (adler32_update parts data))
        | _ \<Rightarrow> (Inl std_exception, ctx))
    | CRC64NVME \<Rightarrow> (case crc64nvme_strategy_update L data ctx of (ret, ctx') \<Rightarrow> (Inr ret, ctx'))
    | _ \<Rightarrow> evp_strategy_update L data ctx)"

definition strategy_digest_with ::
  "('c, 'd) digest_library \<Rightarrow> hash_strategy \<Rightarrow> hash_options \<Rightarrow> ('c, 'd) hash_context \<Rightarrow> string \<Rightarrow>
     error throws \<times> ('c, 'd) hash_context \<times> string" where
  "strategy_digest_with L s opts ctx out = (case s of
      ADLER32 \<Rightarrow> adler32_strategy_digest opts ctx out
    | CRC64NVME \<Rightarrow> (case crc64nvme_strategy_digest L opts ctx out of (ret, ctx', out') \<Rightarrow> (Inr ret, ctx', out'))
    | _ \<Rightarrow> evp_strategy_digest L s opts ctx out)"

text \<open>The options each strategy's \<^verbatim>\<open>digest(std::string&, boost::any&)\<close> passes on.\<close>

definition default_options :: "hash_strategy \<Rightarrow> hash_options" where
  "default_options s = (case s of
      MD5 \<Rightarrow> \<lparr>output_mode = hex_string, include_checksum_prefix = False\<rparr>
    | ADLER32 \<Rightarrow> \<lparr>output_mode = hex_string, include_checksum_prefix = True\<rparr>
    | _ \<Rightarrow> \<lparr>output_mode = base64_encoded_string, include_checksum_prefix = True\<rparr>)"

definition strategy_digest ::
  "('c, 'd) digest_library \<Rightarrow> hash_strategy \<Rightarrow> ('c, 'd) hash_context \<Rightarrow> string \<Rightarrow>
     error throws \<times> ('c, 'd) hash_context \<times> string" where
  "strategy_digest L s ctx out = strategy_digest_with L s (default_options s) ctx out"

definition isChecksum :: "hash_strategy \<Rightarrow> string \<Rightarrow> bool" where
  "isChecksum s chksum = (case s of
      MD5 \<Rightarrow> find_first_not_of chksum ''0123456789abcdefABCDEF'' (Some 0) = None
    | _ \<Rightarrow> starts_with chksum (checksum_prefix s))"

section \<open>The hasher (Hasher.cpp)\<close>

record ('c, 'd) hasher =
  h_strategy :: "hash_strategy option"
  h_context :: "('c, 'd) hash_context"
  h_error :: error
  h_digest :: string

definition new_hasher :: "('c, 'd) hasher" where
  "new_hasher = \<lparr>h_strategy = None, h_context = Empty_Any, h_error = SUCCESS, h_digest = []\<rparr>"

definition hasher_init ::
  "('c, 'd) digest_library \<Rightarrow> hash_strategy \<Rightarrow> ('c, 'd) hasher \<Rightarrow> error \<times> ('c, 'd) hasher" where
  "hasher_init L s h = (case strategy_init L s (h_context h) of
      (ret, ctx) \<Rightarrow> (ret, h\<lparr>h_strategy := Some s, h_error := SUCCESS, h_digest := [], h_context := ctx\<rparr>))"

definition hasher_update ::
  "('c, 'd) digest_library \<Rightarrow> string \<Rightarrow> ('c, 'd) hasher \<Rightarrow> error throws \<times> ('c, 'd) hasher" where
  "hasher_update L data h = (case h_strategy h of
      None \<Rightarrow> (Inr (ERROR SYS_UNINITIALIZED), h)
    | Some s \<Rightarrow>
        if h_digest h \<noteq> [] then (Inr (ERROR SYS_HASH_IMMUTABLE), h)
        else case strategy_update L s data (h_context h) of (ret, ctx) \<Rightarrow> (ret, h\<lparr>h_context := ctx\<rparr>))"

text \<open>Both \<^verbatim>\<open>digest\<close> functions: with the strategy's own options (\<open>None\<close>), or with the given ones.\<close>

definition hasher_digest ::
  "('c, 'd) digest_library \<Rightarrow> hash_options option \<Rightarrow> string \<Rightarrow> ('c, 'd) hasher \<Rightarrow> (error throws \<times> string) \<times> ('c, 'd) hasher" where
  "hasher_digest L opts out h = (case h_strategy h of
      None \<Rightarrow> ((Inr (ERROR SYS_UNINITIALIZED), out), h)
    | Some s \<Rightarrow>
        if h_digest h = [] then
          (case (case opts of
                   None \<Rightarrow> strategy_digest L s (h_context h) (h_digest h)
                 | Some os \<Rightarrow> strategy_digest_with L s os (h_context h) (h_digest h)) of
             (Inl e, ctx, d) \<Rightarrow> ((Inl e, out), h\<lparr>h_context := ctx, h_digest := d\<rparr>)
           | (Inr ret, ctx, d) \<Rightarrow> ((Inr ret, d), h\<lparr>h_context := ctx, h_digest := d, h_error := ret\<rparr>))
        else ((Inr (h_error h), h_digest h), h))"

section \<open>The factory (irods_hasher_factory.cpp)\<close>

definition strategies :: "hash_strategy list" where
  "strategies = [SHA256, SHA512, MD5, ADLER32, SHA1, CRC64NVME]"

definition getHasher ::
  "('c, 'd) digest_library \<Rightarrow> string \<Rightarrow> ('c, 'd) hasher \<Rightarrow> error \<times> ('c, 'd) hasher" where
  "getHasher L name h = (case List.find (\<lambda>s. strategy_name s = name) strategies of
      None \<Rightarrow> (ERROR SYS_INVALID_INPUT_PARAM, h)
    | Some s \<Rightarrow> hasher_init L s h)"

text \<open>The order in which the hash map lists its strategies is not specified: it is the argument \<open>order\<close>.\<close>

definition get_hash_scheme_from_checksum :: "hash_strategy list \<Rightarrow> string \<Rightarrow> string \<Rightarrow> error \<times> string" where
  "get_hash_scheme_from_checksum order chksum scheme =
     (if chksum = [] then (ERROR SYS_INVALID_INPUT_PARAM, scheme)
      else case List.find (\<lambda>s. isChecksum s chksum) order of
        None \<Rightarrow> (ERROR SYS_INVALID_INPUT_PARAM, scheme)
      | Some s \<Rightarrow> (SUCCESS, strategy_name s))"

section \<open>The checksum of a local file (checksum.cpp)\<close>

text \<open>What \<^verbatim>\<open>getRodsEnv\<close> returns and fills in, as far as it is used here.\<close>

record rods_env =
  env_status :: int
  rodsDefaultHashScheme :: string
  rodsMatchHashPolicy :: string

text \<open>A file as a stream meets it: the \<^verbatim>\<open>errno\<close> of a failing \<^verbatim>\<open>open\<close>, the bytes that can be read, and
  the \<^verbatim>\<open>errno\<close> of a read failure after them; without one the stream then is at its end.\<close>

record local_file =
  open_errno :: "int option"
  contents :: string
  read_errno :: "int option"

definition tolower :: "char \<Rightarrow> char" where
  "tolower c = (let n = of_char c :: nat in if 65 \<le> n \<and> n \<le> 90 then char_of (n + 32) else c)"

definition STRICT_HASH_POLICY :: string where
  "STRICT_HASH_POLICY = ''strict''"

text \<open>The scheme of the environment, the scheme asked for, and the choice between them: \<open>None\<close> when the
  strict policy forbids it.\<close>

definition env_hash_scheme :: "rods_env \<Rightarrow> string" where
  "env_hash_scheme env =
     (let scheme = (if rodsDefaultHashScheme env \<noteq> [] then rodsDefaultHashScheme env else strategy_name SHA256);
          scheme = (if rodsMatchHashPolicy env \<noteq> [] then map tolower scheme else scheme) in
      map tolower scheme)"

definition requested_hash_scheme :: "rods_env \<Rightarrow> string \<Rightarrow> string" where
  "requested_hash_scheme env hash_scheme =
     (if hash_scheme \<noteq> [] \<and> length hash_scheme < CHKSUM_LEN then map tolower (map tolower hash_scheme)
      else map tolower (env_hash_scheme env))"

definition final_hash_scheme :: "rods_env \<Rightarrow> string \<Rightarrow> string option" where
  "final_hash_scheme env hash_scheme =
     (let env_scheme = env_hash_scheme env; scheme = requested_hash_scheme env hash_scheme in
      if scheme \<noteq> [] then
        (if rodsMatchHashPolicy env = STRICT_HASH_POLICY \<and> env_scheme \<noteq> scheme then None else Some scheme)
      else Some env_scheme)"

text \<open>The loop over whole buffers; what is left is shorter than one.\<close>

function hash_buffers ::
  "('c, 'd) digest_library \<Rightarrow> string \<Rightarrow> ('c, 'd) hasher \<Rightarrow> error throws \<times> string \<times> ('c, 'd) hasher" where
  "hash_buffers L bytes h =
     (if length bytes < HASH_BUF_SZ then (Inr SUCCESS, bytes, h)
      else case hasher_update L (take HASH_BUF_SZ bytes) h of
        (Inl e, h') \<Rightarrow> (Inl e, bytes, h')
      | (Inr ret, h') \<Rightarrow>
          if \<not> ok ret then (Inr ret, bytes, h') else hash_buffers L (drop HASH_BUF_SZ bytes) h')"
  by pat_completeness auto

termination
  by (relation "measure (\<lambda>(L, bytes, h). length bytes)") (auto simp: HASH_BUF_SZ_def)

declare hash_buffers.simps [simp del]

text \<open>\<open>Some\<close> code ends \<^verbatim>\<open>chksumLocFile\<close> with that code.\<close>

definition hash_file ::
  "('c, 'd) digest_library \<Rightarrow> local_file \<Rightarrow> ('c, 'd) hasher \<Rightarrow> int option throws \<times> ('c, 'd) hasher" where
  "hash_file L file h = (case hash_buffers L (contents file) h of
      (Inl e, rest, h') \<Rightarrow> (Inl e, h')
    | (Inr ret, rest, h') \<Rightarrow>
        if \<not> ok ret then (Inr (Some (code ret)), h')
        else (case read_errno file of
            Some errno \<Rightarrow> (Inr (Some (UNIX_FILE_READ_ERR - errno)), h')
          | None \<Rightarrow>
              if rest = [] then (Inr None, h')
              else (case hasher_update L rest h' of
                  (Inl e, h'') \<Rightarrow> (Inl e, h'')
                | (Inr ret', h'') \<Rightarrow> (Inr (if \<not> ok ret' then Some (code ret') else None), h''))))"

text \<open>The file name, the output buffer and the scheme are pointers, \<open>None\<close> a null one. The result is the
  return value with the buffer.\<close>

definition chksumLocFile ::
  "('c, 'd) digest_library \<Rightarrow> rods_env \<Rightarrow> (string \<Rightarrow> local_file) \<Rightarrow> string option \<Rightarrow> string option \<Rightarrow> string option \<Rightarrow>
     (int \<times> string option) throws" where
  "chksumLocFile L env fs file_name checksum hash_scheme =
     (case (file_name, checksum, hash_scheme) of
        (Some f, Some _, Some requested) \<Rightarrow>
          if env_status env < 0 then Inr (env_status env, checksum)
          else (case final_hash_scheme env requested of
              None \<Rightarrow> Inr (USER_HASH_TYPE_MISMATCH, checksum)
            | Some final_scheme \<Rightarrow>
                (case getHasher L final_scheme new_hasher of
                   (ret, h) \<Rightarrow>
                     if \<not> ok ret then Inr (code ret, checksum)
                     else (case open_errno (fs f) of
                         Some errno \<Rightarrow> Inr (UNIX_FILE_OPEN_ERR - errno, checksum)
                       | None \<Rightarrow>
                           (case hash_file L (fs f) h of
                              (r, h') \<Rightarrow> tbind r (\<lambda>early. case early of
                                  Some ec \<Rightarrow> Inr (ec, checksum)
                                | None \<Rightarrow> case hasher_digest L None [] h' of
                                  ((r', digest), h'') \<Rightarrow> tbind r' (\<lambda>ret.
                                    if \<not> ok ret then Inr (code ret, checksum) else Inr (0, Some digest)))))))
      | _ \<Rightarrow> Inr (SYS_INVALID_INPUT_PARAM, checksum))"

definition verifyChksumLocFile ::
  "('c, 'd) digest_library \<Rightarrow> rods_env \<Rightarrow> (string \<Rightarrow> local_file) \<Rightarrow> hash_strategy list \<Rightarrow> string option \<Rightarrow> string \<Rightarrow>
     string option \<Rightarrow> (int \<times> string option) throws" where
  "verifyChksumLocFile L env fs order file_name myChksum chksumStr =
     (let scheme = snd (get_hash_scheme_from_checksum order myChksum []);
          buffer = (case chksumStr of None \<Rightarrow> Some [] | Some b \<Rightarrow> Some b) in
      tbind (chksumLocFile L env fs file_name buffer (Some scheme)) (\<lambda>(ec, buffer').
        if ec < 0 then Inr (ec, buffer')
        else if buffer' \<noteq> Some myChksum then Inr (USER_CHKSUM_MISMATCH, buffer')
        else Inr (0, buffer')))"

section \<open>What is assumed of the digest libraries\<close>

text \<open>A hash is incremental: feeding it two pieces one after the other is feeding it their concatenation. This is so
  for the repository's own Adler-32, it is documented for the CRC of boost, and for the digests of OpenSSL as long
  as no call fails. A digest has the length OpenSSL documents for it.\<close>

locale incremental =
  fixes feed :: "'s \<Rightarrow> 'x list \<Rightarrow> 's"
  assumes feed_Nil: "feed s [] = s" and feed_append: "feed s (x @ y) = feed (feed s x) y"
begin

lemma feed_pieces: "foldl feed s xs = feed s (concat xs)"
  by (induction xs arbitrary: s) (simp_all add: feed_Nil feed_append)

end

interpretation adler: incremental adler32_update
proof
  show "adler32_update p (x @ y) = adler32_update (adler32_update p x) y" for p x y
    by (induction p x rule: adler32_update.induct) (simp_all add: Let_def)
qed simp

locale documented_digests = crc: incremental "crc_process L" for L :: "('c, 'd) digest_library" +
  assumes evp_update_append: "evp_update L c (x @ y) = Option.bind (evp_update L c x) (\<lambda>c'. evp_update L c' y)"
    and evp_update_Nil: "evp_update L c [] = Some c"
    and evp_final_length: "evp_init L (strategy_name s) = Some c \<Longrightarrow> evp_update L c x = Some c' \<Longrightarrow>
      evp_final L c' = Some bs \<Longrightarrow> length bs = digest_length s"

section \<open>The reference: the checksum of a text\<close>

text \<open>Adler-32 as RFC 1950 defines it, on natural numbers.\<close>

definition adler_sum :: "string \<Rightarrow> nat" where
  "adler_sum data = sum_list (map of_char data)"

fun adler_weighted :: "string \<Rightarrow> nat" where
  "adler_weighted [] = 0"
| "adler_weighted (x # data) = (length data + 1) * of_char x + adler_weighted data"

definition adler32_reference :: "string \<Rightarrow> nat" where
  "adler32_reference data =
     ((length data + adler_weighted data) mod 65521) * 65536 + (1 + adler_sum data) mod 65521"

definition evp_digest :: "('c, 'd) digest_library \<Rightarrow> hash_strategy \<Rightarrow> string \<Rightarrow> byte list option" where
  "evp_digest L s data = Option.bind (evp_init L (strategy_name s)) (\<lambda>c. Option.bind (evp_update L c data) (evp_final L))"

definition hex_bytes :: "byte list \<Rightarrow> string" where
  "hex_bytes bs = concat (map (\<lambda>b. setw 2 (hex_text (unat b))) bs)"

definition crc_start :: "('c, 'd) digest_library \<Rightarrow> 'd" where
  "crc_start L = crc_basic L 0xAD93D23594C93659 0xFFFFFFFFFFFFFFFF 0xFFFFFFFFFFFFFFFF True True"

definition checksum_text :: "('c, 'd) digest_library \<Rightarrow> hash_strategy \<Rightarrow> string \<Rightarrow> string option" where
  "checksum_text L s data = (case s of
      ADLER32 \<Rightarrow> Some (''adler32:'' @ setw 8 (hex_text (adler32_reference data)))
    | CRC64NVME \<Rightarrow> Some (''crc64nvme:'' @ encode_groups (crc_bytes (crc_checksum L (crc_process L (crc_start L) data))))
    | MD5 \<Rightarrow> map_option hex_bytes (evp_digest L s data)
    | _ \<Rightarrow> map_option (\<lambda>bs. checksum_prefix s @ encode_groups bs) (evp_digest L s data))"

section \<open>Adler-32 is what RFC 1950 defines\<close>

lemma unat_add_mod:
  assumes "unat a < 65521" "unat b < 65521"
  shows "unat ((a + b) mod 65521 :: 32 word) = (unat a + unat b) mod 65521"
  using assms by (simp add: unat_mod_distrib unat_word_ariths)

lemma unat_of_char: "unat (of_char x :: 32 word) = of_char x"
proof -
  have "(of_char x :: nat) < 2 ^ 32" by (rule less_le_trans [OF nat_of_char_less_256]) simp
  then have "unat (word_of_nat (of_char x) :: 32 word) = of_char x"
    by (simp only: unsigned_of_nat take_bit_nat_eq_self len_num1 len_bit0 len_bit1) (simp add: take_bit_eq_mod)
  then show ?thesis by (simp add: of_nat_of_char)
qed

lemma mod_sums:
  fixes u v w n m :: nat
  shows "(u mod m + v) mod m = (u + v) mod m"
    and "(u mod m + n * (w mod m) + v) mod m = (u + n * w + v) mod m"
proof -
  show "(u mod m + v) mod m = (u + v) mod m" by (rule mod_add_left_eq)
  have "(u mod m + n * (w mod m)) mod m = (u + n * w) mod m"
    by (rule mod_add_cong [OF mod_mod_trivial mod_mult_right_eq])
  then show "(u mod m + n * (w mod m) + v) mod m = (u + n * w + v) mod m"
    by (rule mod_add_cong [OF _ refl])
qed

lemma adler32_update_parts:
  assumes "unat (part_a p) < 65521" "unat (part_b p) < 65521"
  shows "unat (part_a (adler32_update p data)) = (unat (part_a p) + adler_sum data) mod 65521 \<and>
    unat (part_b (adler32_update p data)) =
      (unat (part_b p) + length data * unat (part_a p) + adler_weighted data) mod 65521"
  using assms
proof (induction data arbitrary: p)
  case (Cons x data)
  let ?a = "(part_a p + of_char x) mod 65521" and ?b = "(part_b p + (part_a p + of_char x) mod 65521) mod 65521"
  have x: "(of_char x :: nat) < 65521" using nat_of_char_less_256 [of x] by linarith
  then have a: "unat ?a = (unat (part_a p) + of_char x) mod 65521"
    using Cons.prems unat_add_mod [of "part_a p" "of_char x"] by (simp add: unat_of_char)
  then have b: "unat ?b = (unat (part_b p) + (unat (part_a p) + of_char x)) mod 65521"
    using Cons.prems unat_add_mod [of "part_b p" ?a] by (simp add: mod_add_right_eq)
  have less: "unat ?a < 65521" "unat ?b < 65521" unfolding a b by simp_all
  have step: "adler32_update p (x # data) = adler32_update \<lparr>part_a = ?a, part_b = ?b\<rparr> data"
    by (simp only: adler32_update.simps Let_def)
  have "unat (part_a (adler32_update p (x # data))) = (unat (part_a p) + of_char x + adler_sum data) mod 65521"
    "unat (part_b (adler32_update p (x # data))) = (unat (part_b p) + (unat (part_a p) + of_char x) +
      length data * (unat (part_a p) + of_char x) + adler_weighted data) mod 65521"
    using Cons.IH [of "\<lparr>part_a = ?a, part_b = ?b\<rparr>"] less
    by (simp_all only: step adler32_parts.simps a b mod_sums simp_thms True_implies_equals)
  moreover have "b + (a + y) + n * (a + y) + w = b + (n + 1) * a + ((n + 1) * y + w)" for a b n w y :: nat
    by (simp add: algebra_simps)
  ultimately show ?case
    by (simp only: adler_sum_def adler_weighted.simps list.map sum_list.Cons length_Cons Suc_eq_plus1 add.assoc simp_thms)
qed (simp add: adler_sum_def)

lemma unat_adler32_final:
  assumes "unat (part_a p) < 65521" "unat (part_b p) < 65521"
  shows "unat (adler32_final p) = unat (part_b p) * 65536 + unat (part_a p)"
proof -
  have "take_bit 16 (part_a p) = part_a p"
    using assms(1) unsigned_take_bit_eq [of 16 "part_a p", where 'a = nat]
    by (simp only: word_unat_eq_iff) (simp add: take_bit_eq_mod)
  then have "push_bit 16 (part_b p) AND part_a p = push_bit 16 (part_b p) AND take_bit 16 (part_a p)"
    by (simp only:)
  also have "\<dots> = 0" by (rule bit_word_eqI) (auto simp: bit_simps)
  finally have "adler32_final p = push_bit 16 (part_b p) + part_a p"
    unfolding adler32_final_def by (rule disjunctive_add_eq_or [symmetric])
  then show ?thesis
    using assms by (simp add: push_bit_eq_mult unat_word_ariths)
qed

lemma adler32_correct: "unat (adler32_final (adler32_update adler32_init data)) = adler32_reference data"
proof -
  let ?p = "adler32_update adler32_init data"
  have parts: "unat (part_a ?p) = (1 + adler_sum data) mod 65521"
    "unat (part_b ?p) = (length data + adler_weighted data) mod 65521"
    using adler32_update_parts [of adler32_init data] by (simp_all add: adler32_init_def)
  then have "unat (part_a ?p) < 65521" "unat (part_b ?p) < 65521" by simp_all
  then show ?thesis by (simp add: unat_adler32_final parts adler32_reference_def)
qed

section \<open>A hasher computes the reference\<close>

text \<open>A hasher that has been given \<open>data\<close>.\<close>

definition hashed :: "('c, 'd) digest_library \<Rightarrow> hash_strategy \<Rightarrow> string \<Rightarrow> ('c, 'd) hash_context \<Rightarrow> bool" where
  "hashed L s data ctx = (case s of
      ADLER32 \<Rightarrow> ctx = Adler_Any (adler32_update adler32_init data)
    | CRC64NVME \<Rightarrow> ctx = Crc_Any (crc_process L (crc_start L) data)
    | _ \<Rightarrow> (\<exists>c c'. evp_init L (strategy_name s) = Some c \<and> evp_update L c data = Some c' \<and> ctx = Evp_Any c'))"

definition fed :: "('c, 'd) digest_library \<Rightarrow> hash_strategy \<Rightarrow> string \<Rightarrow> ('c, 'd) hasher \<Rightarrow> bool" where
  "fed L s data h = (h_strategy h = Some s \<and> h_digest h = [] \<and> hashed L s data (h_context h))"

lemmas strategy_defs = strategy_init_def strategy_update_def evp_strategy_init_def evp_strategy_update_def
  crc64nvme_strategy_init_def crc64nvme_strategy_update_def crc_start_def [symmetric]

lemma getHasher_name: "getHasher L (strategy_name s) h = hasher_init L s h"
  by (cases s) (simp_all add: getHasher_def strategies_def)

lemma getHasher_ok: "getHasher L n h = (ret, h') \<Longrightarrow> ok ret \<Longrightarrow> \<exists>s. n = strategy_name s"
  by (auto simp: getHasher_def find_Some_iff split: option.splits)

context documented_digests
begin

lemma hasher_init_fed:
  assumes "hasher_init L s new_hasher = (ret, h)"
  shows "ret = SUCCESS \<and> fed L s [] h \<or> ret = ERROR DIGEST_INIT_FAILED \<and> (\<forall>data. checksum_text L s data = None)"
  using assms
  by (cases s) (auto simp: hasher_init_def strategy_defs fed_def hashed_def new_hasher_def evp_update_Nil
      crc.feed_Nil checksum_text_def evp_digest_def split: option.splits)

lemma hasher_update_fed:
  assumes "fed L s x h" "hasher_update L y h = (r, h')"
  shows "r = Inr SUCCESS \<and> fed L s (x @ y) h' \<or>
    r = Inr (ERROR DIGEST_UPDATE_FAILED) \<and> (\<forall>z. checksum_text L s (x @ y @ z) = None)"
  using assms
  by (cases s) (auto simp: hasher_update_def strategy_defs fed_def hashed_def evp_update_append
      crc.feed_append adler.feed_append checksum_text_def evp_digest_def split: option.splits)

lemma hash_buffers_fed:
  assumes "fed L s x h" "hash_buffers L y h = (r, rest, h')"
  shows "r = Inr SUCCESS \<and> (\<exists>y'. y = y' @ rest \<and> fed L s (x @ y') h') \<or>
    r = Inr (ERROR DIGEST_UPDATE_FAILED) \<and> checksum_text L s (x @ y) = None"
  using assms
proof (induction "length y" arbitrary: x y h rule: less_induct)
  case less
  show ?case
  proof (cases "length y < HASH_BUF_SZ")
    case True
    with less.prems show ?thesis by (simp add: hash_buffers.simps [of L y h])
  next
    case False
    let ?y = "take HASH_BUF_SZ y" and ?z = "drop HASH_BUF_SZ y"
    obtain r1 h1 where u: "hasher_update L ?y h = (r1, h1)" by force
    from hasher_update_fed [OF less.prems(1) u] show ?thesis
    proof
      assume r1: "r1 = Inr SUCCESS \<and> fed L s (x @ ?y) h1"
      moreover have "length ?z < length y" using False by (simp add: HASH_BUF_SZ_def)
      moreover have "hash_buffers L ?z h1 = (r, rest, h')"
        using less.prems(2) False u r1 by (simp add: hash_buffers.simps [of L y h])
      ultimately show ?thesis
        using less.hyps [of ?z "x @ ?y" h1] by (metis append.assoc append_take_drop_id)
    next
      assume "r1 = Inr (ERROR DIGEST_UPDATE_FAILED) \<and> (\<forall>z. checksum_text L s (x @ ?y @ z) = None)"
      then show ?thesis
        using less.prems(2) False u by (simp add: hash_buffers.simps [of L y h]) (metis append_take_drop_id)
    qed
  qed
qed

lemma hash_file_fed:
  assumes "fed L s [] h" "read_errno file = None" "hash_file L file h = (r, h')"
  shows "r = Inr None \<and> fed L s (contents file) h' \<or>
    r = Inr (Some DIGEST_UPDATE_FAILED) \<and> checksum_text L s (contents file) = None"
proof -
  obtain r1 rest h1 where b: "hash_buffers L (contents file) h = (r1, rest, h1)" by (meson prod_cases3)
  obtain r2 h2 where u: "hasher_update L rest h1 = (r2, h2)" by force
  from hash_buffers_fed [OF assms(1) b] show ?thesis
  proof
    assume r1: "r1 = Inr SUCCESS \<and> (\<exists>y'. contents file = y' @ rest \<and> fed L s ([] @ y') h1)"
    then obtain y where y: "contents file = y @ rest" "fed L s y h1" by auto
    show ?thesis
    proof (cases "rest = []")
      case True
      then show ?thesis using assms(2,3) b r1 y by (simp add: hash_file_def)
    next
      case False
      have "r2 = Inr SUCCESS \<and> fed L s (contents file) h2 \<or>
          r2 = Inr (ERROR DIGEST_UPDATE_FAILED) \<and> checksum_text L s (contents file) = None"
        using hasher_update_fed [OF y(2) u] y(1) by (metis append.right_neutral)
      then show ?thesis using assms(2,3) b u r1 False by (auto simp: hash_file_def)
    qed
  next
    assume "r1 = Inr (ERROR DIGEST_UPDATE_FAILED) \<and> checksum_text L s ([] @ contents file) = None"
    then show ?thesis using assms(3) b by (simp add: hash_file_def)
  qed
qed

lemma length_setw: "length (setw w s) = max w (length s)"
  by (simp add: setw_def)

lemma evp_digest_length: "evp_digest L s data = Some bs \<Longrightarrow> length bs = digest_length s"
  by (auto simp: evp_digest_def bind_eq_Some_conv intro: evp_final_length)

lemma hasher_digest_fed:
  assumes "fed L s data h"
  shows "fst (hasher_digest L None [] h) = (case checksum_text L s data of
      Some t \<Rightarrow> (Inr SUCCESS, t) | None \<Rightarrow> (Inr (ERROR DIGEST_FINAL_FAILED), []))"
proof (cases "s = ADLER32 \<or> s = CRC64NVME")
  case True
  then show ?thesis
    using assms
    by (auto simp: fed_def hashed_def hasher_digest_def strategy_digest_def strategy_digest_with_def
        adler32_strategy_digest_def crc64nvme_strategy_digest_def default_options_def checksum_text_def
        prepare_output_string_def prepare_base64_encoded_string_def LONG_CHKSUM_LEN_def crc_bytes_def
        base64_encode_ok adler32_correct)
next
  case False
  then obtain c c' where c: "evp_init L (strategy_name s) = Some c" "evp_update L c data = Some c'"
    "h_context h = Evp_Any c'" "h_strategy h = Some s" "h_digest h = []"
    using assms by (cases s) (auto simp: fed_def hashed_def)
  have "length bs = digest_length s" if "evp_final L c' = Some bs" for bs
    using that c by (auto intro: evp_final_length)
  moreover have "digest_length s \<le> 64" by (cases s) simp_all
  ultimately show ?thesis
    using c False
    by (cases s; cases "evp_final L c'")
      (auto simp: hasher_digest_def strategy_digest_def strategy_digest_with_def evp_strategy_digest_def
        default_options_def checksum_text_def evp_digest_def prepare_output_string_def
        prepare_base64_encoded_string_def prepare_hex_string_def hex_bytes_def LONG_CHKSUM_LEN_def base64_encode_ok)
qed


lemma chksumLocFile_readable:
  assumes "0 \<le> env_status env" "final_hash_scheme env sch = Some (strategy_name s)"
    "open_errno (fs f) = None" "read_errno (fs f) = None"
  shows "\<exists>ec < 0. chksumLocFile L env fs (Some f) (Some b) (Some sch) =
    Inr (case checksum_text L s (contents (fs f)) of Some t \<Rightarrow> (0, Some t) | None \<Rightarrow> (ec, Some b))"
proof -
  obtain ret h where i: "hasher_init L s new_hasher = (ret, h)" by force
  obtain r h' where f: "hash_file L (fs f) h = (r, h')" by force
  obtain d h'' where d: "hasher_digest L None [] h' = (d, h'')" by (meson surj_pair)
  consider (init) "ret = ERROR DIGEST_INIT_FAILED" "checksum_text L s (contents (fs f)) = None"
    | (update) "ret = SUCCESS" "r = Inr (Some DIGEST_UPDATE_FAILED)" "checksum_text L s (contents (fs f)) = None"
    | (digest) "ret = SUCCESS" "r = Inr None" "fed L s (contents (fs f)) h'"
  proof -
    from hasher_init_fed [OF i] show thesis
    proof (elim disjE conjE)
      assume ret: "ret = SUCCESS" and fed: "fed L s [] h"
      from hash_file_fed [OF fed assms(4) f] ret show thesis using update digest by (elim disjE conjE) simp_all
    qed (simp add: init)
  qed
  then show ?thesis
  proof cases
    case digest
    have "d = (case checksum_text L s (contents (fs f)) of
        Some t \<Rightarrow> (Inr SUCCESS, t) | None \<Rightarrow> (Inr (ERROR DIGEST_FINAL_FAILED), []))"
      using hasher_digest_fed [OF digest(3)] d by simp
    then show ?thesis
      using assms i f d digest(1,2)
      by (intro exI [of _ DIGEST_FINAL_FAILED]) (simp add: chksumLocFile_def getHasher_name split: option.split)
  next
    case init
    then show ?thesis
      using assms i by (intro exI [of _ DIGEST_INIT_FAILED]) (simp add: chksumLocFile_def getHasher_name)
  next
    case update
    then show ?thesis
      using assms i f by (intro exI [of _ DIGEST_UPDATE_FAILED]) (simp add: chksumLocFile_def getHasher_name)
  qed
qed

end

lemma chksumLocFile_zero:
  assumes "chksumLocFile L env fs (Some f) (Some b) (Some sch) = Inr (0, b')"
  shows "0 \<le> env_status env \<and> (\<exists>s. final_hash_scheme env sch = Some (strategy_name s))"
proof (cases "final_hash_scheme env sch")
  case (Some n)
  obtain ret h where g: "getHasher L n new_hasher = (ret, h)" by force
  show ?thesis
  proof (cases "ok ret")
    case True
    then show ?thesis using assms Some g getHasher_ok [OF g] by (auto simp: chksumLocFile_def split: if_splits)
  next
    case False
    then have "code ret \<noteq> 0"
      using g by (auto simp: getHasher_def hasher_init_def strategy_defs split: option.splits hash_strategy.splits)
    with assms Some g False show ?thesis by (auto simp: chksumLocFile_def split: if_splits)
  qed
qed (use assms in \<open>auto simp: chksumLocFile_def split: if_splits\<close>)

section \<open>A checksum tells its scheme\<close>

lemma find_first_not_of_None: "find_first_not_of s d (Some 0) = None \<longleftrightarrow> set s \<subseteq> set d"
  by (auto simp: find_first_not_of_def find_pos_def find_None_iff in_set_conv_nth subset_iff)

lemma hex_digit_in: "n < 16 \<Longrightarrow> ''0123456789abcdef'' ! n \<in> set ''0123456789abcdef''"
  by (rule nth_mem) simp

lemma set_hex_text: "set (hex_text n) \<subseteq> set ''0123456789abcdef''"
proof (induction n rule: hex_text.induct)
  case (1 n)
  then show ?case
    using hex_digit_in [of n] hex_digit_in [of "n mod 16"] by (subst hex_text.simps) (simp split: if_splits)
qed

lemma set_setw_hex: "set (setw w (hex_text n)) \<subseteq> set ''0123456789abcdef''"
proof -
  have "set (setw w (hex_text n)) \<subseteq> insert (CHR ''0'') (set (hex_text n))" by (auto simp: setw_def)
  moreover have "CHR ''0'' \<in> set ''0123456789abcdef''" by simp
  ultimately show ?thesis using set_hex_text [of n] by (meson insert_subset order_trans)
qed

lemma set_hex_bytes: "set (hex_bytes bs) \<subseteq> set ''0123456789abcdef''"
  using set_hex_text by (fastforce simp: hex_bytes_def setw_def)

lemma length_hex_text: "n < 16 ^ Suc k \<Longrightarrow> length (hex_text n) \<le> Suc k"
proof (induction k arbitrary: n)
  case 0
  then show ?case by (subst hex_text.simps) simp
next
  case (Suc k)
  then have "n div 16 < 16 ^ Suc k" by (simp add: less_mult_imp_div_less)
  with Suc.IH [of "n div 16"] show ?case by (subst hex_text.simps) simp
qed

lemma length_hex_bytes: "length (hex_bytes bs) = 2 * length bs"
proof (induction bs)
  case (Cons b bs)
  then show ?case
    using length_hex_text [of "unat b" 1] byte_less [of b] by (simp add: hex_bytes_def setw_def)
qed (simp add: hex_bytes_def)

lemma checksum_text_prefix:
  "checksum_text L s data = Some t \<Longrightarrow> s \<noteq> MD5 \<Longrightarrow> \<exists>r. t = checksum_prefix s @ r"
  by (cases s) (auto simp: checksum_text_def)

lemma prefix_not_hex: "s \<noteq> MD5 \<Longrightarrow> \<not> set (checksum_prefix s) \<subseteq> set ''0123456789abcdefABCDEF''"
  by (cases s) simp_all

lemma isChecksum_cases:
  "isChecksum MD5 t \<longleftrightarrow> set t \<subseteq> set ''0123456789abcdefABCDEF''"
  "s \<noteq> MD5 \<Longrightarrow> isChecksum s t \<longleftrightarrow> (\<exists>r. t = checksum_prefix s @ r)"
  by (simp_all only: isChecksum_def hash_strategy.case find_first_not_of_None)
    (cases s; simp add: starts_with_iff)

lemma prefix_unique: "checksum_prefix s @ r = checksum_prefix s' @ r' \<Longrightarrow> s = s'"
  by (cases s; cases s') simp_all

lemma isChecksum_text:
  assumes "checksum_text L s data = Some t"
  shows "isChecksum s' t \<longleftrightarrow> s' = s"
proof (cases "s = MD5")
  case True
  then have "set t \<subseteq> set ''0123456789abcdef''"
    using assms set_hex_bytes by (auto simp only: checksum_text_def hash_strategy.case map_option_eq_Some)
  moreover have "set ''0123456789abcdef'' \<subseteq> set ''0123456789abcdefABCDEF''" by simp
  ultimately have hex: "set t \<subseteq> set ''0123456789abcdefABCDEF''" by (rule subset_trans)
  have "\<not> isChecksum s' t" if "s' \<noteq> MD5"
  proof
    assume "isChecksum s' t"
    then have "set (checksum_prefix s') \<subseteq> set t" using isChecksum_cases(2) [OF that] by fastforce
    with hex prefix_not_hex [OF that] show False by (meson subset_trans)
  qed
  with True hex isChecksum_cases(1) show ?thesis by blast
next
  case False
  with assms obtain r where r: "t = checksum_prefix s @ r" using checksum_text_prefix by blast
  then have "set (checksum_prefix s) \<subseteq> set t" by simp
  then have "\<not> isChecksum MD5 t"
    using prefix_not_hex [OF False] isChecksum_cases(1) by (meson subset_trans)
  then show ?thesis
    using False r isChecksum_cases(2) prefix_unique by metis
qed

lemma find_unique: "(\<And>x. P x \<longleftrightarrow> x = y) \<Longrightarrow> y \<in> set xs \<Longrightarrow> List.find P xs = Some y"
  by (induction xs) auto

lemma scheme_of_checksum_text:
  assumes "checksum_text L s data = Some t" "t \<noteq> []" "set order = UNIV"
  shows "get_hash_scheme_from_checksum order t [] = (SUCCESS, strategy_name s)"
proof -
  have "List.find (\<lambda>s'. isChecksum s' t) order = Some s"
    by (rule find_unique [OF isChecksum_text [OF assms(1)]]) (simp add: assms(3))
  with assms(2) show ?thesis by (simp add: get_hash_scheme_from_checksum_def)
qed

lemma map_tolower_name: "map tolower (strategy_name s) = strategy_name s"
  by (cases s) (simp_all add: tolower_def)

lemma final_hash_scheme_again:
  "final_hash_scheme env sch = Some (strategy_name s) \<Longrightarrow> final_hash_scheme env (strategy_name s) = Some (strategy_name s)"
  by (cases s) (auto simp: final_hash_scheme_def requested_hash_scheme_def map_tolower_name CHKSUM_LEN_def tolower_def
      Let_def split: if_splits)

context documented_digests
begin

lemma checksum_text_length:
  assumes "checksum_text L s data = Some t"
  shows "0 < length t \<and> length t < LONG_CHKSUM_LEN"
proof (cases "s = ADLER32 \<or> s = CRC64NVME")
  case True
  have "adler32_reference data < 16 ^ Suc 7"
    using mod_less_divisor [of 65521 "length data + adler_weighted data"] mod_less_divisor [of 65521 "1 + adler_sum data"]
    by (simp add: adler32_reference_def)
  with True assms show ?thesis
    using length_hex_text [of "adler32_reference data" 7]
    by (auto simp: checksum_text_def LONG_CHKSUM_LEN_def length_setw length_encode_groups crc_bytes_def)
next
  case False
  with assms obtain bs where bs: "evp_digest L s data = Some bs"
    "t = (if s = MD5 then hex_bytes bs else checksum_prefix s @ encode_groups bs)"
    by (cases s) (auto simp: checksum_text_def)
  then show ?thesis
    using evp_digest_length [OF bs(1)] False
    by (cases s) (simp_all add: LONG_CHKSUM_LEN_def length_hex_bytes length_encode_groups)
qed

lemma verify_readable:
  assumes "0 \<le> env_status env" "final_hash_scheme env sch = Some (strategy_name s)" "set order = UNIV"
    "open_errno (fs f) = None" "read_errno (fs f) = None" "checksum_text L s data = Some t"
  shows "\<exists>ec b. verifyChksumLocFile L env fs order (Some f) t None = Inr (ec, b) \<and>
    (ec = 0 \<longleftrightarrow> checksum_text L s (contents (fs f)) = Some t)"
proof -
  have "get_hash_scheme_from_checksum order t [] = (SUCCESS, strategy_name s)"
    using scheme_of_checksum_text [OF assms(6) _ assms(3)] checksum_text_length [OF assms(6)] by simp
  moreover obtain ec where "ec < 0" "chksumLocFile L env fs (Some f) (Some []) (Some (strategy_name s)) =
      Inr (case checksum_text L s (contents (fs f)) of Some t' \<Rightarrow> (0, Some t') | None \<Rightarrow> (ec, Some []))"
    using chksumLocFile_readable [where fs = fs and f = f, OF assms(1) final_hash_scheme_again [OF assms(2)] assms(4,5)] by blast
  ultimately show ?thesis
    by (auto simp: verifyChksumLocFile_def split: option.splits)
qed

end

text \<open>A library for the examples: its digests repeat one byte, the length of the text modulo 256, and its CRC is the sum
  of the bytes.\<close>

definition sample_library :: "(nat \<times> string, nat) digest_library" where
  "sample_library =
     \<lparr>evp_init = (\<lambda>n. map_option (\<lambda>s. (digest_length s, [])) (List.find (\<lambda>s. strategy_name s = n) strategies)),
      evp_update = (\<lambda>(k, x) y. Some (k, x @ y)),
      evp_final = (\<lambda>(k, x). Some (replicate k (word_of_nat (length x)))),
      crc_basic = (\<lambda>_ _ _ _ _. 0), crc_process = (\<lambda>d x. d + sum_list (map of_char x)), crc_checksum = word_of_nat\<rparr>"

interpretation sample_digests: documented_digests sample_library
proof
  show "evp_init sample_library (strategy_name s) = Some c \<Longrightarrow> evp_update sample_library c x = Some c' \<Longrightarrow>
      evp_final sample_library c' = Some bs \<Longrightarrow> length bs = digest_length s" for s c x c' bs
    by (cases s) (auto simp: sample_library_def strategies_def)
qed (simp_all add: sample_library_def split: prod.splits)

text \<open>C40 (equivalence). The Adler-32 value computed on 32-bit words is the one RFC 1950 defines on the natural
  numbers, for every text.\<close>

theorem adler32_rfc1950: "unat (adler32_final (adler32_update adler32_init data)) = adler32_reference data"
  by (rule adler32_correct)

text \<open>C15 (functional). When \<^verbatim>\<open>chksumLocFile\<close> succeeds on a readable file, the buffer holds the checksum of the
  whole contents, however they were split into buffers, in the form of the chosen scheme, and it fits a buffer of
  \<^verbatim>\<open>LONG_CHKSUM_LEN\<close> with its terminating zero. Verifying a file against that checksum under the same
  environment recomputes it with the same scheme, in whatever order the factory tries the strategies, and
  succeeds exactly when the contents then have that checksum.\<close>

theorem checksum_verification:
  assumes "documented_digests L" "set order = UNIV"
    and "open_errno (fs f) = None" "read_errno (fs f) = None"
    and "chksumLocFile L env fs (Some f) (Some b) (Some sch) = Inr (0, Some t)"
  shows "\<exists>s. final_hash_scheme env sch = Some (strategy_name s) \<and>
    checksum_text L s (contents (fs f)) = Some t \<and> length t + 1 \<le> LONG_CHKSUM_LEN \<and>
    (\<forall>fs'. open_errno (fs' f) = None \<and> read_errno (fs' f) = None \<longrightarrow>
      (\<exists>ec b'. verifyChksumLocFile L env fs' order (Some f) t None = Inr (ec, b') \<and>
        (ec = 0 \<longleftrightarrow> checksum_text L s (contents (fs' f)) = Some t)))"
proof -
  obtain s where s: "0 \<le> env_status env" "final_hash_scheme env sch = Some (strategy_name s)"
    using chksumLocFile_zero [OF assms(5)] by blast
  obtain ec where "ec < 0" "chksumLocFile L env fs (Some f) (Some b) (Some sch) =
      Inr (case checksum_text L s (contents (fs f)) of Some t' \<Rightarrow> (0, Some t') | None \<Rightarrow> (ec, Some b))"
    using documented_digests.chksumLocFile_readable [where fs = fs and f = f, OF assms(1) s assms(3,4)] by blast
  with assms(5) have t: "checksum_text L s (contents (fs f)) = Some t" by (auto split: option.splits)
  show ?thesis
    using s t documented_digests.checksum_text_length [OF assms(1) t]
      documented_digests.verify_readable [OF assms(1) s assms(2) _ _ t]
    by (intro exI [of _ s]) auto
qed

definition strict_env :: rods_env where
  "strict_env = \<lparr>env_status = 0, rodsDefaultHashScheme = ''MD5'', rodsMatchHashPolicy = ''strict''\<rparr>"

definition sample_files :: "string \<Rightarrow> string \<Rightarrow> local_file" where
  "sample_files t f = \<lparr>open_errno = None, contents = t, read_errno = None\<rparr>"

abbreviation sample_md5 :: string where
  "sample_md5 \<equiv> ''04040404040404040404040404040404''"

lemma sample_checksum:
  "chksumLocFile sample_library strict_env (sample_files ''data'') (Some ''f'') (Some []) (Some []) = Inr (0, Some sample_md5)"
  by (simp add: chksumLocFile_def strict_env_def final_hash_scheme_def env_hash_scheme_def requested_hash_scheme_def
      tolower_def STRICT_HASH_POLICY_def getHasher_def strategies_def hasher_init_def strategy_defs sample_library_def
      sample_files_def hash_file_def hash_buffers.simps HASH_BUF_SZ_def hasher_update_def hasher_digest_def new_hasher_def
      strategy_digest_def strategy_digest_with_def evp_strategy_digest_def default_options_def
      prepare_output_string_def prepare_hex_string_def setw_def hex_text.simps)
    code_simp

theorem checksum_verification_witness:
  "\<exists>s. final_hash_scheme strict_env [] = Some (strategy_name s) \<and>
    checksum_text sample_library s (contents (sample_files ''data'' ''f'')) = Some sample_md5 \<and>
    length sample_md5 + 1 \<le> LONG_CHKSUM_LEN \<and>
    (\<exists>ec b'. verifyChksumLocFile sample_library strict_env (sample_files ''other'') strategies (Some ''f'')
        sample_md5 None = Inr (ec, b') \<and> (ec = 0 \<longleftrightarrow> checksum_text sample_library s ''other'' = Some sample_md5))"
proof -
  let ?ok = "\<lambda>s fs'. \<exists>ec b'. verifyChksumLocFile sample_library strict_env fs' strategies (Some ''f'') sample_md5 None =
      Inr (ec, b') \<and> (ec = 0 \<longleftrightarrow> checksum_text sample_library s (contents (fs' ''f'')) = Some sample_md5)"
  have "set strategies = UNIV"
    using hash_strategy.exhaust by (auto simp: strategies_def)
  then have "\<exists>s. final_hash_scheme strict_env [] = Some (strategy_name s) \<and>
      checksum_text sample_library s (contents (sample_files ''data'' ''f'')) = Some sample_md5 \<and>
      length sample_md5 + 1 \<le> LONG_CHKSUM_LEN \<and>
      (\<forall>fs'. open_errno (fs' ''f'') = None \<and> read_errno (fs' ''f'') = None \<longrightarrow> ?ok s fs')"
    by (rule checksum_verification [OF sample_digests.documented_digests_axioms _ _ _ sample_checksum])
      (simp_all add: sample_files_def)
  then obtain s where "final_hash_scheme strict_env [] = Some (strategy_name s)"
    "checksum_text sample_library s (contents (sample_files ''data'' ''f'')) = Some sample_md5"
    "length sample_md5 + 1 \<le> LONG_CHKSUM_LEN"
    "\<And>fs'. open_errno (fs' ''f'') = None \<and> read_errno (fs' ''f'') = None \<Longrightarrow> ?ok s fs'"
    by blast
  note s = this
  from s(4) [of "sample_files ''other''"] have "?ok s (sample_files ''other'')" by (simp add: sample_files_def)
  with s(1-3) show ?thesis by (intro exI [of _ s] conjI) (simp_all add: sample_files_def)
qed

end
