(* ===== verification/Zone_Keys.thy ===== *)
theory Zone_Keys
  imports Hashing Std_Map
begin

text \<open>
  How servers prove to each other that they belong to trusted zones: the zone key is encrypted with the negotiation key
  and hashed (\<^verbatim>\<open>sign_zone_key\<close> of \<^verbatim>\<open>lib/core/src/irods_client_negotiation.cpp\<close>, over the
  encryption of \<^verbatim>\<open>lib/core/src/irods_buffer_encryption.cpp\<close> and the hashers), the keys come from the
  local configuration or from its federation entries, and the receiving server compares the signature with those of
  the zones it knows (\<^verbatim>\<open>server/core/src/irods_server_negotiation.cpp\<close>). The server configuration is a JSON
  value; the ciphers of OpenSSL are parameters.
\<close>

abbreviation ZONE_KEY_SIGNATURE_MISMATCH :: int where "ZONE_KEY_SIGNATURE_MISMATCH \<equiv> - 147000"

section \<open>The server configuration\<close>

datatype json = JNull | JBool bool | JNum int | JStr string | JArr "json list" | JObj "(string \<times> json) list"

text \<open>\<^verbatim>\<open>find\<close> and \<^verbatim>\<open>at\<close> of a JSON value, \<^verbatim>\<open>get_ref<const std::string&>\<close>, \<^verbatim>\<open>empty\<close>, and the values a range
  \<^verbatim>\<open>for\<close> visits: a value that is neither a container nor null is visited itself.\<close>

definition json_find :: "json \<Rightarrow> string \<Rightarrow> json option" where
  "json_find j k = (case j of JObj m \<Rightarrow> map_of m k | _ \<Rightarrow> None)"

definition json_member :: "json \<Rightarrow> string \<Rightarrow> json throws" where
  "json_member j k = from_option json_exception (json_find j k)"

definition json_string :: "json \<Rightarrow> string throws" where
  "json_string j = (case j of JStr s \<Rightarrow> Inr s | _ \<Rightarrow> Inl json_exception)"

definition json_is_empty :: "json \<Rightarrow> bool" where
  "json_is_empty j = (case j of JNull \<Rightarrow> True | JArr xs \<Rightarrow> xs = [] | JObj m \<Rightarrow> m = [] | _ \<Rightarrow> False)"

definition json_items :: "json \<Rightarrow> json list" where
  "json_items j = (case j of JNull \<Rightarrow> [] | JArr xs \<Rightarrow> xs | JObj m \<Rightarrow> map snd m | _ \<Rightarrow> [j])"

text \<open>\<^verbatim>\<open>get_server_property<std::string>\<close>.\<close>

definition get_server_property :: "json \<Rightarrow> string \<Rightarrow> string throws" where
  "get_server_property config k = (case json_find config k of
      Some prop \<Rightarrow> if \<not> json_is_empty prop then json_string prop else Inr []
    | None \<Rightarrow> Inl (irods_exception KEY_NOT_FOUND))"

section \<open>Which keys to use for a host\<close>

fun host_listed :: "string \<Rightarrow> json list \<Rightarrow> bool throws" where
  "host_listed host [] = Inr False"
| "host_listed host (h # hosts) = tbind (json_string h) (\<lambda>s. if host = s then Inr True else host_listed host hosts)"

fun federation_loop :: "string \<Rightarrow> string \<Rightarrow> json list \<Rightarrow> string option throws" where
  "federation_loop host key [] = Inr None"
| "federation_loop host key (item # items) =
     (case (json_find item ''catalog_provider_hosts'', json_find item key) of
        (Some provider_hosts, Some desired_value) \<Rightarrow>
          tbind (host_listed host (json_items provider_hosts)) (\<lambda>found.
            if found then tbind (json_string desired_value) (\<lambda>s. Inr (Some s))
            else federation_loop host key items)
      | _ \<Rightarrow> federation_loop host key items)"

text \<open>Only an \<^verbatim>\<open>irods::exception\<close> is caught: the missing federation list. One of the JSON library leaves the function.\<close>

definition get_federation_property :: "json \<Rightarrow> string \<Rightarrow> string \<Rightarrow> string option throws" where
  "get_federation_property config host key = (case json_find config ''federation'' of
      None \<Rightarrow> Inr None
    | Some federation_list \<Rightarrow> federation_loop host key (json_items federation_list))"

definition determine_hash_scheme :: "json \<Rightarrow> string \<Rightarrow> string throws" where
  "determine_hash_scheme config host =
     tbind (get_federation_property config host ''zone_key_signing_hash_scheme'') (\<lambda>federation_hash_scheme.
       case federation_hash_scheme of
         Some s \<Rightarrow> Inr s
       | None \<Rightarrow> (case get_server_property config ''zone_key_signing_hash_scheme'' of
             Inr s \<Rightarrow> Inr s | Inl _ \<Rightarrow> Inr (strategy_name MD5)))"

definition determine_negotiation_key :: "json \<Rightarrow> string \<Rightarrow> string throws" where
  "determine_negotiation_key config host =
     tbind (get_federation_property config host ''negotiation_key'') (\<lambda>federation_property.
       case federation_property of
         Some s \<Rightarrow> Inr s
       | None \<Rightarrow> get_server_property config ''negotiation_key'')"

text \<open>The regular expression is matched against \<^verbatim>\<open>data()\<close>, a C string, which ends at the first zero byte.\<close>

definition negotiation_key_char :: "char \<Rightarrow> bool" where
  "negotiation_key_char c = (let n = of_char c :: nat in
     48 \<le> n \<and> n \<le> 57 \<or> 65 \<le> n \<and> n \<le> 90 \<or> 97 \<le> n \<and> n \<le> 122 \<or> c = CHR ''_'')"

definition negotiation_key_is_valid :: "string \<Rightarrow> bool" where
  "negotiation_key_is_valid key =
     (let c_str = takeWhile (\<lambda>c. c \<noteq> CHR 0x00) key in
      length key = 32 \<and> c_str \<noteq> [] \<and> list_all negotiation_key_char c_str)"

section \<open>Signing\<close>

text \<open>OpenSSL: the digests, the cipher selected by \<^verbatim>\<open>buffer_crypt\<close>'s default algorithm, and the next code in its error queue.\<close>

record ('c, 'd, 'x) crypto_library =
  digests :: "('c, 'd) digest_library"
  encrypt_init :: "string \<Rightarrow> string \<Rightarrow> 'x option"
  encrypt_update :: "'x \<Rightarrow> string \<Rightarrow> (string \<times> 'x) option"
  encrypt_final :: "'x \<Rightarrow> string option"
  err_get_error :: int

definition encrypt :: "('c, 'd, 'x) crypto_library \<Rightarrow> string \<Rightarrow> string \<Rightarrow> string \<Rightarrow> error + string" where
  "encrypt C key iv in_buf = (case encrypt_init C key iv of
      None \<Rightarrow> Inl (ERROR (err_get_error C))
    | Some x \<Rightarrow> (case encrypt_update C x in_buf of
          None \<Rightarrow> Inl (ERROR (err_get_error C))
        | Some (cipher_text, x') \<Rightarrow> (case encrypt_final C x' of
              None \<Rightarrow> Inl (ERROR (err_get_error C))
            | Some rest \<Rightarrow> Inr (cipher_text @ rest))))"

text \<open>The error with the output string.\<close>

definition sign_zone_key ::
  "('c, 'd, 'x) crypto_library \<Rightarrow> string \<Rightarrow> string \<Rightarrow> string \<Rightarrow> string \<Rightarrow> (error \<times> string) throws" where
  "sign_zone_key C zone_key encryption_key hash_scheme signed_zone_key =
     (if zone_key = [] then Inr (ERROR CLIENT_NEGOTIATION_ERROR, signed_zone_key)
      else if \<not> negotiation_key_is_valid encryption_key then Inr (ERROR CLIENT_NEGOTIATION_ERROR, signed_zone_key)
      else case encrypt C encryption_key encryption_key zone_key of
        Inl err \<Rightarrow> Inr (err, signed_zone_key)
      | Inr out_buf \<Rightarrow> (case getHasher (digests C) hash_scheme new_hasher of
          (err, h) \<Rightarrow>
            if \<not> ok err then Inr (err, signed_zone_key)
            else (case hasher_update (digests C) out_buf h of
              (r, h') \<Rightarrow> tbind r (\<lambda>err.
                if \<not> ok err then Inr (err, signed_zone_key)
                else case hasher_digest (digests C) (Some \<lparr>output_mode = hex_string, include_checksum_prefix = False\<rparr>)
                    signed_zone_key h' of
                  ((r', out), h'') \<Rightarrow> tbind r' (\<lambda>err. Inr (if \<not> ok err then err else SUCCESS, out))))))"

definition sign_server_sid ::
  "('c, 'd, 'x) crypto_library \<Rightarrow> string \<Rightarrow> string \<Rightarrow> string \<Rightarrow> (error \<times> string) throws" where
  "sign_server_sid C zone_key encryption_key signed_zone_key =
     sign_zone_key C zone_key encryption_key (strategy_name MD5) signed_zone_key"

section \<open>The zones a server knows\<close>

text \<open>\<^verbatim>\<open>zone_key_map\<close> and \<^verbatim>\<open>remote_SID_key_map\<close>, filled from the federation entries when the agent
  starts (the end of \<^verbatim>\<open>initRcatServerHostByFile\<close>). An entry that throws is skipped; it may have
  been entered in the older table by then.\<close>

record zone_tables =
  zone_key_map :: "(string, string \<times> string \<times> string) std_map"
  remote_SID_key_map :: "(string, string \<times> string) std_map"

definition federation_hash_scheme :: "json \<Rightarrow> string throws" where
  "federation_hash_scheme federation = (case json_find federation ''zone_key_signing_hash_scheme'' of
      Some s \<Rightarrow> json_string s | None \<Rightarrow> Inr (strategy_name MD5))"

definition add_federation :: "json \<Rightarrow> zone_tables \<Rightarrow> zone_tables" where
  "add_federation federation t =
     (case (tbind (json_member federation ''zone_name'') json_string,
            tbind (json_member federation ''zone_key'') json_string,
            tbind (json_member federation ''negotiation_key'') json_string) of
        (Inr zone_name, Inr zone_key, Inr negotiation_key) \<Rightarrow>
          let t' = t\<lparr>remote_SID_key_map := map_set zone_name (zone_key, negotiation_key) (remote_SID_key_map t)\<rparr> in
          (case federation_hash_scheme federation of
             Inr hash_scheme \<Rightarrow>
               t'\<lparr>zone_key_map := map_set zone_name (zone_key, negotiation_key, hash_scheme) (zone_key_map t')\<rparr>
           | Inl _ \<Rightarrow> t')
      | _ \<Rightarrow> t)"

text \<open>The federation list must be an array; \<^verbatim>\<open>get_ref\<close> throws when it is not.\<close>

definition init_zone_keys :: "json \<Rightarrow> zone_tables \<Rightarrow> zone_tables throws" where
  "init_zone_keys config t = (case json_find config ''federation'' of
      None \<Rightarrow> Inr t
    | Some (JArr federations) \<Rightarrow> Inr (fold add_federation federations t)
    | Some _ \<Rightarrow> Inl json_exception)"

section \<open>Checking a signature\<close>

text \<open>The hash table lists its entries in an unspecified order, the order of the list \<open>entries\<close>.\<close>

fun check_remote_zones ::
  "('c, 'd, 'x) crypto_library \<Rightarrow> (string \<times> string \<times> string \<times> string) list \<Rightarrow> string \<Rightarrow> error throws" where
  "check_remote_zones C [] sent = Inr (ERROR ZONE_KEY_SIGNATURE_MISMATCH)"
| "check_remote_zones C ((_, zone_key, neg_key, hash_scheme) # entries) sent =
     tbind (sign_zone_key C zone_key neg_key hash_scheme []) (\<lambda>(err, signed_zone_key).
       if \<not> ok err then Inr err
       else if sent = signed_zone_key then Inr SUCCESS
       else check_remote_zones C entries sent)"

definition check_sent_zone_key ::
  "('c, 'd, 'x) crypto_library \<Rightarrow> json \<Rightarrow> (string \<times> string \<times> string \<times> string) list \<Rightarrow> string \<Rightarrow> error throws" where
  "check_sent_zone_key C config entries sent =
     (if sent = [] then Inr (ERROR SYS_INVALID_INPUT_PARAM)
      else
        let local =
          tbind (tbind (json_member config ''negotiation_key'') json_string) (\<lambda>neg_key.
          tbind (tbind (json_member config ''zone_key'') json_string) (\<lambda>zone_key.
          tbind (case json_find config ''zone_key_signing_hash_scheme'' of
              Some s \<Rightarrow> json_string s | None \<Rightarrow> Inr (strategy_name MD5)) (\<lambda>hash_scheme.
          tbind (sign_zone_key C zone_key neg_key hash_scheme []) (\<lambda>(err, signed_zone_key).
            if \<not> ok err then Inr (Some err)
            else if sent = signed_zone_key then Inr (Some SUCCESS)
            else Inr None))))
        in (case local of
            Inl (irods_exception c) \<Rightarrow> Inr (ERROR c)
          | Inl e \<Rightarrow> Inl e
          | Inr (Some err) \<Rightarrow> Inr err
          | Inr None \<Rightarrow> check_remote_zones C entries sent))"

text \<open>The deprecated check of \<^verbatim>\<open>check_sent_sid\<close>: always MD5, over the older table.\<close>

fun check_remote_sids ::
  "('c, 'd, 'x) crypto_library \<Rightarrow> (string \<times> string \<times> string) list \<Rightarrow> string \<Rightarrow> error throws" where
  "check_remote_sids C [] sent = Inr (ERROR ZONE_KEY_SIGNATURE_MISMATCH)"
| "check_remote_sids C ((_, zone_key, neg_key) # entries) sent =
     tbind (sign_server_sid C zone_key neg_key []) (\<lambda>(err, signed_zone_key).
       if \<not> ok err then Inr err
       else if sent = signed_zone_key then Inr SUCCESS
       else check_remote_sids C entries sent)"

definition check_sent_sid ::
  "('c, 'd, 'x) crypto_library \<Rightarrow> json \<Rightarrow> (string \<times> string \<times> string) list \<Rightarrow> string \<Rightarrow> error throws" where
  "check_sent_sid C config entries sent =
     (if sent = [] then Inr (ERROR SYS_INVALID_INPUT_PARAM)
      else
        let local =
          tbind (get_server_property config ''negotiation_key'') (\<lambda>neg_key.
          tbind (get_server_property config ''zone_key'') (\<lambda>zone_key.
          tbind (sign_server_sid C zone_key neg_key []) (\<lambda>(err, signed_zone_key).
            if \<not> ok err then Inr (Some err)
            else if sent = signed_zone_key then Inr (Some SUCCESS)
            else Inr None)))
        in (case local of
            Inl (irods_exception c) \<Rightarrow> Inr (ERROR c)
          | Inl e \<Rightarrow> Inl e
          | Inr (Some err) \<Rightarrow> Inr err
          | Inr None \<Rightarrow> check_remote_sids C entries sent))"

section \<open>The signature of a zone key\<close>

definition hex_digest :: "('c, 'd) digest_library \<Rightarrow> hash_strategy \<Rightarrow> string \<Rightarrow> string option" where
  "hex_digest L s data = (case s of
      ADLER32 \<Rightarrow> Some (setw 8 (hex_text (adler32_reference data)))
    | CRC64NVME \<Rightarrow> Some (hex_bytes (crc_bytes (crc_checksum L (crc_process L (crc_start L) data))))
    | _ \<Rightarrow> map_option hex_bytes (evp_digest L s data))"

definition signature :: "('c, 'd, 'x) crypto_library \<Rightarrow> string \<Rightarrow> string \<Rightarrow> string \<Rightarrow> string option" where
  "signature C zone_key neg_key scheme =
     (if zone_key = [] \<or> \<not> negotiation_key_is_valid neg_key then None
      else case (encrypt C neg_key neg_key zone_key, List.find (\<lambda>s. strategy_name s = scheme) strategies) of
        (Inr buf, Some s) \<Rightarrow> hex_digest (digests C) s buf
      | _ \<Rightarrow> None)"

lemma ok_not_SUCCESS: "\<not> ok (ERROR c)" by simp

lemma encrypt_not_ok: "encrypt C k iv x = Inl e \<Longrightarrow> \<not> ok e"
  by (auto simp: encrypt_def split: option.splits)

context documented_digests
begin

lemma hasher_init_hex:
  assumes "hasher_init L s new_hasher = (ret, h)"
  shows "ret = SUCCESS \<and> fed L s [] h \<or> ret = ERROR DIGEST_INIT_FAILED \<and> hex_digest L s data = None"
  using assms
  by (cases s) (auto simp: hasher_init_def strategy_defs fed_def hashed_def new_hasher_def evp_update_Nil
      crc.feed_Nil hex_digest_def evp_digest_def split: option.splits)

lemma hasher_update_hex:
  assumes "fed L s [] h" "hasher_update L y h = (r, h')"
  shows "r = Inr SUCCESS \<and> fed L s y h' \<or> r = Inr (ERROR DIGEST_UPDATE_FAILED) \<and> hex_digest L s y = None"
  using hasher_update_fed [OF assms] assms
  by (cases s) (auto simp: hasher_update_def strategy_defs fed_def hashed_def evp_update_Nil hex_digest_def
      evp_digest_def split: option.splits)

lemma hasher_digest_hex:
  assumes "fed L s data h"
  shows "fst (hasher_digest L (Some \<lparr>output_mode = hex_string, include_checksum_prefix = False\<rparr>) out h) =
    (case hex_digest L s data of Some t \<Rightarrow> (Inr SUCCESS, t) | None \<Rightarrow> (Inr (ERROR DIGEST_FINAL_FAILED), []))"
proof (cases "s = ADLER32 \<or> s = CRC64NVME")
  case True
  then show ?thesis
    using assms
    by (auto simp: fed_def hashed_def hasher_digest_def strategy_digest_with_def adler32_strategy_digest_def
        crc64nvme_strategy_digest_def hex_digest_def prepare_output_string_def prepare_hex_string_def
        hex_bytes_def adler32_correct)
next
  case False
  then obtain c c' where c: "evp_init L (strategy_name s) = Some c" "evp_update L c data = Some c'"
    "h_context h = Evp_Any c'" "h_strategy h = Some s" "h_digest h = []"
    using assms by (cases s) (auto simp: fed_def hashed_def)
  have "length bs = digest_length s" if "evp_final L c' = Some bs" for bs
    using that c by (auto intro: evp_final_length)
  then show ?thesis
    using c False
    by (cases s; cases "evp_final L c'")
      (auto simp: hasher_digest_def strategy_digest_with_def evp_strategy_digest_def hex_digest_def
        evp_digest_def prepare_output_string_def prepare_hex_string_def hex_bytes_def)
qed

lemma hex_digest_text:
  assumes "hex_digest L s data = Some t"
  shows "set t \<subseteq> set ''0123456789abcdef'' \<and> 0 < length t \<and> length t \<le> 128"
proof (cases "s = ADLER32")
  case True
  then have t: "t = setw 8 (hex_text (adler32_reference data))" using assms by (simp add: hex_digest_def)
  have "adler32_reference data < 16 ^ Suc 7"
    using mod_less_divisor [of 65521 "length data + adler_weighted data"] mod_less_divisor [of 65521 "1 + adler_sum data"]
    by (simp add: adler32_reference_def)
  then have "length t = 8"
    using length_hex_text [of "adler32_reference data" 7] by (simp add: t length_setw max_def)
  then show ?thesis using set_setw_hex [of 8 "adler32_reference data"] by (simp only: t) simp
next
  case False
  with assms obtain bs where bs: "t = hex_bytes bs" "length bs = digest_length s"
    using evp_digest_length by (cases s) (auto simp: hex_digest_def crc_bytes_def)
  moreover have "0 < digest_length s" "digest_length s \<le> 64" by (cases s; simp)+
  ultimately have "0 < length t" "length t \<le> 128" by (simp_all only: length_hex_bytes)
  then show ?thesis using set_hex_bytes [of bs] bs(1) by (simp only: simp_thms)
qed

end

text \<open>Signing always returns, with the signature or with an error and an empty text.\<close>

locale documented_crypto =
  fixes C :: "('c, 'd, 'x) crypto_library"
  assumes documented: "documented_digests (digests C)"
begin

lemma sign_zone_key_spec:
  "\<exists>e. \<not> ok e \<and> sign_zone_key C zk nk sch [] =
     Inr (case signature C zk nk sch of Some t \<Rightarrow> (SUCCESS, t) | None \<Rightarrow> (e, []))"
proof (cases "zk = [] \<or> \<not> negotiation_key_is_valid nk")
  case True
  then show ?thesis
    by (intro exI [of _ "ERROR CLIENT_NEGOTIATION_ERROR"]) (auto simp: sign_zone_key_def signature_def)
next
  case usable: False
  show ?thesis
  proof (cases "encrypt C nk nk zk")
    case (Inl e)
    then show ?thesis
      using usable encrypt_not_ok [OF Inl] by (intro exI [of _ e]) (auto simp: sign_zone_key_def signature_def)
  next
    case (Inr buf)
    show ?thesis
    proof (cases "List.find (\<lambda>s. strategy_name s = sch) strategies")
      case None
      then show ?thesis
        using usable Inr
        by (intro exI [of _ "ERROR SYS_INVALID_INPUT_PARAM"]) (auto simp: sign_zone_key_def signature_def getHasher_def)
    next
      case (Some s)
      obtain ret h where i: "hasher_init (digests C) s new_hasher = (ret, h)" by force
      obtain r h' where u: "hasher_update (digests C) buf h = (r, h')" by force
      obtain d h'' where d: "hasher_digest (digests C) (Some \<lparr>output_mode = hex_string, include_checksum_prefix = False\<rparr>) [] h' =
          (d, h'')" by (meson surj_pair)
      note defs = sign_zone_key_def signature_def getHasher_def
      from documented_digests.hasher_init_hex [OF documented i, of buf] show ?thesis
      proof (elim disjE conjE)
        assume ret: "ret = SUCCESS" and fed: "fed (digests C) s [] h"
        from documented_digests.hasher_update_hex [OF documented fed u] show ?thesis
        proof (elim disjE conjE)
          assume r: "r = Inr SUCCESS" and "fed (digests C) s buf h'"
          from documented_digests.hasher_digest_hex [OF documented this(2), of "[]"] show ?thesis
            using usable Inr Some i u d ret r
            by (intro exI [of _ "ERROR DIGEST_FINAL_FAILED"]) (simp add: defs split: option.splits)
        qed (use usable Inr Some i u ret in \<open>intro exI [of _ "ERROR DIGEST_UPDATE_FAILED"], simp add: defs\<close>)
      qed (use usable Inr Some i in \<open>intro exI [of _ "ERROR DIGEST_INIT_FAILED"], simp add: defs\<close>)
    qed
  qed
qed

lemma signature_text:
  assumes "signature C zk nk sch = Some t"
  shows "set t \<subseteq> set ''0123456789abcdef'' \<and> 0 < length t \<and> length t \<le> 128"
proof -
  obtain s data where "hex_digest (digests C) s data = Some t"
    using assms by (auto simp: signature_def split: if_splits sum.splits option.splits)
  then show ?thesis by (rule documented_digests.hex_digest_text [OF documented])
qed

lemma check_remote_zones_spec:
  assumes "\<forall>(n, zk, nk, sch)\<in>set entries. signature C zk nk sch \<noteq> None"
  shows "check_remote_zones C entries sent =
    Inr (if \<exists>(n, zk, nk, sch)\<in>set entries. signature C zk nk sch = Some sent then SUCCESS
         else ERROR ZONE_KEY_SIGNATURE_MISMATCH)"
  using assms
proof (induction entries)
  case (Cons entry entries)
  obtain n zk nk sch where entry: "entry = (n, zk, nk, sch)" by (cases entry)
  with Cons.prems obtain t where t: "signature C zk nk sch = Some t" by auto
  from sign_zone_key_spec [of zk nk sch] have "sign_zone_key C zk nk sch [] = Inr (SUCCESS, t)" by (auto simp: t)
  with Cons entry t show ?case by auto
qed simp

end

text \<open>The keys a server signs its own zone key with when it receives a connection.\<close>

definition local_keys :: "json \<Rightarrow> string \<Rightarrow> string \<Rightarrow> string \<Rightarrow> bool" where
  "local_keys config zone_key neg_key scheme =
     (json_find config ''zone_key'' = Some (JStr zone_key) \<and> json_find config ''negotiation_key'' = Some (JStr neg_key) \<and>
      (json_find config ''zone_key_signing_hash_scheme'' = Some (JStr scheme) \<or>
       json_find config ''zone_key_signing_hash_scheme'' = None \<and> scheme = strategy_name MD5))"

text \<open>The signatures of the zones a server knows, its own and those of its table.\<close>

definition known_signatures ::
  "('c, 'd, 'x) crypto_library \<Rightarrow> string \<times> string \<times> string \<Rightarrow> (string \<times> string \<times> string \<times> string) list \<Rightarrow> string option set" where
  "known_signatures C own entries = (\<lambda>(zk, nk, sch). signature C zk nk sch) ` (insert own (snd ` set entries))"

context documented_crypto
begin

lemma check_sent_zone_key_spec:
  assumes "local_keys config zk nk sch" "None \<notin> known_signatures C (zk, nk, sch) entries"
  shows "check_sent_zone_key C config entries sent = Inr (
    if sent = [] then ERROR SYS_INVALID_INPUT_PARAM
    else if Some sent \<in> known_signatures C (zk, nk, sch) entries then SUCCESS
    else ERROR ZONE_KEY_SIGNATURE_MISMATCH)"
proof -
  have "signature C zk nk sch \<noteq> None" using assms(2) by (auto simp: known_signatures_def)
  then obtain t where t: "signature C zk nk sch = Some t" by blast
  then have own: "sign_zone_key C zk nk sch [] = Inr (SUCCESS, t)" using sign_zone_key_spec [of zk nk sch] by auto
  have "\<forall>(n, zk, nk, sch)\<in>set entries. signature C zk nk sch \<noteq> None"
    using assms(2) by (force simp: known_signatures_def)
  note remote = check_remote_zones_spec [OF this, of sent]
  have "Some sent \<in> known_signatures C (zk, nk, sch) entries \<longleftrightarrow>
      sent = t \<or> (\<exists>(n, zk, nk, sch)\<in>set entries. signature C zk nk sch = Some sent)"
    using t by (force simp: known_signatures_def)
  then show ?thesis
    using assms(1) own remote
    by (auto simp: check_sent_zone_key_def local_keys_def json_member_def json_string_def)
qed

end

section \<open>Federated zones recognise each other\<close>

text \<open>A usable federation entry of a zone.\<close>

definition federation_entry :: "json \<Rightarrow> string \<Rightarrow> string \<Rightarrow> string \<Rightarrow> string \<Rightarrow> bool" where
  "federation_entry fe zone zone_key neg_key scheme =
     (json_find fe ''zone_name'' = Some (JStr zone) \<and> local_keys fe zone_key neg_key scheme)"

lemma add_federation_entry:
  "federation_entry fe zone zk nk sch \<Longrightarrow>
     zone_key_map (add_federation fe t) = map_set zone (zk, nk, sch) (zone_key_map t)"
  by (auto simp: federation_entry_def local_keys_def add_federation_def federation_hash_scheme_def json_member_def
      json_string_def)

lemma add_federation_inv: "map_inv (zone_key_map t) \<Longrightarrow> map_inv (zone_key_map (add_federation fe t))"
  by (auto simp: add_federation_def Let_def map_inv_map_set split: sum.splits)

lemma json_string_member:
  "tbind (json_member j k) json_string = Inr s \<Longrightarrow> json_find j k = Some (JStr s)"
  by (auto simp: json_member_def json_string_def from_option_def tbind_eq_Inr split: option.splits json.splits)

lemma add_federation_other:
  assumes "json_find fe ''zone_name'' \<noteq> Some (JStr zone)"
  shows "map_find (zone_key_map (add_federation fe t)) zone = map_find (zone_key_map t) zone"
proof (cases "tbind (json_member fe ''zone_name'') json_string")
  case (Inr n)
  then have "n \<noteq> zone" using assms json_string_member [OF Inr] by auto
  with Inr show ?thesis by (simp add: add_federation_def Let_def map_of_map_set split: sum.splits)
qed (simp add: add_federation_def)

lemma fold_add_federation:
  assumes "map_inv (zone_key_map t)"
  shows "map_inv (zone_key_map (fold add_federation fs t))"
    and "(\<forall>fe\<in>set fs. json_find fe ''zone_name'' \<noteq> Some (JStr zone)) \<Longrightarrow>
      map_find (zone_key_map (fold add_federation fs t)) zone = map_find (zone_key_map t) zone"
  using assms by (induction fs arbitrary: t) (simp_all add: add_federation_inv add_federation_other)

lemma init_zone_keys_entry:
  assumes "json_find config ''federation'' = Some (JArr (fs1 @ fe # fs2))" "federation_entry fe zone zk nk sch"
    "\<forall>fe'\<in>set fs2. json_find fe' ''zone_name'' \<noteq> Some (JStr zone)"
  shows "\<exists>t. init_zone_keys config \<lparr>zone_key_map = [], remote_SID_key_map = []\<rparr> = Inr t \<and>
    (zone, zk, nk, sch) \<in> set (zone_key_map t)"
proof -
  let ?t1 = "fold add_federation fs1 \<lparr>zone_key_map = [], remote_SID_key_map = []\<rparr>"
  let ?t = "fold add_federation fs2 (add_federation fe ?t1)"
  have inv: "map_inv (zone_key_map (add_federation fe ?t1))"
    by (intro add_federation_inv fold_add_federation(1)) (simp add: map_inv_def)
  have "map_find (zone_key_map ?t) zone = Some (zk, nk, sch)"
    using fold_add_federation(2) [OF inv assms(3)] by (simp add: add_federation_entry [OF assms(2)] map_of_map_set)
  then have "(zone, zk, nk, sch) \<in> set (zone_key_map ?t)" by (rule map_of_SomeD)
  with assms(1) show ?thesis by (simp add: init_zone_keys_def)
qed

text \<open>A federation entry for the zone of a host, and entries for other hosts.\<close>

definition entry_for_host :: "string \<Rightarrow> bool \<Rightarrow> json \<Rightarrow> bool" where
  "entry_for_host host listed fe = (\<exists>hosts. json_find fe ''catalog_provider_hosts'' = Some hosts \<and>
     host_listed host (json_items hosts) = Inr listed)"

lemma federation_loop_entry:
  assumes "\<forall>fe'\<in>set fs1. entry_for_host host False fe'" "entry_for_host host True fe"
    "json_find fe key = Some (JStr v)"
  shows "federation_loop host key (fs1 @ fe # fs2) = Inr (Some v)"
  using assms
  by (induction fs1) (auto simp: entry_for_host_def json_string_def split: option.splits)

lemma federation_keys:
  assumes "json_find config ''federation'' = Some (JArr (fs1 @ fe # fs2))"
    "\<forall>fe'\<in>set fs1. entry_for_host host False fe'" "entry_for_host host True fe"
    "json_find fe ''negotiation_key'' = Some (JStr nk)" "json_find fe ''zone_key_signing_hash_scheme'' = Some (JStr sch)"
  shows "determine_negotiation_key config host = Inr nk" "determine_hash_scheme config host = Inr sch"
  using assms(1) federation_loop_entry [OF assms(2,3,4)] federation_loop_entry [OF assms(2,3,5)]
  by (simp_all add: determine_negotiation_key_def determine_hash_scheme_def get_federation_property_def json_items_def)

text \<open>A library for the examples: its cipher appends the text to the key.\<close>

definition sample_crypto :: "(nat \<times> string, nat, string) crypto_library" where
  "sample_crypto = \<lparr>digests = sample_library, encrypt_init = (\<lambda>k iv. Some k), encrypt_update = (\<lambda>x s. Some (x, s)),
     encrypt_final = Some, err_get_error = 0\<rparr>"

interpretation sample_crypto: documented_crypto sample_crypto
  by (rule documented_crypto.intro) (simp add: sample_crypto_def sample_digests.documented_digests_axioms)

text \<open>C14 (safety). A server accepts a sent signature exactly when it is the signature of its own zone key or of the
  zone key of a zone in its table, each with its own negotiation key and hash scheme, provided each of these can be
  signed; every other text is refused, with the code of an empty text or of a mismatch.\<close>

theorem sent_zone_key_accepted_iff:
  assumes "documented_crypto C" "local_keys config zk nk sch" "None \<notin> known_signatures C (zk, nk, sch) entries"
  shows "check_sent_zone_key C config entries sent = Inr (
    if sent = [] then ERROR SYS_INVALID_INPUT_PARAM
    else if Some sent \<in> known_signatures C (zk, nk, sch) entries then SUCCESS
    else ERROR ZONE_KEY_SIGNATURE_MISMATCH)"
  by (rule documented_crypto.check_sent_zone_key_spec [OF assms])

abbreviation sample_neg_key :: string where
  "sample_neg_key \<equiv> ''_________negotiation_key_32bytes''"

definition sample_config :: "string \<Rightarrow> json list \<Rightarrow> json" where
  "sample_config zone_key federation = JObj [(''zone_key'', JStr zone_key), (''negotiation_key'', JStr sample_neg_key),
     (''federation'', JArr federation)]"

definition sample_federation :: "string \<Rightarrow> string \<Rightarrow> json" where
  "sample_federation zone zone_key = JObj [(''zone_name'', JStr zone), (''zone_key'', JStr zone_key),
     (''negotiation_key'', JStr sample_neg_key), (''zone_key_signing_hash_scheme'', JStr ''sha1''),
     (''catalog_provider_hosts'', JArr [JStr zone])]"

lemma sample_signatures:
  "signature sample_crypto ''keyA'' sample_neg_key ''sha1'' \<noteq> None"
  "signature sample_crypto ''keyB'' sample_neg_key (strategy_name MD5) \<noteq> None"
  by (simp_all add: signature_def sample_crypto_def encrypt_def negotiation_key_is_valid_def negotiation_key_char_def
      strategies_def hex_digest_def evp_digest_def sample_library_def)

lemma sample_local_keys: "local_keys (sample_config zk fs) zk sample_neg_key (strategy_name MD5)"
  by (simp add: local_keys_def sample_config_def json_find_def)

theorem sent_zone_key_accepted_iff_witness:
  "check_sent_zone_key sample_crypto (sample_config ''keyB'' []) [] ''00'' = Inr (
    if Some ''00'' \<in> known_signatures sample_crypto (''keyB'', sample_neg_key, strategy_name MD5) [] then SUCCESS
    else ERROR ZONE_KEY_SIGNATURE_MISMATCH)"
  using sent_zone_key_accepted_iff [OF sample_crypto.documented_crypto_axioms sample_local_keys [of "''keyB''" "[]"],
      of "[]" "''00''"]
    sample_signatures(2)
  by (simp add: known_signatures_def eq_commute [of None])

text \<open>C13 (functional). Federated zones recognise each other. A server of one zone chooses, for a host of the other zone,
  the negotiation key and the hash scheme of its federation entry for that host, and signs its zone key with them. A
  server of the other zone that has read a federation entry with the same zone key, negotiation key and hash scheme
  accepts the signature, in whatever order its table lists the zones, provided it can sign every key it knows.\<close>

theorem federated_zone_recognised:
  assumes "documented_crypto C"
    and "json_find config ''federation'' = Some (JArr (us @ fe # vs))"
    and "\<forall>fe'\<in>set us. entry_for_host host False fe'" and "entry_for_host host True fe"
    and "json_find fe ''negotiation_key'' = Some (JStr nk)" and "json_find fe ''zone_key_signing_hash_scheme'' = Some (JStr sch)"
    and "json_find config' ''federation'' = Some (JArr (us' @ ge # vs'))" and "federation_entry ge zone zk nk sch"
    and "\<forall>ge'\<in>set vs'. json_find ge' ''zone_name'' \<noteq> Some (JStr zone)"
    and "init_zone_keys config' \<lparr>zone_key_map = [], remote_SID_key_map = []\<rparr> = Inr t" and "set entries = set (zone_key_map t)"
    and "local_keys config' zk' nk' sch'" and "None \<notin> known_signatures C (zk', nk', sch') entries"
  shows "\<exists>k s sig. determine_negotiation_key config host = Inr k \<and> determine_hash_scheme config host = Inr s \<and>
    sign_zone_key C zk k s [] = Inr (SUCCESS, sig) \<and> check_sent_zone_key C config' entries sig = Inr SUCCESS"
proof -
  have "(zone, zk, nk, sch) \<in> set entries"
    using init_zone_keys_entry [OF assms(7-9)] assms(10,11) by auto
  then have known: "signature C zk nk sch \<in> known_signatures C (zk', nk', sch') entries"
    by (force simp: known_signatures_def)
  with assms(13) obtain sig where sig: "signature C zk nk sch = Some sig" by (metis option.exhaust)
  then have "sig \<noteq> []" using documented_crypto.signature_text [OF assms(1) sig] by auto
  moreover have "sign_zone_key C zk nk sch [] = Inr (SUCCESS, sig)"
    using documented_crypto.sign_zone_key_spec [OF assms(1), of zk nk sch] sig by auto
  ultimately show ?thesis
    using documented_crypto.check_sent_zone_key_spec [OF assms(1,12,13), of sig] known sig federation_keys [OF assms(2-6)]
    by simp
qed

theorem federated_zone_recognised_witness:
  "\<exists>k s sig. determine_negotiation_key (sample_config ''keyA'' [sample_federation ''B'' ''keyB'']) ''B'' = Inr k \<and>
    determine_hash_scheme (sample_config ''keyA'' [sample_federation ''B'' ''keyB'']) ''B'' = Inr s \<and>
    sign_zone_key sample_crypto ''keyA'' k s [] = Inr (SUCCESS, sig) \<and>
    check_sent_zone_key sample_crypto (sample_config ''keyB'' [sample_federation ''A'' ''keyA''])
      [(''A'', ''keyA'', sample_neg_key, ''sha1'')] sig = Inr SUCCESS"
  using federated_zone_recognised [where C = sample_crypto and us = "[]" and vs = "[]" and us' = "[]" and vs' = "[]"
      and fe = "sample_federation ''B'' ''keyB''" and ge = "sample_federation ''A'' ''keyA''" and zone = "''A''" and host = "''B''"
      and config = "sample_config ''keyA'' [sample_federation ''B'' ''keyB'']" and zk = "''keyA''"
      and nk = sample_neg_key and sch = "''sha1''" and config' = "sample_config ''keyB'' [sample_federation ''A'' ''keyA'']"
      and t = "\<lparr>zone_key_map = [(''A'', ''keyA'', sample_neg_key, ''sha1'')], remote_SID_key_map = [(''A'', ''keyA'', sample_neg_key)]\<rparr>"
      and entries = "[(''A'', ''keyA'', sample_neg_key, ''sha1'')]" and zk' = "''keyB''" and nk' = sample_neg_key
      and sch' = "strategy_name MD5", OF sample_crypto.documented_crypto_axioms]
    sample_local_keys [of "''keyB''" "[sample_federation ''A'' ''keyA'']"] sample_signatures
  by (simp add: sample_config_def sample_federation_def json_find_def entry_for_host_def json_items_def json_string_def
      federation_entry_def local_keys_def init_zone_keys_def add_federation_def federation_hash_scheme_def json_member_def
      known_signatures_def eq_commute [of None])

end
