(* ===== verification/Spec2Isabelle.thy ===== *)
theory Spec2Isabelle
  imports Hierarchy_Parser Children_Parser Kvp_Parser Replica_Access_Table Path_Lexical Locking_Refinement
    Fixed_Buffer Hashtable Region Resource_Catalog Zone_Keys
begin

text \<open>
  A verification development of the iRODS server and its core library. iRODS stores data objects as replicas on
  storage resources and keeps their names and states in a catalog. The development follows an operation on a data
  object: from the logical path, over the choice of a replica and of the resource that serves it, to the bookkeeping
  of open replicas and the locks on their siblings; with it come the keys by which servers recognise each other, the
  checksums, and the containers and allocators these parts use. File names are relative to \<^verbatim>\<open>src/\<close>.

  \<^bold>\<open>How the code is modelled.\<close> An \<^verbatim>\<open>irods::error\<close> is a value with a status and a code; an exception is the left
  side of a sum, so every throw and early return is a branch. An operation on shared state takes the state and returns
  it, also when it throws. Loops that end are total functions with a measure; loops that may not end are
  \<open>partial_function (option)\<close>s, \<open>None\<close> standing for not returning, and that they return is a theorem of its own. Integers
  have their width where it matters: words in the hashes and in base64, naturals modulo \<open>2 ^ 64\<close> in the allocators.
  Pointers shared between tables are positions in a store. Code from outside the repository is an argument of the
  definitions (boost, OpenSSL, the JSON library, random numbers, the clock, the catalog's rows); what is relied on is a
  named hypothesis, shown to hold of an example by the witness of the theorem. The order of a hash table is never
  assumed: it is an argument.

  \<^bold>\<open>The library.\<close>
  \<^item> \<open>Prelude\<close>: errors, exceptions, the sequencing of stateful operations, executions (\<open>run\<close>, \<open>reach\<close>) and the contracts
    \<open>component\<close> and \<open>shared_component\<close> for what every step keeps and what a client holds under the steps of others.
  \<^item> \<open>Std_String\<close>, \<open>Std_Map\<close>, \<open>Std_Number\<close>: the parts of the C++ library in use. \<open>Std_Map\<close> has the contracts \<open>dictionary\<close>
    and \<open>ordered_map\<close>, interpreted on \<^verbatim>\<open>std::map\<close> and, in \<open>Resource_Manager\<close>, on the hashed lookup tables.

  \<^bold>\<open>Texts with structure.\<close>
  \<^item> \<open>Hierarchy_Parser\<close> (\<^verbatim>\<open>lib/core/src/irods_hierarchy_parser.cpp\<close>, \<^verbatim>\<open>irods_string_tokenize.cpp\<close>): the tokenizer with its
    positions equals splitting at the delimiters; a printed hierarchy parses back. Resolution and the resource manager
    build on it.
  \<^item> \<open>Children_Parser\<close>, \<open>Kvp_Parser\<close> (\<^verbatim>\<open>irods_children_parser.cpp\<close>, \<^verbatim>\<open>irods_kvp_string_parser.cpp\<close>): round trips, with
    escapes, and that the escaped parser returns.
  \<^item> \<open>Path\<close>, \<open>Path_Iteration\<close>, \<open>Path_Lexical\<close> (\<^verbatim>\<open>lib/filesystem/src/path.cpp\<close>): both iterators visit exactly the elements
    of a path; parent and object name, comparison and the normal form follow from them, with the cases of
    \<^verbatim>\<open>lexically_normal\<close> in which \<^verbatim>\<open>..\<close> is removed and those in which it stays.
  \<^item> \<open>Base64\<close> (\<^verbatim>\<open>lib/core/src/base64.cpp\<close>): encoding and decoding on words are inverse; what the decoder writes beyond its
    buffer, and when.

  \<^bold>\<open>Open replicas and locks.\<close>
  \<^item> \<open>Replica_Proxy\<close> (\<^verbatim>\<open>lib/core/include/irods/replica_proxy.hpp\<close>, \<^verbatim>\<open>data_object_proxy.hpp\<close>): replicas as records; what a
    catalog row or JSON text builds fits its buffers; round trip through JSON.
  \<^item> \<open>Replica_State_Table\<close> (\<^verbatim>\<open>server/core/src/replica_state_table.cpp\<close>): the states before and after the changes to an open
    object; updates merge, and a failed publication leaves the entry as it was.
  \<^item> \<open>Replica_Access_Table\<close> (\<^verbatim>\<open>server/core/src/replica_access_table.cpp\<close>): the tokens of open replicas. Executions are
    sequences of the operations, each atomic under the mutex; a token stays valid whatever other agents do, and a
    replica has one token as long as nothing is restored; how restoring gives it two. The source passes a token to the
    lookup as a C string; tokens are UUID texts, so comparing whole strings is the same.
  \<^item> \<open>Logical_Locking\<close>, \<open>Locking_Refinement\<close> (\<^verbatim>\<open>server/core/src/logical_locking.cpp\<close>): \<open>lock_view\<close> is the abstract state of a
    replica under locks, and locking and unlocking in the table of JSON states refine the operations on it. With the
    tokens this gives that two agents never hold different tokens of one intermediate replica.

  \<^bold>\<open>Resources.\<close>
  \<^item> \<open>Voting\<close> (\<^verbatim>\<open>server/core/src/voting.cpp\<close>): the vote of a storage resource, and that an offer means an accessible replica.
  \<^item> \<open>Redirection\<close> (\<^verbatim>\<open>server/core/src/irods_resource_redirect.cpp\<close>): the selection among the root resources by their votes.
  \<^item> \<open>Resource_Tree\<close>, \<open>Resource_Resolution\<close> (\<^verbatim>\<open>plugins/resources\<close>): the coordinating plugins, the trees they form, and a
    contract each of them keeps if its children do; so a resolution ends at a storage resource that offers, or at the hierarchy the client has named.
  \<^item> \<open>Resource_Manager\<close>, \<open>Resource_Hierarchies\<close> (\<^verbatim>\<open>server/core/src/irods_resource_manager.cpp\<close>): the tables filled from the
    catalog are connected as the catalog says; ids, names and hierarchies translate into each other, and on a cyclic
    catalog the translation does not return.
  \<^item> \<open>Resource_Catalog\<close>: all of these together. The trees are unfolded from the manager's table to the depth of the number
    of resources, which \<open>tree_of_complete\<close> shows to be enough, and the hierarchy selected for a data object is one of a
    registered storage resource that is up and has an accessible replica. Two cases in which the replication plugin
    does otherwise show in the statement: it passes on the hierarchy that a client names, and the hypothesis \<open>tree_ok\<close>
    excludes children of it that report \<^verbatim>\<open>CHILD_NOT_FOUND\<close>.

  \<^bold>\<open>Checksums and zone keys.\<close>
  \<^item> \<open>Hashing\<close> (\<^verbatim>\<open>lib/hasher/src\<close>): the strategies behind one interface, the hasher, the factory, and the checksum of a
    file. The checksum is that of the whole contents whatever the buffers, it fits its buffer, its form tells its scheme
    in whatever order the factory looks, and verification accepts exactly the same checksum. Adler-32 on words is that of
    RFC 1950.
  \<^item> \<open>Zone_Keys\<close> (\<^verbatim>\<open>lib/core/src/irods_client_negotiation.cpp\<close>, \<^verbatim>\<open>server/core/src/irods_server_negotiation.cpp\<close>): which keys are
    used for a host, how they sign, and that a server accepts exactly the signatures of the zones it knows, so that
    federated zones with matching entries recognise each other.

  \<^bold>\<open>Memory and containers.\<close>
  \<^item> \<open>Fixed_Buffer\<close> (\<^verbatim>\<open>lib/core/include/irods/fixed_buffer_resource.hpp\<close>, \<^verbatim>\<open>capped_memory_resource.hpp\<close>): allocations held at
    the same time are aligned, disjoint and inside the buffer in every execution; the first-fit rule, and two defects.
  \<^item> \<open>Region\<close> (\<^verbatim>\<open>lib/core/src/region.cpp\<close>): allocations of a region are disjoint and inside their blocks.
  \<^item> \<open>Hashtable\<close> (\<^verbatim>\<open>lib/core/src/hashtable.cpp\<close>): the table, growing or not, refines a multimap.

  \<^bold>\<open>Bounds.\<close> Sizes are those of a 64-bit platform. The hash table theorem is about sequences of up to \<open>2 ^ 30\<close> operations, so
  that the \<^verbatim>\<open>int\<close>s that count bindings and buckets do not overflow; its array of
  buckets is taken to be allocated as asked for. Requests to a region stay below \<open>2 ^ 31\<close>, the range of the \<^verbatim>\<open>int\<close> its sizes are kept in. Base64
  inputs stay below \<open>2 ^ 62\<close> bytes, where \<open>4 * ((n + 2) div 3)\<close> does not wrap around.

  \<^bold>\<open>Not modelled.\<close>
  \<^item> Code that builds SQL and talks to the database, the network, the file system or OpenSSL: its effects are outside the
    repository (\<^verbatim>\<open>plugins/database\<close>, \<^verbatim>\<open>server/icat\<close>, \<^verbatim>\<open>plugins/network\<close>, \<^verbatim>\<open>server/drivers\<close>, \<^verbatim>\<open>lib/core/src/sockComm.cpp\<close>). Where a
    component needs their results, they are arguments.
  \<^item> The exchange of the negotiation messages themselves: they are packed and sent by the code above. What they carry, the
    signed zone keys, is modelled in \<open>Zone_Keys\<close>. Decryption and the generation of random keys only call OpenSSL.
  \<^item> The API handlers (\<^verbatim>\<open>server/api\<close>, \<^verbatim>\<open>plugins/api\<close>) and the client commands built on them: they combine the components
    above with the catalog and the network in long procedures whose state is mostly external.
  \<^item> The rule language and the microservices (\<^verbatim>\<open>plugins/rule_engines\<close>, \<^verbatim>\<open>server/re\<close>, \<^verbatim>\<open>plugins/microservices\<close>):
    evaluation calls arbitrary plugins and API handlers.
  \<^item> The packing of structures (\<^verbatim>\<open>lib/core/src/packStruct.cpp\<close>), which interprets a text of instructions over the memory
    layout of C structures, and the rest of the library of C structures (\<^verbatim>\<open>rcMisc.cpp\<close>).
  \<^item> Processes, signals and shared memory of the main server, the agents and the delay server.
  \<^item> Of the modelled files: constructors and iterators of the proxies that only forward, freeing of memory, logging, and the
    text of error messages.
\<close>

end
